(* ===== verification/Prelude.thy ===== *)
theory Prelude
  imports "HOL-Library.Word" "HOL-Library.Monad_Syntax"
begin

text \<open>
  Shared vocabulary of the development.

  \<^item> Machine integers: \<open>u64\<close>, \<open>u32\<close> and \<open>u8\<close> are words, so \<open>+\<close> and \<open>-\<close> wrap around.
    Rust's plain \<open>a + b\<close> and \<open>a - b\<close> are \<open>add_u64\<close> and \<open>sub_u64\<close>: they panic on overflow when
    the crate is built with overflow checks (the dev profile, which \<open>run_local_cluster.sh\<close> uses)
    and wrap otherwise (the release profile, which \<open>generate_proof.sh\<close> uses). The flag is the first
    argument.
  \<^item> Panics: a computation that may panic has type \<open>'a option\<close> and \<open>None\<close> is the panic. A Rust
    function that itself returns \<open>Option\<close> and may also panic therefore has a nested option type.
  \<^item> \<open>ret\<close> and \<open>returns\<close> are the partial and the total correctness reading of such a computation,
    with one rule per construct; the panic-freedom and the safety proofs are built from them.
\<close>

type_synonym u8 = "8 word"
type_synonym u32 = "32 word"
type_synonym u64 = "64 word"

named_theorems log_simps \<open>executing the log's operations on a non-empty vector\<close>

section \<open>Checked arithmetic\<close>

definition add_u64 :: "bool \<Rightarrow> u64 \<Rightarrow> u64 \<Rightarrow> u64 option" where
  "add_u64 chk a b = (if chk \<and> a + b < a then None else Some (a + b))"

definition sub_u64 :: "bool \<Rightarrow> u64 \<Rightarrow> u64 \<Rightarrow> u64 option" where
  "sub_u64 chk a b = (if chk \<and> a < b then None else Some (a - b))"

definition checked_sub :: "u64 \<Rightarrow> u64 \<Rightarrow> u64 option" where
  "checked_sub a b = (if b \<le> a then Some (a - b) else None)"

definition saturating_sub :: "u64 \<Rightarrow> u64 \<Rightarrow> u64" where
  "saturating_sub a b = (if b \<le> a then a - b else 0)"

definition range_incl :: "u64 \<Rightarrow> u64 \<Rightarrow> u64 list" where
  \<comment> \<open>the iteration order of Rust's \<open>a..=b\<close>\<close>
  "range_incl a b = map of_nat [unat a ..< Suc (unat b)]"

section \<open>Vectors\<close>

definition vec_index :: "'a list \<Rightarrow> nat \<Rightarrow> 'a option" where
  \<comment> \<open>\<open>v[i]\<close>: \<open>None\<close> is the panic of an index out of range; also \<open>v.get(i)\<close>, where it is the result\<close>
  "vec_index xs i = (if i < length xs then Some (xs ! i) else None)"

definition vec_last :: "'a list \<Rightarrow> 'a option" where
  "vec_last xs = (if xs = [] then None else Some (last xs))"

definition vec_from :: "'a list \<Rightarrow> nat \<Rightarrow> 'a list option" where
  \<comment> \<open>\<open>&v[i..]\<close>, which panics for \<open>i > len\<close>\<close>
  "vec_from xs i = (if i \<le> length xs then Some (drop i xs) else None)"

lemma vec_index_0 [simp]: "xs \<noteq> [] \<Longrightarrow> vec_index xs 0 = Some (hd xs)"
  by (simp add: vec_index_def hd_conv_nth)

lemma vec_index_Nil [simp]: "vec_index [] i = None"
  by (simp add: vec_index_def)

lemma vec_last_Some [simp]: "xs \<noteq> [] \<Longrightarrow> vec_last xs = Some (last xs)"
  by (simp add: vec_last_def)

lemma vec_from_le [simp]: "i \<le> length xs \<Longrightarrow> vec_from xs i = Some (drop i xs)"
  by (simp add: vec_from_def)

lemma filter_eq_take:
  "(\<And>i. i < length xs \<Longrightarrow> P (xs ! i) \<longleftrightarrow> i < n) \<Longrightarrow> filter P xs = take n xs"
proof (induction xs arbitrary: n)
  case (Cons x xs)
  have rest: "filter P xs = take (n - 1) xs"
    using Cons.prems [of "Suc i" for i] by (intro Cons.IH) (simp add: less_diff_conv)
  show ?case
    using Cons.prems [of 0] rest Cons.prems [of "Suc i" for i]
    by (cases n) (auto simp: filter_empty_conv in_set_conv_nth)
qed simp

lemma filter_eq_drop:
  "(\<And>i. i < length xs \<Longrightarrow> P (xs ! i) \<longleftrightarrow> n \<le> i) \<Longrightarrow> filter P xs = drop n xs"
proof (induction xs arbitrary: n)
  case (Cons x xs)
  have rest: "filter P xs = drop (n - 1) xs"
    using Cons.prems [of "Suc i" for i] by (intro Cons.IH) (simp add: le_diff_conv)
  show ?case
    using Cons.prems [of 0] rest by (cases n) auto
qed simp

section \<open>Partial and total correctness of computations that may panic\<close>

definition ret :: "'a option \<Rightarrow> ('a \<Rightarrow> bool) \<Rightarrow> bool" where
  "ret m Q = (case m of None \<Rightarrow> True | Some x \<Rightarrow> Q x)"

definition returns :: "'a option \<Rightarrow> ('a \<Rightarrow> bool) \<Rightarrow> bool" where
  "returns m Q = (case m of None \<Rightarrow> False | Some x \<Rightarrow> Q x)"

lemma ret_None [simp]: "ret None Q"
  and ret_Some [simp]: "ret (Some x) Q = Q x"
  by (simp_all add: ret_def)

lemma returns_None [simp]: "\<not> returns None Q"
  and returns_Some [simp]: "returns (Some x) Q = Q x"
  by (simp_all add: returns_def)

lemma retD: "ret m Q \<Longrightarrow> m = Some x \<Longrightarrow> Q x"
  by simp

lemma retI: "(\<And>x. m = Some x \<Longrightarrow> Q x) \<Longrightarrow> ret m Q"
  by (cases m) simp_all

lemma totalE: "returns m Q \<Longrightarrow> (\<And>x. m = Some x \<Longrightarrow> Q x \<Longrightarrow> P) \<Longrightarrow> P"
  by (cases m) simp_all

lemma returns_iff: "returns m Q \<longleftrightarrow> (\<exists>x. m = Some x \<and> Q x)"
  by (cases m) simp_all

lemma returns_imp_ret: "returns m Q \<Longrightarrow> ret m Q"
  by (cases m) simp_all

lemma ret_mono: "ret m P \<Longrightarrow> (\<And>x. P x \<Longrightarrow> Q x) \<Longrightarrow> ret m Q"
  by (cases m) simp_all

lemma returns_mono: "returns m P \<Longrightarrow> (\<And>x. P x \<Longrightarrow> Q x) \<Longrightarrow> returns m Q"
  by (cases m) simp_all

lemma ret_bind [intro]: "ret m (\<lambda>x. ret (f x) Q) \<Longrightarrow> ret (Option.bind m f) Q"
  by (cases m) simp_all

lemma returns_bind: "returns m (\<lambda>x. returns (f x) Q) \<Longrightarrow> returns (Option.bind m f) Q"
  by (cases m) simp_all

lemma ret_bindI: "ret m P \<Longrightarrow> (\<And>x. P x \<Longrightarrow> ret (f x) Q) \<Longrightarrow> ret (Option.bind m f) Q"
  by (cases m) simp_all

lemma returns_bindI: "returns m P \<Longrightarrow> (\<And>x. P x \<Longrightarrow> returns (f x) Q) \<Longrightarrow> returns (Option.bind m f) Q"
  by (cases m) simp_all

lemma ret_conj: "ret m P \<Longrightarrow> ret m Q \<Longrightarrow> ret m (\<lambda>x. P x \<and> Q x)"
  by (cases m) simp_all

section \<open>Facts about 64-bit words\<close>

lemma add_u64_Some [simp]: "\<not> a + b < a \<Longrightarrow> add_u64 chk a b = Some (a + b)"
  by (simp add: add_u64_def)

lemma add_u64_result: "add_u64 chk a b = Some c \<Longrightarrow> c = a + b"
  by (auto simp: add_u64_def split: if_splits)

lemma sub_u64_Some [simp]: "b \<le> a \<Longrightarrow> sub_u64 chk a b = Some (a - b)"
  by (auto simp: sub_u64_def)

lemma unat_u64_less: "unat (a::u64) < 2 ^ 64"
  using unsigned_less [of a] by simp

lemma word_no_wrap: "unat a + unat b < 2 ^ 64 \<Longrightarrow> \<not> (a::u64) + b < a"
  by (simp add: word_less_nat_alt unat_word_ariths)

lemma unat_plus_no_wrap: "unat (a::u64) + n < 2 ^ 64 \<Longrightarrow> unat (a + of_nat n) = unat a + n"
  by (simp add: unat_word_ariths unat_of_nat)

lemma unat_u64_max: "unat (-1 :: u64) = 2 ^ 64 - 1"
  by (simp add: unsigned_minus_1_eq_mask mask_eq_exp_minus_1)

lemma not_max_iff: "(a::u64) \<noteq> -1 \<longleftrightarrow> unat a + 1 < 2 ^ 64"
  using unat_u64_less [of a] unat_u64_max word_unat_eq_iff [of a "-1"] by linarith

lemma plus_one_greater: "(a::u64) \<noteq> -1 \<Longrightarrow> a < a + 1"
  using unat_plus_no_wrap [of a 1] by (simp add: not_max_iff word_less_nat_alt)

lemma plus_of_nat_inject:
  assumes "unat (a::u64) + i < 2 ^ 64" and "unat a + j < 2 ^ 64"
  shows "a + of_nat i = a + of_nat j \<longleftrightarrow> i = j"
  using assms unat_plus_no_wrap by (metis add_left_cancel)

lemma u64_offset: "b \<le> (a::u64) \<Longrightarrow> a = b + of_nat (unat (a - b))"
  by simp

lemma unat_offset: "b \<le> (a::u64) \<Longrightarrow> unat (a - b) = unat a - unat b"
  by (simp add: unat_sub)

lemma unat_offset_nat: "unat b \<le> unat (a::u64) \<Longrightarrow> unat (a - b) = unat a - unat b"
  by (simp add: unat_offset word_le_nat_alt)

end
