(* ===== verification/Message.thy ===== *)
theory Message
  imports Prelude
begin

text \<open>
  The vocabulary of \<open>raft-core/src/types.rs\<close> and \<open>raft-core/src/message.rs\<close>. The transparent newtypes
  \<open>Term\<close>, \<open>LogIndex\<close> and \<open>NodeId\<close> are 64-bit words with the word order (the order the code derives);
  structs are records and the message kinds one datatype with the constructors of the source.
\<close>

type_synonym raft_term = u64
type_synonym log_index = u64
type_synonym node_id = u64
type_synonym bytes = "u8 list"

definition term_zero :: raft_term where
  "term_zero = 0"

definition sentinel_index :: log_index where
  "sentinel_index = 0"

definition term_next :: "bool \<Rightarrow> raft_term \<Rightarrow> raft_term option" where
  "term_next chk t = add_u64 chk t 1"

definition index_next :: "bool \<Rightarrow> log_index \<Rightarrow> log_index option" where
  "index_next chk i = add_u64 chk i 1"

definition index_prev :: "log_index \<Rightarrow> log_index" where
  "index_prev i = saturating_sub i 1"

record log_entry =
  e_index :: log_index
  e_term :: raft_term
  e_command :: bytes

record snapshot_meta =
  last_included_index :: log_index
  last_included_term :: raft_term

datatype message_kind =
    RequestVote (rv_last_log_index: log_index) (rv_last_log_term: raft_term)
  | RequestVoteResponse (rv_granted: bool)
  | PreVote (pv_last_log_index: log_index) (pv_last_log_term: raft_term)
  | PreVoteResponse (pv_granted: bool)
  | AppendEntries (ae_prev_index: log_index) (ae_prev_term: raft_term)
      (ae_entries: "log_entry list") (ae_leader_commit: log_index)
  | AppendEntriesResponse (aer_success: bool) (aer_conflict_term: "raft_term option")
      (aer_conflict_index: "log_index option")
  | InstallSnapshot (is_last_index: log_index) (is_last_term: raft_term) (is_offset: u64)
      (is_data: bytes) (is_done: bool)
  | InstallSnapshotResponse
  | ClientRequest (cr_command: bytes)
  | ClientResponse (cr_success: bool) (cr_leader_hint: "node_id option")

record message =
  msg_from :: node_id
  msg_to :: node_id
  msg_term :: raft_term
  msg_kind :: message_kind

lemma term_next_Some [simp]: "t \<noteq> -1 \<Longrightarrow> term_next chk t = Some (t + 1)"
  using plus_one_greater [of t] by (auto simp: term_next_def add_u64_def)

lemma index_next_Some [simp]: "i \<noteq> -1 \<Longrightarrow> index_next chk i = Some (i + 1)"
  using plus_one_greater [of i] by (auto simp: index_next_def add_u64_def)

lemma term_next_result: "term_next chk t = Some u \<Longrightarrow> u = t + 1"
  by (auto simp: term_next_def dest: add_u64_result)

lemma index_next_result: "index_next chk i = Some j \<Longrightarrow> j = i + 1"
  by (auto simp: index_next_def dest: add_u64_result)

end
