(* ===== verification/LogStore.thy ===== *)
theory LogStore
  imports Message
begin

text \<open>
  What every store of log entries promises. Both \<open>RaftLog\<close> (the in-memory log of a node) and the
  simulator's \<open>StableDisk\<close> keep a vector whose slot 0 is the sentinel and find an entry by the offset
  of its index from that base. The reference operations here say what the offsets are for, without
  them: \<open>spec_truncate\<close> and \<open>spec_compact\<close> select entries by their index. The locale \<open>log_store\<close> is
  the contract; \<open>log_mirror\<close> is two stores driven by the same operations, which is how a node's
  actions keep the disk equal to its log.
\<close>

definition sentinel_entry :: "log_index \<Rightarrow> raft_term \<Rightarrow> log_entry" where
  "sentinel_entry i t = \<lparr>e_index = i, e_term = t, e_command = []\<rparr>"

lemma sentinel_entry_simps [simp]:
  "e_index (sentinel_entry i t) = i"
  "e_term (sentinel_entry i t) = t"
  "e_command (sentinel_entry i t) = []"
  by (simp_all add: sentinel_entry_def)

section \<open>Consecutively indexed vectors\<close>

definition indexed_from :: "u64 \<Rightarrow> log_entry list \<Rightarrow> bool" where
  \<comment> \<open>the entries carry the indices \<open>b\<close>, \<open>b + 1\<close>, \dots without running past the 64-bit range\<close>
  "indexed_from b es \<longleftrightarrow>
     (\<forall>i < length es. e_index (es ! i) = b + of_nat i) \<and> unat b + length es \<le> 2 ^ 64"

definition vec_wf :: "log_entry list \<Rightarrow> bool" where
  "vec_wf es \<longleftrightarrow> es \<noteq> [] \<and> indexed_from (e_index (hd es)) es"

definition vec_base :: "log_entry list \<Rightarrow> nat" where
  "vec_base es = unat (e_index (hd es))"

definition vec_end :: "log_entry list \<Rightarrow> nat" where
  \<comment> \<open>the index of the last entry\<close>
  "vec_end es = vec_base es + length es - 1"

definition vec_lookup :: "log_entry list \<Rightarrow> nat \<Rightarrow> log_entry option" where
  \<comment> \<open>the entry of a given index, the sentinel included\<close>
  "vec_lookup es i =
     (if vec_base es \<le> i \<and> i < vec_base es + length es then Some (es ! (i - vec_base es)) else None)"

lemma indexed_from_Nil [simp]: "indexed_from b []"
  using unat_u64_less [of b] by (simp add: indexed_from_def)

lemma indexed_from_nth: "indexed_from b es \<Longrightarrow> i < length es \<Longrightarrow> e_index (es ! i) = b + of_nat i"
  by (simp add: indexed_from_def)

lemma indexed_from_unat:
  assumes "indexed_from b es" and "i < length es"
  shows "unat (e_index (es ! i)) = unat b + i"
  using assms by (simp add: indexed_from_def unat_plus_no_wrap)

lemma indexed_from_append:
  "indexed_from b (xs @ ys) \<longleftrightarrow>
     indexed_from b xs \<and> (ys = [] \<or> indexed_from (b + of_nat (length xs)) ys \<and>
       unat b + length xs + length ys \<le> 2 ^ 64)"
proof (cases "ys = []")
  case False
  show ?thesis
  proof
    assume wf: "indexed_from b (xs @ ys)"
    have "unat b + length xs < 2 ^ 64"
      using wf False by (cases ys) (auto simp: indexed_from_def)
    then have u: "unat (b + of_nat (length xs)) = unat b + length xs"
      by (rule unat_plus_no_wrap)
    have "indexed_from b xs"
      using wf by (auto simp: indexed_from_def nth_append split: if_splits)
    moreover have "indexed_from (b + of_nat (length xs)) ys"
      unfolding indexed_from_def u
    proof (intro conjI allI impI)
      fix i assume "i < length ys"
      then show "e_index (ys ! i) = b + of_nat (length xs) + of_nat i"
        using indexed_from_nth [OF wf, of "length xs + i"] by (simp add: add.assoc)
    qed (use wf in \<open>simp add: indexed_from_def\<close>)
    ultimately show "indexed_from b xs \<and> (ys = [] \<or> indexed_from (b + of_nat (length xs)) ys \<and>
       unat b + length xs + length ys \<le> 2 ^ 64)"
      using wf by (simp add: indexed_from_def)
  next
    assume "indexed_from b xs \<and> (ys = [] \<or> indexed_from (b + of_nat (length xs)) ys \<and>
       unat b + length xs + length ys \<le> 2 ^ 64)"
    with False show "indexed_from b (xs @ ys)"
      by (auto simp: indexed_from_def nth_append algebra_simps)
  qed
qed simp

lemma indexed_from_Cons:
  "indexed_from b (x # xs) \<longleftrightarrow> e_index x = b \<and> (xs = [] \<or> indexed_from (b + 1) xs \<and> unat b + length xs < 2 ^ 64)"
  using indexed_from_append [of b "[x]" xs] unat_u64_less [of b] by (auto simp: indexed_from_def [of _ "[_]"])

lemma indexed_from_take: "indexed_from b es \<Longrightarrow> indexed_from b (take n es)"
  by (auto simp: indexed_from_def)

lemma indexed_from_drop:
  assumes "indexed_from b es" and "n \<le> length es"
  shows "indexed_from (b + of_nat n) (drop n es)"
proof (cases "n = length es")
  case False
  have "indexed_from b (take n es @ drop n es)" using assms by simp
  with False assms(2) show ?thesis
    unfolding indexed_from_append by (auto simp: min_def)
qed simp

lemma indexed_from_snoc:
  assumes "indexed_from b xs" and "e_index x = b + of_nat (length xs)" and "unat b + length xs < 2 ^ 64"
  shows "indexed_from b (xs @ [x])"
  using assms unat_plus_no_wrap [OF assms(3)]
  unfolding indexed_from_append by (auto simp: indexed_from_def [of _ "[x]"])

lemma vec_wf_nonempty [simp, dest]: "vec_wf es \<Longrightarrow> es \<noteq> []"
  by (simp add: vec_wf_def)

lemma vec_wf_indexed: "vec_wf es \<Longrightarrow> indexed_from (e_index (hd es)) es"
  by (simp add: vec_wf_def)

lemma vec_wf_unat: "vec_wf es \<Longrightarrow> i < length es \<Longrightarrow> unat (e_index (es ! i)) = vec_base es + i"
  unfolding vec_base_def by (intro indexed_from_unat vec_wf_indexed)

lemma vec_wf_bound: "vec_wf es \<Longrightarrow> vec_base es + length es \<le> 2 ^ 64"
  by (simp add: vec_wf_def indexed_from_def vec_base_def)

lemma vec_wf_end: "vec_wf es \<Longrightarrow> unat (e_index (last es)) = vec_end es"
  using vec_wf_unat [of es "length es - 1"]
  by (cases es rule: rev_cases) (auto simp: vec_end_def)

lemma vec_wf_singleton [simp]: "vec_wf [e]"
  using unat_u64_less [of "e_index e"] by (simp add: vec_wf_def indexed_from_def)

lemma vec_lookup_index:
  "vec_wf es \<Longrightarrow> vec_lookup es i = Some e \<Longrightarrow> unat (e_index e) = i"
  using vec_wf_unat [of es "i - vec_base es"] by (auto simp: vec_lookup_def split: if_splits)

lemma vec_lookup_mem:
  assumes "vec_wf es"
  shows "e \<in> set es \<longleftrightarrow> vec_lookup es (unat (e_index e)) = Some e"
proof
  assume "e \<in> set es"
  then obtain i where i: "i < length es" "e = es ! i"
    by (auto simp: in_set_conv_nth)
  with vec_wf_unat [OF assms i(1)] show "vec_lookup es (unat (e_index e)) = Some e"
    by (simp add: vec_lookup_def)
next
  assume "vec_lookup es (unat (e_index e)) = Some e"
  then have k: "unat (e_index e) - vec_base es < length es" and "es ! (unat (e_index e) - vec_base es) = e"
    by (auto simp: vec_lookup_def split: if_splits)
  with nth_mem [OF k] show "e \<in> set es" by simp
qed

section \<open>The reference operations\<close>

definition spec_truncate :: "log_index \<Rightarrow> log_entry list \<Rightarrow> log_entry list \<Rightarrow> log_entry list" where
  \<comment> \<open>forget everything from an index on, then add the new entries\<close>
  "spec_truncate i new es = filter (\<lambda>e. e_index e < i) es @ new"

definition spec_compact :: "log_index \<Rightarrow> raft_term \<Rightarrow> log_entry list \<Rightarrow> log_entry list" where
  \<comment> \<open>forget everything up to an index, which becomes the new base\<close>
  "spec_compact i t es =
     (if i \<le> e_index (hd es) then es else sentinel_entry i t # filter (\<lambda>e. i < e_index e) es)"

lemma filter_below_take:
  assumes "vec_wf es" and "e_index (hd es) \<le> i"
  shows "filter (\<lambda>e. e_index e < i) es = take (unat (i - e_index (hd es))) es"
  using assms vec_wf_unat [OF assms(1)]
  by (intro filter_eq_take) (auto simp: word_less_nat_alt word_le_nat_alt unat_offset vec_base_def)

lemma filter_from_drop:
  assumes "vec_wf es" and "e_index (hd es) \<le> i"
  shows "filter (\<lambda>e. i \<le> e_index e) es = drop (unat (i - e_index (hd es))) es"
  using assms vec_wf_unat [OF assms(1)]
  by (intro filter_eq_drop) (auto simp: word_less_nat_alt word_le_nat_alt unat_offset vec_base_def)

lemma filter_above_drop:
  assumes "vec_wf es" and "e_index (hd es) \<le> i"
  shows "filter (\<lambda>e. i < e_index e) es = drop (Suc (unat (i - e_index (hd es)))) es"
  using assms vec_wf_unat [OF assms(1)]
  by (intro filter_eq_drop) (auto simp: word_less_nat_alt word_le_nat_alt unat_offset vec_base_def)

lemma spec_truncate_take:
  assumes "vec_wf es" and "e_index (hd es) \<le> i"
  shows "spec_truncate i new es = take (unat (i - e_index (hd es))) es @ new"
  using assms by (simp add: spec_truncate_def filter_below_take)

lemma spec_truncate_hd:
  assumes "vec_wf es" and "e_index (hd es) < i"
  shows "hd (spec_truncate i new es) = hd es"
  using assms by (cases es) (auto simp: spec_truncate_def)

lemma spec_truncate_wf:
  assumes wf: "vec_wf es" and lo: "e_index (hd es) < i" and hi: "unat i \<le> Suc (vec_end es)"
    and new: "indexed_from i new"
  shows "vec_wf (spec_truncate i new es)"
proof -
  define n where "n = unat (i - e_index (hd es))"
  have n: "0 < n" "n \<le> length es" "unat (e_index (hd es)) + n = unat i"
    using lo hi wf by (auto simp: n_def unat_offset_nat vec_end_def vec_base_def word_less_nat_alt)
  have i: "e_index (hd es) + of_nat n = i"
    by (simp add: n_def)
  have len: "length (take n es) = n" using n by simp
  have "unat i + length new \<le> 2 ^ 64" using new by (simp add: indexed_from_def)
  then have "indexed_from (e_index (hd es)) (take n es @ new)"
    unfolding indexed_from_append len i n(3)
    using wf new by (simp add: indexed_from_take vec_wf_indexed)
  moreover have "spec_truncate i new es = take n es @ new"
    using wf lo by (simp add: spec_truncate_take n_def)
  moreover have "hd (take n es @ new) = hd es" "take n es \<noteq> []"
    using n wf by (cases es; cases n; simp)+
  ultimately show ?thesis by (simp add: vec_wf_def)
qed

lemma spec_truncate_lookup:
  assumes wf: "vec_wf es" and lo: "e_index (hd es) < i" and hi: "unat i \<le> Suc (vec_end es)"
  shows "vec_lookup (spec_truncate i new es) k =
    (if k < unat i then vec_lookup es k
     else if k < unat i + length new then Some (new ! (k - unat i)) else None)"
proof -
  define n where "n = unat (i - e_index (hd es))"
  have n: "0 < n" "n \<le> length es" "vec_base es + n = unat i"
    using lo hi wf by (auto simp: n_def unat_offset_nat vec_end_def vec_base_def word_less_nat_alt)
  have eq: "spec_truncate i new es = take n es @ new"
    using wf lo by (simp add: spec_truncate_take n_def)
  have base: "vec_base (spec_truncate i new es) = vec_base es"
    using spec_truncate_hd [OF wf lo] by (simp add: vec_base_def)
  show ?thesis
    using n unfolding vec_lookup_def base unfolding eq
    by (auto simp: nth_append less_diff_conv2 intro!: arg_cong [where f = "nth new"])
qed

lemma spec_compact_wf:
  assumes "vec_wf es"
  shows "vec_wf (spec_compact i t es)"
proof (cases "i \<le> e_index (hd es)")
  case False
  define n where "n = Suc (unat (i - e_index (hd es)))"
  have rest: "filter (\<lambda>e. i < e_index e) es = drop n es"
    using assms False by (simp add: filter_above_drop n_def)
  show ?thesis
  proof (cases "n < length es")
    case True
    have idx: "e_index (hd es) + of_nat n = i + 1"
      by (simp add: n_def)
    have "indexed_from (i + 1) (drop n es)"
      using indexed_from_drop [OF vec_wf_indexed [OF assms], of n] True idx by simp
    moreover have "unat i + 1 + length (drop n es) \<le> 2 ^ 64"
      using vec_wf_bound [OF assms] True False
      by (auto simp: n_def vec_base_def unat_offset word_le_nat_alt)
    ultimately have "indexed_from i ([sentinel_entry i t] @ drop n es)"
      unfolding indexed_from_append using True by (simp add: indexed_from_def)
    with False rest show ?thesis
      by (simp add: spec_compact_def vec_wf_def)
  qed (use False rest in \<open>simp add: spec_compact_def\<close>)
qed (use assms in \<open>simp add: spec_compact_def\<close>)

lemma spec_compact_hd:
  "e_index (hd (spec_compact i t es)) = max i (e_index (hd es))"
  by (auto simp: spec_compact_def max_def)

lemma spec_compact_lookup:
  assumes wf: "vec_wf es" and lo: "e_index (hd es) < i"
  shows "vec_lookup (spec_compact i t es) k =
    (if k < unat i then None else if k = unat i then Some (sentinel_entry i t) else vec_lookup es k)"
proof -
  define n where "n = Suc (unat (i - e_index (hd es)))"
  have n: "vec_base es + n = Suc (unat i)"
    using lo by (simp add: n_def vec_base_def unat_offset_nat word_less_nat_alt)
  have eq: "spec_compact i t es = sentinel_entry i t # drop n es"
    using wf lo by (auto simp: spec_compact_def filter_above_drop n_def dest: leD)
  from n show ?thesis
    unfolding vec_lookup_def eq vec_base_def [of "_ # _"]
    by (auto simp: nth_Cons' less_diff_conv2 intro!: arg_cong [where f = "nth es"])
qed

section \<open>The contract\<close>

locale log_store =
  fixes view :: "'s \<Rightarrow> log_entry list"
    and inv :: "'s \<Rightarrow> bool"
    and truncate_append :: "log_index \<Rightarrow> log_entry list \<Rightarrow> 's \<Rightarrow> 's option"
    and compact_to :: "log_index \<Rightarrow> raft_term \<Rightarrow> 's \<Rightarrow> 's option"
  assumes inv_view: "inv s \<Longrightarrow> vec_wf (view s)"
    and truncate_law: "\<lbrakk>inv s; e_index (hd (view s)) < i; unat i \<le> Suc (vec_end (view s)); indexed_from i new\<rbrakk>
      \<Longrightarrow> returns (truncate_append i new s) (\<lambda>s'. inv s' \<and> view s' = spec_truncate i new (view s))"
    and compact_law: "inv s
      \<Longrightarrow> returns (compact_to i t s) (\<lambda>s'. inv s' \<and> view s' = spec_compact i t (view s))"
begin

lemma kept_below:
  assumes "inv s" "e_index (hd (view s)) < i" "unat i \<le> Suc (vec_end (view s))" "indexed_from i new"
  shows "returns (truncate_append i new s) (\<lambda>s'. \<forall>k < unat i. vec_lookup (view s') k = vec_lookup (view s) k)"
  using assms by (intro returns_mono [OF truncate_law]) (auto simp: spec_truncate_lookup inv_view)

lemma stored_from:
  assumes "inv s" "e_index (hd (view s)) < i" "unat i \<le> Suc (vec_end (view s))" "indexed_from i new"
  shows "returns (truncate_append i new s) (\<lambda>s'. \<forall>k. unat i \<le> k \<longrightarrow>
    vec_lookup (view s') k = (if k < unat i + length new then Some (new ! (k - unat i)) else None))"
  using assms by (intro returns_mono [OF truncate_law]) (auto simp: spec_truncate_lookup inv_view)

lemma compact_keeps_above:
  assumes "inv s" and "unat i < k"
  shows "returns (compact_to i t s) (\<lambda>s'. vec_lookup (view s') k = vec_lookup (view s) k)"
proof -
  have "vec_lookup (spec_compact i t (view s)) k = vec_lookup (view s) k"
  proof (cases "e_index (hd (view s)) < i")
    case True
    with assms show ?thesis by (simp add: spec_compact_lookup inv_view)
  qed (simp add: spec_compact_def not_less)
  with assms(1) show ?thesis by (auto intro: returns_mono [OF compact_law])
qed

end

locale log_mirror =
  mem: log_store view1 inv1 trunc1 compact1 + disk: log_store view2 inv2 trunc2 compact2
  for view1 :: "'m \<Rightarrow> log_entry list" and inv1 trunc1 compact1
    and view2 :: "'d \<Rightarrow> log_entry list" and inv2 trunc2 compact2
begin

lemma mirror_truncate:
  assumes "inv1 m" "inv2 d" "view2 d = view1 m"
    and "e_index (hd (view1 m)) < i" "unat i \<le> Suc (vec_end (view1 m))" "indexed_from i new"
  shows "returns (trunc1 i new m) (\<lambda>m'. returns (trunc2 i new d) (\<lambda>d'.
    inv1 m' \<and> inv2 d' \<and> view2 d' = view1 m'))"
  using mem.truncate_law [of m i new] disk.truncate_law [of d i new] assms
  by (auto simp: returns_iff)

lemma mirror_compact:
  assumes "inv1 m" "inv2 d" "view2 d = view1 m"
  shows "returns (compact1 i t m) (\<lambda>m'. returns (compact2 i t d) (\<lambda>d'.
    inv1 m' \<and> inv2 d' \<and> view2 d' = view1 m'))"
  using mem.compact_law [of m i t] disk.compact_law [of d i t] assms
  by (auto simp: returns_iff)

end

end
