(* ===== verification/RaftLog.thy ===== *)
theory RaftLog
  imports LogStore
begin

text \<open>
  \<open>raft-core/src/log.rs\<close>: the log as a vector whose slot 0 is the sentinel (or the snapshot base).
  Every operation is translated with its panics: indexing or \<open>unwrap\<close> on an empty vector, the
  \<open>assert!\<close> of \<open>truncate_and_append\<close>, and the \<open>debug_assert_eq!\<close> of \<open>append\<close> (active in the dev
  profile, the flag \<open>dbg\<close>). \<open>log_wf\<close> is the invariant the source states for the type, together with
  the bound that makes indices unambiguous; the operations keep it, and on well-formed logs they are
  the list operations of the specification below.
\<close>

section \<open>The operations\<close>

record raft_log =
  entries :: "log_entry list"

definition log_new :: raft_log where
  "log_new = \<lparr>entries = [sentinel_entry sentinel_index term_zero]\<rparr>"

definition log_restore :: "snapshot_meta \<Rightarrow> log_entry list \<Rightarrow> raft_log" where
  "log_restore meta es =
     \<lparr>entries = sentinel_entry (last_included_index meta) (last_included_term meta) # es\<rparr>"

definition last_index :: "raft_log \<Rightarrow> log_index option" where
  "last_index l = map_option e_index (vec_last (entries l))"

definition last_term :: "raft_log \<Rightarrow> raft_term option" where
  "last_term l = map_option e_term (vec_last (entries l))"

definition first_index :: "raft_log \<Rightarrow> log_index option" where
  "first_index l = map_option e_index (vec_index (entries l) 0)"

definition entry_at :: "raft_log \<Rightarrow> log_index \<Rightarrow> log_entry option option" where
  "entry_at l i = do {
     base \<leftarrow> first_index l;
     Some (case checked_sub i base of
             None \<Rightarrow> None
           | Some offset \<Rightarrow> vec_index (entries l) (unat offset))
   }"

definition term_at :: "raft_log \<Rightarrow> log_index \<Rightarrow> raft_term option option" where
  "term_at l i = do {
     base \<leftarrow> first_index l;
     Some (case checked_sub i base of
             None \<Rightarrow> None
           | Some offset \<Rightarrow> map_option e_term (vec_index (entries l) (unat offset)))
   }"

definition log_append :: "bool \<Rightarrow> log_entry list \<Rightarrow> raft_log \<Rightarrow> raft_log option" where
  "log_append dbg es l =
     (if es = [] then Some l
      else do {
        contiguous \<leftarrow> (if dbg then do {
                          e0 \<leftarrow> vec_index es 0;
                          li \<leftarrow> last_index l;
                          nxt \<leftarrow> index_next dbg li;
                          Some (e_index e0 = nxt)
                        } else Some True);
        if contiguous then Some (l\<lparr>entries := entries l @ es\<rparr>) else None
      })"

definition log_truncate_and_append :: "log_index \<Rightarrow> log_entry list \<Rightarrow> raft_log \<Rightarrow> raft_log option" where
  "log_truncate_and_append from_index es l = do {
     base \<leftarrow> first_index l;
     if from_index > base
     then Some (l\<lparr>entries := take (unat (from_index - base)) (entries l) @ es\<rparr>)
     else None
   }"

definition entries_from :: "raft_log \<Rightarrow> log_index \<Rightarrow> log_entry list option" where
  "entries_from l start_index = do {
     base \<leftarrow> first_index l;
     if start_index \<le> base then vec_from (entries l) 1
     else let offset = unat (start_index - base) in
       if offset \<ge> length (entries l) then Some []
       else vec_from (entries l) offset
   }"

definition log_snapshot_meta :: "raft_log \<Rightarrow> snapshot_meta option option" where
  "log_snapshot_meta l = do {
     sentinel \<leftarrow> vec_index (entries l) 0;
     Some (if e_index sentinel = sentinel_index then None
           else Some \<lparr>last_included_index = e_index sentinel, last_included_term = e_term sentinel\<rparr>)
   }"

definition log_compact :: "log_index \<Rightarrow> raft_term \<Rightarrow> raft_log \<Rightarrow> raft_log option" where
  "log_compact idx t l = do {
     base \<leftarrow> first_index l;
     if idx \<le> base then Some l
     else let offset = unat (idx - base) in
       if offset \<ge> length (entries l)
       then Some (l\<lparr>entries := [sentinel_entry idx t]\<rparr>)
       else Some (l\<lparr>entries := (drop offset (entries l))[0 := sentinel_entry idx t]\<rparr>)
   }"

definition log_install_snapshot :: "snapshot_meta \<Rightarrow> raft_log \<Rightarrow> raft_log" where
  "log_install_snapshot meta l =
     l\<lparr>entries := [sentinel_entry (last_included_index meta) (last_included_term meta)]\<rparr>"

definition log_len :: "bool \<Rightarrow> raft_log \<Rightarrow> u64 option" where
  "log_len dbg l = sub_u64 dbg (of_nat (length (entries l))) 1"

definition log_is_empty :: "bool \<Rightarrow> raft_log \<Rightarrow> bool option" where
  "log_is_empty dbg l = do { n \<leftarrow> log_len dbg l; Some (n = 0) }"

section \<open>Executing the operations\<close>

lemma log_query_simps [log_simps]:
  assumes "entries l \<noteq> []"
  shows "first_index l = Some (e_index (hd (entries l)))"
    and "last_index l = Some (e_index (last (entries l)))"
    and "last_term l = Some (e_term (last (entries l)))"
  using assms by (simp_all add: first_index_def last_index_def last_term_def)

definition log_wf :: "raft_log \<Rightarrow> bool" where
  \<comment> \<open>the invariant of the source's comment, and room for every index\<close>
  "log_wf l \<longleftrightarrow> vec_wf (entries l)"

lemma log_wf_nonempty [simp]: "log_wf l \<Longrightarrow> entries l \<noteq> []"
  by (simp add: log_wf_def)

lemma log_wf_vec: "log_wf l \<Longrightarrow> vec_wf (entries l)"
  by (simp add: log_wf_def)

abbreviation lookup :: "raft_log \<Rightarrow> nat \<Rightarrow> log_entry option" where
  "lookup l \<equiv> vec_lookup (entries l)"

abbreviation log_base :: "raft_log \<Rightarrow> nat" where
  "log_base l \<equiv> vec_base (entries l)"

abbreviation log_last :: "raft_log \<Rightarrow> nat" where
  "log_last l \<equiv> vec_end (entries l)"

lemma last_index_spec: "log_wf l \<Longrightarrow> returns (last_index l) (\<lambda>i. unat i = log_last l)"
  by (simp add: log_simps vec_wf_end log_wf_def)

lemma entry_at_lookup [log_simps]:
  assumes "entries l \<noteq> []"
  shows "entry_at l i = Some (lookup l (unat i))"
  using assms
  by (auto simp: entry_at_def log_simps checked_sub_def vec_index_def vec_lookup_def vec_base_def
      unat_offset word_le_nat_alt)

lemma term_at_lookup [log_simps]:
  assumes "entries l \<noteq> []"
  shows "term_at l i = Some (map_option e_term (lookup l (unat i)))"
  using assms
  by (auto simp: term_at_def log_simps checked_sub_def vec_index_def vec_lookup_def vec_base_def
      unat_offset word_le_nat_alt)

lemma entries_from_filter:
  assumes "log_wf l"
  shows "entries_from l i = Some (filter (\<lambda>e. i \<le> e_index e) (tl (entries l)))"
proof (cases "i \<le> e_index (hd (entries l))")
  case True
  have "i \<le> e_index e" if "e \<in> set (tl (entries l))" for e
  proof -
    have "e \<in> set (entries l)" using that by (cases "entries l") auto
    then have "vec_lookup (entries l) (unat (e_index e)) = Some e"
      using assms by (simp add: vec_lookup_mem [symmetric] log_wf_def)
    then have "vec_base (entries l) \<le> unat (e_index e)"
      by (simp add: vec_lookup_def split: if_splits)
    with True show ?thesis by (simp add: word_le_nat_alt vec_base_def)
  qed
  then have "filter (\<lambda>e. i \<le> e_index e) (tl (entries l)) = tl (entries l)"
    by simp
  with True assms show ?thesis
    by (simp add: entries_from_def log_simps Suc_le_eq drop_Suc)
next
  case False
  have "filter (\<lambda>e. i \<le> e_index e) (tl (entries l)) = filter (\<lambda>e. i \<le> e_index e) (entries l)"
    using False assms by (cases "entries l") auto
  also have "\<dots> = drop (unat (i - e_index (hd (entries l)))) (entries l)"
    using assms False by (simp add: filter_from_drop log_wf_def)
  finally show ?thesis
    using False assms by (simp add: entries_from_def log_simps Let_def)
qed

section \<open>The log meets the contract of a store\<close>

lemma truncate_and_append_eq:
  assumes "log_wf l" and "e_index (hd (entries l)) < i"
  shows "log_truncate_and_append i new l = Some (l\<lparr>entries := spec_truncate i new (entries l)\<rparr>)"
  using assms by (simp add: log_truncate_and_append_def log_simps spec_truncate_take log_wf_def)

lemma compact_eq:
  assumes "log_wf l"
  shows "log_compact i t l = Some (l\<lparr>entries := spec_compact i t (entries l)\<rparr>)"
proof (cases "i \<le> e_index (hd (entries l))")
  case False
  then have lo: "e_index (hd (entries l)) < i" by simp
  define n where "n = unat (i - e_index (hd (entries l)))"
  have f: "filter (\<lambda>e. i < e_index e) (entries l) = drop (Suc n) (entries l)"
    using assms lo by (simp add: filter_above_drop log_wf_def n_def)
  have "(drop n (entries l))[0 := sentinel_entry i t] = sentinel_entry i t # drop (Suc n) (entries l)"
    if "n < length (entries l)"
    using that by (simp add: Cons_nth_drop_Suc [symmetric])
  with False f assms show ?thesis
    by (simp add: log_compact_def log_simps spec_compact_def Let_def n_def [symmetric])
qed (use assms in \<open>simp add: log_compact_def log_simps spec_compact_def\<close>)

lemma log_contract: "log_store entries log_wf log_truncate_and_append log_compact"
  by unfold_locales
    (auto simp: log_wf_def truncate_and_append_eq compact_eq spec_truncate_wf spec_compact_wf)

interpretation rlog: log_store entries log_wf log_truncate_and_append log_compact
  by (rule log_contract)

lemma log_new_wf [simp]: "log_wf log_new"
  by (simp add: log_new_def log_wf_def)

lemma install_snapshot_wf [simp]: "log_wf (log_install_snapshot meta l)"
  by (simp add: log_install_snapshot_def log_wf_def)

lemma log_append_eq:
  assumes "log_wf l" and "es \<noteq> [] \<Longrightarrow> e_index (hd es) = e_index (last (entries l)) + 1"
    and "es \<noteq> [] \<Longrightarrow> e_index (last (entries l)) \<noteq> -1"
  shows "log_append dbg es l = Some (l\<lparr>entries := entries l @ es\<rparr>)"
  using assms by (cases "es = []") (auto simp: log_append_def log_simps)

lemma log_append_wf:
  assumes wf: "log_wf l" and new: "indexed_from (e_index (last (entries l)) + 1) es"
    and room: "es \<noteq> [] \<Longrightarrow> e_index (last (entries l)) \<noteq> -1"
  shows "log_wf (l\<lparr>entries := entries l @ es\<rparr>)"
proof (cases "es = []")
  case False
  let ?b = "e_index (hd (entries l))"
  have len: "length (entries l) = Suc (length (entries l) - 1)"
    using wf by simp
  have "e_index (last (entries l)) = ?b + of_nat (length (entries l) - 1)"
    using indexed_from_nth [OF vec_wf_indexed, of "entries l" "length (entries l) - 1"] wf
    by (simp add: last_conv_nth log_wf_def)
  then have nxt: "e_index (last (entries l)) + 1 = ?b + of_nat (length (entries l))"
    by (subst len) simp
  have "unat (e_index (last (entries l)) + 1) = Suc (log_last l)"
    using room [OF False] wf unat_plus_no_wrap [of "e_index (last (entries l))" 1]
    by (simp add: not_max_iff vec_wf_end log_wf_def)
  then have "unat ?b + length (entries l) = unat (e_index (last (entries l)) + 1)"
    using wf by (simp add: vec_end_def vec_base_def log_wf_def)
  with new have "unat ?b + length (entries l) + length es \<le> 2 ^ 64"
    by (simp add: indexed_from_def)
  then have "indexed_from ?b (entries l @ es)"
    unfolding indexed_from_append using vec_wf_indexed [OF log_wf_vec [OF wf]] new [unfolded nxt]
    by blast
  with wf show ?thesis unfolding log_wf_def vec_wf_def by simp
qed (use wf in simp)

end
