(* ===== verification/NodeState.thy ===== *)
theory NodeState
  imports RaftLog
begin

text \<open>
  The state of a \<open>RaftNode\<close> (\<open>raft-core/src/node.rs\<close>), its constructors and the helpers every handler
  uses. \<open>&mut self\<close> is explicit state passing and \<open>actions: &mut Vec<Action>\<close> is a list of emitted
  actions each function returns, appended by the callers in the order of the pushes. \<open>SmallRng\<close> is
  the \<open>rand\<close> crate's: its state type \<open>'r\<close> and its two operations are the fields \<open>seed_from_u64\<close> and
  \<open>gen_range\<close> of the environment, next to the build profile.
\<close>

section \<open>Data\<close>

record 'r env =
  debug :: bool                       \<comment> \<open>the dev profile: overflow checks and debug assertions\<close>
  seed_from_u64 :: "u64 \<Rightarrow> 'r"
  gen_range :: "'r \<Rightarrow> u64 \<Rightarrow> u64 \<times> 'r"  \<comment> \<open>\<open>rng.gen_range(0..n)\<close> for \<open>n > 0\<close>\<close>

datatype role = Follower | PreCandidate | Candidate | Leader

datatype action =
    Send message
  | AppendToLog "log_entry list"                     \<comment> \<open>\<open>Action::AppendEntries\<close>\<close>
  | TruncateAndAppend log_index "log_entry list"
  | PersistHardState raft_term "node_id option"
  | Apply "log_entry list"
  | PersistSnapshot log_index raft_term bytes

record config =
  cfg_id :: node_id
  cfg_peers :: "node_id list"
  cfg_election_timeout_ticks :: u64
  cfg_heartbeat_interval_ticks :: u64
  cfg_rng_seed :: u64

record 'r raft_node =
  node_id :: node_id
  peers :: "node_id list"
  current_term :: raft_term
  voted_for :: "node_id option"
  log :: raft_log
  commit_index :: log_index
  last_applied :: log_index
  role :: role
  next_index :: "node_id \<rightharpoonup> log_index"
  match_index :: "node_id \<rightharpoonup> log_index"
  election_timeout_base :: u64
  election_timeout :: u64
  election_elapsed :: u64
  heartbeat_interval :: u64
  heartbeat_elapsed :: u64
  votes_received :: "node_id set"
  pre_votes_received :: "node_id set"
  rng :: 'r
  leader_id :: "node_id option"

type_synonym 'r outcome = "'r raft_node \<times> action list"

section \<open>Constructors\<close>

definition randomize_election_timeout :: "'r env \<Rightarrow> u64 \<Rightarrow> 'r \<Rightarrow> (u64 \<times> 'r) option" where
  "randomize_election_timeout e base r =
     (if base = 0 then None  \<comment> \<open>\<open>gen_range\<close> panics on an empty range\<close>
      else let (k, r') = gen_range e r base in do {
        t \<leftarrow> add_u64 (debug e) base k;
        Some (t, r')
      })"

definition node_new :: "'r env \<Rightarrow> config \<Rightarrow> 'r raft_node option" where
  "node_new e c =
     (let et = cfg_election_timeout_ticks c; hb = cfg_heartbeat_interval_ticks c in
      if \<not> hb < et then None
      else do {
        (timeout, r) \<leftarrow> randomize_election_timeout e et (seed_from_u64 e (cfg_rng_seed c));
        Some \<lparr>node_id = cfg_id c, peers = cfg_peers c,
              current_term = term_zero, voted_for = None, log = log_new,
              commit_index = sentinel_index, last_applied = sentinel_index, role = Follower,
              next_index = Map.empty, match_index = Map.empty,
              election_timeout_base = et, election_timeout = timeout, election_elapsed = 0,
              heartbeat_interval = hb, heartbeat_elapsed = 0,
              votes_received = {}, pre_votes_received = {}, rng = r, leader_id = None\<rparr>
      })"

definition node_restore ::
  "'r env \<Rightarrow> config \<Rightarrow> raft_term \<Rightarrow> node_id option \<Rightarrow> raft_log \<Rightarrow> log_index \<Rightarrow> log_index
     \<Rightarrow> 'r raft_node option" where
  "node_restore e c t v l commit applied = do {
     n \<leftarrow> node_new e c;
     Some (n\<lparr>current_term := t, voted_for := v, log := l,
             commit_index := commit, last_applied := applied\<rparr>)
   }"

section \<open>Helpers shared by the handlers\<close>

definition majority :: "'r raft_node \<Rightarrow> nat" where
  "majority n = (length (peers n) + 1) div 2 + 1"

definition reply :: "'r raft_node \<Rightarrow> node_id \<Rightarrow> message_kind \<Rightarrow> action" where
  \<comment> \<open>\<open>Action::Send\<close> of a message from this node in its current term\<close>
  "reply n to k = Send \<lparr>msg_from = node_id n, msg_to = to, msg_term = current_term n, msg_kind = k\<rparr>"

definition is_log_up_to_date :: "'r raft_node \<Rightarrow> log_index \<Rightarrow> raft_term \<Rightarrow> bool option" where
  "is_log_up_to_date n cand_index cand_term = do {
     my_last_term \<leftarrow> last_term (log n);
     my_last_index \<leftarrow> last_index (log n);
     Some (if cand_term \<noteq> my_last_term then cand_term > my_last_term
           else cand_index \<ge> my_last_index)
   }"

definition leader_lease_active :: "'r raft_node \<Rightarrow> bool" where
  "leader_lease_active n \<longleftrightarrow>
     leader_id n \<noteq> None \<and> election_elapsed n < election_timeout_base n"

definition become_follower ::
  "'r env \<Rightarrow> raft_term \<Rightarrow> node_id option \<Rightarrow> 'r raft_node \<Rightarrow> 'r outcome option" where
  "become_follower e t leader n =
     (let term_changed = t > current_term n;
          n1 = n\<lparr>current_term := t, role := Follower, leader_id := leader, election_elapsed := 0\<rparr>
      in do {
        (timeout, r) \<leftarrow> randomize_election_timeout e (election_timeout_base n1) (rng n1);
        let n2 = n1\<lparr>election_timeout := timeout, rng := r\<rparr>;
        Some (if term_changed
              then (n2\<lparr>voted_for := None\<rparr>, [PersistHardState t None])
              else (n2, []))
      })"

definition snapshot_bytes :: bytes where
  "snapshot_bytes = map of_char ''simulated-compacted-snapshot''"

definition replicate_to_peer :: "'r raft_node \<Rightarrow> node_id \<Rightarrow> action option" where
  "replicate_to_peer n peer = do {
     let nxt = (case next_index n peer of None \<Rightarrow> 1 | Some i \<Rightarrow> i);
     first \<leftarrow> first_index (log n);
     if nxt \<le> first
     then do {
       m \<leftarrow> log_snapshot_meta (log n);
       let meta = (case m of
         None \<Rightarrow> \<lparr>last_included_index = sentinel_index, last_included_term = term_zero\<rparr>
       | Some meta \<Rightarrow> meta);
       Some (reply n peer (InstallSnapshot (last_included_index meta) (last_included_term meta)
               0 snapshot_bytes True))
     }
     else do {
       let prev = index_prev nxt;
       pt \<leftarrow> term_at (log n) prev;
       es \<leftarrow> entries_from (log n) nxt;
       Some (reply n peer (AppendEntries prev (case pt of None \<Rightarrow> term_zero | Some t \<Rightarrow> t)
               es (commit_index n)))
     }
   }"

definition broadcast_append_entries :: "'r raft_node \<Rightarrow> action list option" where
  "broadcast_append_entries n = those (map (replicate_to_peer n) (peers n))"

definition broadcast_heartbeats :: "'r raft_node \<Rightarrow> action list option" where
  "broadcast_heartbeats n = those (map (replicate_to_peer n) (peers n))"

definition apply_committed_entries :: "'r env \<Rightarrow> 'r raft_node \<Rightarrow> 'r outcome option" where
  "apply_committed_entries e n =
     (if commit_index n > last_applied n
      then do {
        start \<leftarrow> index_next (debug e) (last_applied n);
        es \<leftarrow> entries_from (log n) start;
        let to_apply = takeWhile (\<lambda>x. e_index x \<le> commit_index n) es;
        if to_apply \<noteq> []
        then Some (n\<lparr>last_applied := e_index (last to_apply)\<rparr>, [Apply to_apply])
        else Some (n, [])
      }
      else Some (n, []))"

definition replica_count :: "'r raft_node \<Rightarrow> log_index \<Rightarrow> nat" where
  \<comment> \<open>the inner loop of \<open>maybe_advance_commit_index\<close>: this node and every peer known to match\<close>
  "replica_count n i =
     1 + length (filter (\<lambda>p. i \<le> (case match_index n p of None \<Rightarrow> sentinel_index | Some m \<Rightarrow> m)) (peers n))"

fun commit_scan :: "'r raft_node \<Rightarrow> log_index list \<Rightarrow> log_index \<Rightarrow> log_index option" where
  "commit_scan n [] new_commit = Some new_commit"
| "commit_scan n (i # is) new_commit = do {
     t \<leftarrow> term_at (log n) i;
     if t \<noteq> Some (current_term n) then commit_scan n is new_commit
     else commit_scan n is (if replica_count n i \<ge> majority n then i else new_commit)
   }"

definition maybe_advance_commit_index :: "'r env \<Rightarrow> 'r raft_node \<Rightarrow> 'r outcome option" where
  "maybe_advance_commit_index e n = do {
     lst \<leftarrow> last_index (log n);
     start \<leftarrow> add_u64 (debug e) (commit_index n) 1;
     new_commit \<leftarrow> commit_scan n (range_incl start lst) (commit_index n);
     if new_commit > commit_index n
     then apply_committed_entries e (n\<lparr>commit_index := new_commit\<rparr>)
     else Some (n, [])
   }"

end
