(* ===== verification/Election.thy ===== *)
theory Election
  imports NodeState
begin

text \<open>
  The election half of \<open>raft-core/src/node.rs\<close>: pre-vote, candidacy, leadership and the four vote
  messages.
\<close>

section \<open>Operations\<close>

definition become_leader :: "'r env \<Rightarrow> 'r raft_node \<Rightarrow> 'r outcome option" where
  "become_leader e n = do {
     let n1 = n\<lparr>role := Leader, leader_id := Some (node_id n), heartbeat_elapsed := 0\<rparr>;
     lst \<leftarrow> last_index (log n1);
     nxt \<leftarrow> index_next (debug e) lst;
     let n2 = n1\<lparr>next_index := map_of (map (\<lambda>p. (p, nxt)) (peers n1)),
                 match_index := map_of (map (\<lambda>p. (p, sentinel_index)) (peers n1))\<rparr>;
     let noop = \<lparr>e_index = nxt, e_term = current_term n2, e_command = []\<rparr>;
     l \<leftarrow> log_append (debug e) [noop] (log n2);
     let n3 = n2\<lparr>log := l\<rparr>;
     sends \<leftarrow> broadcast_heartbeats n3;
     Some (n3, AppendToLog [noop] # sends)
   }"

definition start_real_election :: "'r env \<Rightarrow> 'r raft_node \<Rightarrow> 'r outcome option" where
  "start_real_election e n = do {
     t \<leftarrow> term_next (debug e) (current_term n);
     let n1 = n\<lparr>current_term := t, role := Candidate, voted_for := Some (node_id n),
                votes_received := {node_id n}, election_elapsed := 0\<rparr>;
     (timeout, r) \<leftarrow> randomize_election_timeout e (election_timeout_base n1) (rng n1);
     let n2 = n1\<lparr>election_timeout := timeout, rng := r\<rparr>;
     lli \<leftarrow> last_index (log n2);
     llt \<leftarrow> last_term (log n2);
     let acts = PersistHardState t (Some (node_id n2))
                # map (\<lambda>p. reply n2 p (RequestVote lli llt)) (peers n2);
     if peers n2 = []
     then do { (n3, acts') \<leftarrow> become_leader e n2; Some (n3, acts @ acts') }
     else Some (n2, acts)
   }"

definition start_pre_vote :: "'r env \<Rightarrow> 'r raft_node \<Rightarrow> 'r outcome option" where
  "start_pre_vote e n = do {
     let n1 = n\<lparr>role := PreCandidate, pre_votes_received := {node_id n}, election_elapsed := 0\<rparr>;
     (timeout, r) \<leftarrow> randomize_election_timeout e (election_timeout_base n1) (rng n1);
     let n2 = n1\<lparr>election_timeout := timeout, rng := r\<rparr>;
     lli \<leftarrow> last_index (log n2);
     llt \<leftarrow> last_term (log n2);
     proposed \<leftarrow> term_next (debug e) (current_term n2);
     let acts = map (\<lambda>p. Send \<lparr>msg_from = node_id n2, msg_to = p, msg_term = proposed,
                                msg_kind = PreVote lli llt\<rparr>) (peers n2);
     if peers n2 = []
     then do { (n3, acts') \<leftarrow> start_real_election e n2; Some (n3, acts @ acts') }
     else Some (n2, acts)
   }"

definition handle_pre_vote ::
  "node_id \<Rightarrow> raft_term \<Rightarrow> log_index \<Rightarrow> raft_term \<Rightarrow> 'r raft_node \<Rightarrow> 'r outcome option" where
  "handle_pre_vote from proposed_term lli llt n = do {
     log_ok \<leftarrow> is_log_up_to_date n lli llt;
     let grant = (proposed_term \<ge> current_term n \<and> log_ok \<and> \<not> leader_lease_active n);
     Some (n, [reply n from (PreVoteResponse grant)])
   }"

definition handle_pre_vote_response ::
  "'r env \<Rightarrow> node_id \<Rightarrow> raft_term \<Rightarrow> bool \<Rightarrow> 'r raft_node \<Rightarrow> 'r outcome option" where
  "handle_pre_vote_response e from t granted n =
     (if role n \<noteq> PreCandidate \<or> t \<noteq> current_term n then Some (n, [])
      else if granted
      then (let n1 = n\<lparr>pre_votes_received := insert from (pre_votes_received n)\<rparr> in
            if card (pre_votes_received n1) \<ge> majority n1 then start_real_election e n1
            else Some (n1, []))
      else Some (n, []))"

definition handle_request_vote ::
  "node_id \<Rightarrow> log_index \<Rightarrow> raft_term \<Rightarrow> 'r raft_node \<Rightarrow> 'r outcome option" where
  "handle_request_vote from lli llt n = do {
     let can_vote = (voted_for n = None \<or> voted_for n = Some from);
     log_ok \<leftarrow> is_log_up_to_date n lli llt;
     let grant = (can_vote \<and> log_ok \<and> \<not> leader_lease_active n);
     Some (if grant
           then (let n1 = n\<lparr>voted_for := Some from, election_elapsed := 0\<rparr> in
                 (n1, [PersistHardState (current_term n1) (Some from),
                       reply n1 from (RequestVoteResponse True)]))
           else (n, [reply n from (RequestVoteResponse False)]))
   }"

definition handle_request_vote_response ::
  "'r env \<Rightarrow> node_id \<Rightarrow> raft_term \<Rightarrow> bool \<Rightarrow> 'r raft_node \<Rightarrow> 'r outcome option" where
  "handle_request_vote_response e from t granted n =
     (if role n \<noteq> Candidate \<or> t \<noteq> current_term n then Some (n, [])
      else if granted
      then (let n1 = n\<lparr>votes_received := insert from (votes_received n)\<rparr> in
            if card (votes_received n1) \<ge> majority n1 then become_leader e n1
            else Some (n1, []))
      else Some (n, []))"

end
