(* ===== verification/Replication.thy ===== *)
theory Replication
  imports NodeState
begin

text \<open>
  The replication half of \<open>raft-core/src/node.rs\<close>: \<open>AppendEntries\<close> and its response, and the
  installation of snapshots.
\<close>

section \<open>AppendEntries\<close>

function conflict_scan :: "raft_log \<Rightarrow> raft_term \<Rightarrow> log_index \<Rightarrow> log_index option" where
  \<comment> \<open>the \<open>while\<close> loop that walks back to the first entry of the conflicting term\<close>
  "conflict_scan l t first_idx = do {
     base \<leftarrow> first_index l;
     if first_idx > base
     then do {
       let prev = index_prev first_idx;
       pt \<leftarrow> term_at l prev;
       if pt = Some t then conflict_scan l t prev else Some first_idx
     }
     else Some first_idx
   }"
  by pat_completeness auto
termination
proof (relation "measure (\<lambda>(l, t, i). unat i)")
  show "((l, t, prev), l, t, i) \<in> measure (\<lambda>(l, t, i). unat i)"
    if "i > base" "prev = index_prev i" for l :: raft_log and t i base prev
    using that by (auto simp: index_prev_def saturating_sub_def word_le_nat_alt word_less_nat_alt
        unat_offset_nat)
qed simp

declare conflict_scan.simps [simp del]

fun attach_scan :: "bool \<Rightarrow> raft_log \<Rightarrow> log_entry list \<Rightarrow> log_index \<Rightarrow> log_index option" where
  \<comment> \<open>the \<open>for\<close> loop that skips the entries already present\<close>
  "attach_scan chk l [] attach_idx = Some attach_idx"
| "attach_scan chk l (x # xs) attach_idx = do {
     t \<leftarrow> term_at l (e_index x);
     if t = Some (e_term x)
     then do { nxt \<leftarrow> index_next chk (e_index x); attach_scan chk l xs nxt }
     else Some attach_idx
   }"

definition append_new_entries ::
  "'r env \<Rightarrow> log_entry list \<Rightarrow> 'r raft_node \<Rightarrow> 'r outcome option" where
  \<comment> \<open>the block \<open>if !entries.is_empty()\<close> of \<open>handle_append_entries\<close>\<close>
  "append_new_entries e es n =
     (case es of
        [] \<Rightarrow> Some (n, [])
      | e0 # _ \<Rightarrow> do {
          attach_idx \<leftarrow> attach_scan (debug e) (log n) es (e_index e0);
          start_offset \<leftarrow> sub_u64 (debug e) attach_idx (e_index e0);
          if unat start_offset < length es
          then do {
            let suffix = drop (unat start_offset) es;
            l \<leftarrow> log_truncate_and_append attach_idx suffix (log n);
            Some (n\<lparr>log := l\<rparr>, [TruncateAndAppend attach_idx suffix])
          }
          else Some (n, [])
        })"

definition follow_commit :: "'r env \<Rightarrow> log_index \<Rightarrow> 'r raft_node \<Rightarrow> 'r outcome option" where
  \<comment> \<open>the block \<open>if leader_commit > self.commit_index\<close>\<close>
  "follow_commit e leader_commit n =
     (if leader_commit > commit_index n
      then do {
        last_new_entry_idx \<leftarrow> last_index (log n);
        let new_commit = min leader_commit last_new_entry_idx;
        if new_commit > commit_index n
        then apply_committed_entries e (n\<lparr>commit_index := new_commit\<rparr>)
        else Some (n, [])
      }
      else Some (n, []))"

definition handle_append_entries ::
  "'r env \<Rightarrow> node_id \<Rightarrow> raft_term \<Rightarrow> log_index \<Rightarrow> raft_term \<Rightarrow> log_entry list \<Rightarrow> log_index
     \<Rightarrow> 'r raft_node \<Rightarrow> 'r outcome option" where
  "handle_append_entries e from t prev_log_index prev_log_term es leader_commit n =
     (if t < current_term n
      then Some (n, [reply n from (AppendEntriesResponse False None None)])
      else do {
        (n1, acts1) \<leftarrow> become_follower e t (Some from) n;
        local_term \<leftarrow> term_at (log n1) prev_log_index;
        case local_term of
          None \<Rightarrow> do {
            last_idx \<leftarrow> last_index (log n1);
            nxt \<leftarrow> index_next (debug e) last_idx;
            Some (n1, acts1 @ [reply n1 from (AppendEntriesResponse False None (Some nxt))])
          }
        | Some lt \<Rightarrow>
            if lt \<noteq> prev_log_term
            then do {
              first_idx \<leftarrow> conflict_scan (log n1) lt prev_log_index;
              Some (n1, acts1 @ [reply n1 from (AppendEntriesResponse False (Some lt) (Some first_idx))])
            }
            else do {
              (n2, acts2) \<leftarrow> append_new_entries e es n1;
              (n3, acts3) \<leftarrow> follow_commit e leader_commit n2;
              Some (n3, acts1 @ acts2 @ acts3
                        @ [reply n3 from (AppendEntriesResponse True None None)])
            }
      })"

fun find_term_back :: "raft_log \<Rightarrow> raft_term \<Rightarrow> log_index list \<Rightarrow> log_index option option" where
  \<comment> \<open>the \<open>for\<close> loop over the log from its end that looks for the leader's last entry of a term\<close>
  "find_term_back l t [] = Some None"
| "find_term_back l t (i # is) = do {
     u \<leftarrow> term_at l i;
     if u = Some t then Some (Some i) else find_term_back l t is
   }"

definition backtrack_next ::
  "'r env \<Rightarrow> node_id \<Rightarrow> raft_term option \<Rightarrow> log_index option \<Rightarrow> 'r raft_node \<Rightarrow> log_index option" where
  \<comment> \<open>the new \<open>next\<close> of the branch \<open>!success\<close>, up to the test \<open>next.0 == 0\<close>\<close>
  "backtrack_next e from conflict_term conflict_index n =
     (case conflict_term of
        Some c_term \<Rightarrow> do {
          last_log_idx \<leftarrow> last_index (log n);
          first \<leftarrow> first_index (log n);
          found \<leftarrow> find_term_back (log n) c_term (rev (range_incl first last_log_idx));
          case found of
            Some last_idx \<Rightarrow> index_next (debug e) last_idx
          | None \<Rightarrow> Some (case conflict_index of None \<Rightarrow> 1 | Some i \<Rightarrow> i)
        }
      | None \<Rightarrow>
          (case conflict_index of
             Some c_index \<Rightarrow> Some c_index
           | None \<Rightarrow> Some (index_prev (case next_index n from of None \<Rightarrow> 1 | Some i \<Rightarrow> i))))"

definition handle_append_entries_response ::
  "'r env \<Rightarrow> node_id \<Rightarrow> raft_term \<Rightarrow> bool \<Rightarrow> raft_term option \<Rightarrow> log_index option
     \<Rightarrow> 'r raft_node \<Rightarrow> 'r outcome option" where
  "handle_append_entries_response e from t success conflict_term conflict_index n =
     (if role n \<noteq> Leader \<or> t \<noteq> current_term n then Some (n, [])
      else if success
      then do {
        match_idx \<leftarrow> last_index (log n);
        nxt \<leftarrow> index_next (debug e) match_idx;
        maybe_advance_commit_index e
          (n\<lparr>next_index := (next_index n)(from \<mapsto> nxt),
             match_index := (match_index n)(from \<mapsto> match_idx)\<rparr>)
      }
      else do {
        nxt \<leftarrow> backtrack_next e from conflict_term conflict_index n;
        let n1 = n\<lparr>next_index := (next_index n)(from \<mapsto> (if nxt = 0 then 1 else nxt))\<rparr>;
        a \<leftarrow> replicate_to_peer n1 from;
        Some (n1, [a])
      })"

section \<open>InstallSnapshot\<close>

definition handle_install_snapshot ::
  "'r env \<Rightarrow> node_id \<Rightarrow> raft_term \<Rightarrow> log_index \<Rightarrow> raft_term \<Rightarrow> bytes \<Rightarrow> bool
     \<Rightarrow> 'r raft_node \<Rightarrow> 'r outcome option" where
  "handle_install_snapshot e from t idx idx_term dat done n =
     (if t < current_term n
      then Some (n, [reply n from InstallSnapshotResponse])
      else do {
        (n1, acts1) \<leftarrow> become_follower e t (Some from) n;
        if idx \<le> commit_index n1
        then Some (n1, acts1 @ [reply n1 from InstallSnapshotResponse])
        else
          let (n2, acts2) =
            (if done
             then (n1\<lparr>log := log_install_snapshot
                        \<lparr>last_included_index = idx, last_included_term = idx_term\<rparr> (log n1),
                      commit_index := idx, last_applied := idx\<rparr>,
                   [PersistSnapshot idx idx_term dat])
             else (n1, []))
          in Some (n2, acts1 @ acts2 @ [reply n2 from InstallSnapshotResponse])
      })"

definition handle_install_snapshot_response ::
  "'r env \<Rightarrow> node_id \<Rightarrow> raft_term \<Rightarrow> 'r raft_node \<Rightarrow> 'r outcome option" where
  "handle_install_snapshot_response e from t n =
     (if role n \<noteq> Leader \<or> t \<noteq> current_term n then Some (n, [])
      else do {
        first_idx \<leftarrow> first_index (log n);
        nxt \<leftarrow> index_next (debug e) first_idx;
        maybe_advance_commit_index e
          (n\<lparr>match_index := (match_index n)(from \<mapsto> first_idx),
             next_index := (next_index n)(from \<mapsto> nxt)\<rparr>)
      })"

end
