(* ===== verification/Node.thy ===== *)
theory Node
  imports Election Replication
begin

text \<open>
  The public entry points of \<open>RaftNode\<close>: \<open>tick\<close>, \<open>step\<close>, \<open>propose\<close> and \<open>compact_logs\<close>.
\<close>

definition tick :: "'r env \<Rightarrow> 'r raft_node \<Rightarrow> 'r outcome option" where
  "tick e n =
     (case role n of
        Leader \<Rightarrow> do {
          elapsed \<leftarrow> add_u64 (debug e) (heartbeat_elapsed n) 1;
          let n1 = n\<lparr>heartbeat_elapsed := elapsed\<rparr>;
          if heartbeat_elapsed n1 \<ge> heartbeat_interval n1
          then do {
            let n2 = n1\<lparr>heartbeat_elapsed := 0\<rparr>;
            acts \<leftarrow> broadcast_heartbeats n2;
            Some (n2, acts)
          }
          else Some (n1, [])
        }
      | _ \<Rightarrow> do {
          elapsed \<leftarrow> add_u64 (debug e) (election_elapsed n) 1;
          let n1 = n\<lparr>election_elapsed := elapsed\<rparr>;
          if election_elapsed n1 \<ge> election_timeout n1
          then start_pre_vote e (n1\<lparr>election_elapsed := 0\<rparr>)
          else Some (n1, [])
        })"

definition propose :: "'r env \<Rightarrow> bytes \<Rightarrow> 'r raft_node \<Rightarrow> 'r outcome option" where
  "propose e command n =
     (if role n \<noteq> Leader then Some (n, [])
      else do {
        lst \<leftarrow> last_index (log n);
        idx \<leftarrow> index_next (debug e) lst;
        let entry = \<lparr>e_index = idx, e_term = current_term n, e_command = command\<rparr>;
        l \<leftarrow> log_append (debug e) [entry] (log n);
        let n1 = n\<lparr>log := l\<rparr>;
        sends \<leftarrow> broadcast_append_entries n1;
        (n2, acts) \<leftarrow> (if peers n1 = [] then maybe_advance_commit_index e n1 else Some (n1, []));
        Some (n2, AppendToLog [entry] # sends @ acts)
      })"

definition compact_logs ::
  "log_index \<Rightarrow> raft_term \<Rightarrow> bytes \<Rightarrow> 'r raft_node \<Rightarrow> 'r outcome option" where
  "compact_logs idx t dat n =
     (if idx > commit_index n then Some (n, [])
      else do {
        l \<leftarrow> log_compact idx t (log n);
        Some (n\<lparr>log := l\<rparr>, [PersistSnapshot idx t dat])
      })"

fun is_pre_vote_msg :: "message_kind \<Rightarrow> bool" where
  "is_pre_vote_msg (PreVote _ _) = True"
| "is_pre_vote_msg (PreVoteResponse _) = True"
| "is_pre_vote_msg _ = False"

fun is_client_msg :: "message_kind \<Rightarrow> bool" where
  "is_client_msg (ClientRequest _) = True"
| "is_client_msg (ClientResponse _ _) = True"
| "is_client_msg _ = False"

definition handle_client_request ::
  "'r env \<Rightarrow> node_id \<Rightarrow> bytes \<Rightarrow> 'r raft_node \<Rightarrow> 'r outcome option" where
  "handle_client_request e from command n =
     (if role n = Leader
      then do {
        (n1, acts) \<leftarrow> propose e command n;
        Some (n1, acts @ [reply n1 from (ClientResponse True (Some (node_id n1)))])
      }
      else Some (n, [reply n from (ClientResponse False (leader_id n))]))"

definition dispatch :: "'r env \<Rightarrow> message \<Rightarrow> 'r raft_node \<Rightarrow> 'r outcome option" where
  \<comment> \<open>the final \<open>match msg.kind\<close> of \<open>step\<close>\<close>
  "dispatch e m n =
     (case msg_kind m of
        ClientRequest command \<Rightarrow> handle_client_request e (msg_from m) command n
      | ClientResponse _ _ \<Rightarrow> Some (n, [])
      | PreVote lli llt \<Rightarrow> handle_pre_vote (msg_from m) (msg_term m) lli llt n
      | PreVoteResponse granted \<Rightarrow> handle_pre_vote_response e (msg_from m) (msg_term m) granted n
      | RequestVote lli llt \<Rightarrow> handle_request_vote (msg_from m) lli llt n
      | RequestVoteResponse granted \<Rightarrow> handle_request_vote_response e (msg_from m) (msg_term m) granted n
      | AppendEntries prev prev_term es lc \<Rightarrow>
          handle_append_entries e (msg_from m) (msg_term m) prev prev_term es lc n
      | AppendEntriesResponse success ct ci \<Rightarrow>
          handle_append_entries_response e (msg_from m) (msg_term m) success ct ci n
      | InstallSnapshot idx t _ dat done \<Rightarrow>
          handle_install_snapshot e (msg_from m) (msg_term m) idx t dat done n
      | InstallSnapshotResponse \<Rightarrow> handle_install_snapshot_response e (msg_from m) (msg_term m) n)"

definition step :: "'r env \<Rightarrow> message \<Rightarrow> 'r raft_node \<Rightarrow> 'r outcome option" where
  "step e m n =
     (let exempt = (is_pre_vote_msg (msg_kind m) \<or> is_client_msg (msg_kind m)) in do {
        (n1, acts1) \<leftarrow> (if msg_term m > current_term n \<and> \<not> exempt
                         then become_follower e (msg_term m) None n
                         else Some (n, []));
        if msg_term m < current_term n1 \<and> \<not> exempt
        then Some (n1, acts1)
        else do {
          (n2, acts2) \<leftarrow> dispatch e m n1;
          Some (n2, acts1 @ acts2)
        }
      })"

end
