(* ===== verification/NodeCases.thy ===== *)
theory NodeCases
  imports Node
begin

text \<open>
  Inversion of the handlers: what a call that returned has done to the node and what it emitted. Every
  partial-correctness proof about \<open>RaftNode\<close> goes through these rules, so it never unfolds a handler.
\<close>

lemma log_appendD: "log_append dbg es l = Some l' \<Longrightarrow> l' = l\<lparr>entries := entries l @ es\<rparr>"
  by (auto simp: log_append_def bind_eq_Some_conv split: if_splits)

lemma last_indexD: "last_index l = Some i \<Longrightarrow> entries l \<noteq> [] \<and> i = e_index (last (entries l))"
  by (auto simp: last_index_def vec_last_def split: if_splits)

lemma last_termD: "last_term l = Some t \<Longrightarrow> entries l \<noteq> [] \<and> t = e_term (last (entries l))"
  by (auto simp: last_term_def vec_last_def split: if_splits)

lemma first_indexD: "first_index l = Some i \<Longrightarrow> entries l \<noteq> [] \<and> i = e_index (hd (entries l))"
  by (cases "entries l") (auto simp: first_index_def)

lemma become_followerE:
  assumes "become_follower e t l n = Some (n', acts)"
  obtains timeout r where
    "n' = n\<lparr>current_term := t, role := Follower, leader_id := l, election_elapsed := 0,
           election_timeout := timeout, rng := r,
           voted_for := (if current_term n < t then None else voted_for n)\<rparr>"
    "acts = (if current_term n < t then [PersistHardState t None] else [])"
proof -
  from assms obtain timeout r where eq:
    "(if t > current_term n
      then (n\<lparr>current_term := t, role := Follower, leader_id := l, election_elapsed := 0,
              election_timeout := timeout, rng := r, voted_for := None\<rparr>, [PersistHardState t None])
      else (n\<lparr>current_term := t, role := Follower, leader_id := l, election_elapsed := 0,
              election_timeout := timeout, rng := r\<rparr>, [])) = (n', acts)"
    unfolding become_follower_def Let_def by (auto simp: bind_eq_Some_conv)
  show ?thesis
    by (rule that [where timeout = timeout and r = r]) (use eq in \<open>simp_all split: if_splits\<close>)
qed

definition as_leader :: "'r raft_node \<Rightarrow> log_index \<Rightarrow> log_entry \<Rightarrow> 'r raft_node" where
  \<comment> \<open>the state of a node that has just won, with its first entry appended\<close>
  "as_leader n nxt noop = n\<lparr>role := Leader, leader_id := Some (node_id n), heartbeat_elapsed := 0,
     next_index := map_of (map (\<lambda>p. (p, nxt)) (peers n)),
     match_index := map_of (map (\<lambda>p. (p, sentinel_index)) (peers n)),
     log := log n\<lparr>entries := entries (log n) @ [noop]\<rparr>\<rparr>"

lemma become_leaderE:
  assumes "become_leader e n = Some (n', acts)"
  obtains noop sends where
    "entries (log n) \<noteq> []"
    "noop = \<lparr>e_index = e_index (last (entries (log n))) + 1, e_term = current_term n, e_command = []\<rparr>"
    "index_next (debug e) (e_index (last (entries (log n)))) = Some (e_index noop)"
    "n' = as_leader n (e_index noop) noop"
    "those (map (replicate_to_peer n') (peers n)) = Some sends"
    "acts = AppendToLog [noop] # sends"
proof -
  let ?n1 = "n\<lparr>role := Leader, leader_id := Some (node_id n), heartbeat_elapsed := 0\<rparr>"
  from assms obtain lst nxt l sends where *: "last_index (log n) = Some lst"
    "index_next (debug e) lst = Some nxt"
    "log_append (debug e) [\<lparr>e_index = nxt, e_term = current_term n, e_command = []\<rparr>] (log n) = Some l"
    "broadcast_heartbeats (?n1\<lparr>next_index := map_of (map (\<lambda>p. (p, nxt)) (peers n)),
       match_index := map_of (map (\<lambda>p. (p, sentinel_index)) (peers n)), log := l\<rparr>) = Some sends"
    "n' = ?n1\<lparr>next_index := map_of (map (\<lambda>p. (p, nxt)) (peers n)),
       match_index := map_of (map (\<lambda>p. (p, sentinel_index)) (peers n)), log := l\<rparr>"
    "acts = AppendToLog [\<lparr>e_index = nxt, e_term = current_term n, e_command = []\<rparr>] # sends"
    unfolding become_leader_def Let_def by (auto simp: bind_eq_Some_conv)
  let ?noop = "\<lparr>e_index = nxt, e_term = current_term n, e_command = []\<rparr>"
  have n': "n' = as_leader n nxt ?noop"
    using *(5) log_appendD [OF *(3)] by (simp add: as_leader_def)
  show ?thesis
    by (rule that [of ?noop sends])
      (use * n' last_indexD [OF *(1)] index_next_result [OF *(2)] in \<open>simp_all add: broadcast_heartbeats_def\<close>)
qed

definition as_candidate :: "'r raft_node \<Rightarrow> u64 \<Rightarrow> 'r \<Rightarrow> 'r raft_node" where
  \<comment> \<open>the state of a node that has just started an election\<close>
  "as_candidate n timeout r = n\<lparr>current_term := current_term n + 1, role := Candidate,
     voted_for := Some (node_id n), votes_received := {node_id n}, election_elapsed := 0,
     election_timeout := timeout, rng := r\<rparr>"

lemma start_real_electionE:
  assumes "start_real_election e n = Some (n', acts)"
  obtains (campaign) timeout r lli llt where
    "peers n \<noteq> []" "term_next (debug e) (current_term n) = Some (current_term n + 1)"
    "n' = as_candidate n timeout r"
    "acts = PersistHardState (current_term n + 1) (Some (node_id n))
            # map (\<lambda>p. reply n' p (RequestVote lli llt)) (peers n)"
  | (alone) timeout r lead where
    "peers n = []" "term_next (debug e) (current_term n) = Some (current_term n + 1)"
    "become_leader e (as_candidate n timeout r) = Some (n', lead)"
    "acts = PersistHardState (current_term n + 1) (Some (node_id n)) # lead"
proof -
  from assms obtain t timeout r lli llt where *: "term_next (debug e) (current_term n) = Some t"
    "(let n2 = n\<lparr>current_term := t, role := Candidate, voted_for := Some (node_id n),
        votes_received := {node_id n}, election_elapsed := 0, election_timeout := timeout, rng := r\<rparr>;
        acts1 = PersistHardState t (Some (node_id n)) # map (\<lambda>p. reply n2 p (RequestVote lli llt)) (peers n)
      in if peers n = [] then Option.bind (become_leader e n2) (\<lambda>(n3, acts'). Some (n3, acts1 @ acts'))
         else Some (n2, acts1)) = Some (n', acts)"
    unfolding start_real_election_def Let_def by (auto simp: bind_eq_Some_conv cong: if_cong)
  have t: "t = current_term n + 1" by (rule term_next_result [OF *(1)])
  show ?thesis
  proof (cases "peers n = []")
    case True
    with *(2) obtain lead where lead: "become_leader e (as_candidate n timeout r) = Some (n', lead)"
      "acts = PersistHardState t (Some (node_id n)) # lead"
      by (auto simp: Let_def bind_eq_Some_conv as_candidate_def t)
    show ?thesis by (rule alone [of timeout r lead]) (use True *(1) t lead in simp_all)
  next
    case False
    show ?thesis
      by (rule campaign [of timeout r lli llt]) (use False * t in \<open>auto simp: Let_def as_candidate_def\<close>)
  qed
qed

definition as_pre_candidate :: "'r raft_node \<Rightarrow> u64 \<Rightarrow> 'r \<Rightarrow> 'r raft_node" where
  "as_pre_candidate n timeout r = n\<lparr>role := PreCandidate, pre_votes_received := {node_id n},
     election_elapsed := 0, election_timeout := timeout, rng := r\<rparr>"

lemma start_pre_voteE:
  assumes "start_pre_vote e n = Some (n', acts)"
  obtains (ask) timeout r t lli llt where
    "peers n \<noteq> []" "n' = as_pre_candidate n timeout r"
    "acts = map (\<lambda>p. Send \<lparr>msg_from = node_id n, msg_to = p, msg_term = t,
                            msg_kind = PreVote lli llt\<rparr>) (peers n)"
  | (alone) timeout r where
    "peers n = []" "start_real_election e (as_pre_candidate n timeout r) = Some (n', acts)"
proof -
  from assms obtain t timeout r lli llt where
    "(let n2 = as_pre_candidate n timeout r;
        acts1 = map (\<lambda>p. Send \<lparr>msg_from = node_id n, msg_to = p, msg_term = t, msg_kind = PreVote lli llt\<rparr>) (peers n)
      in if peers n = [] then Option.bind (start_real_election e n2) (\<lambda>(n3, acts'). Some (n3, acts1 @ acts'))
         else Some (n2, acts1)) = Some (n', acts)"
    unfolding start_pre_vote_def Let_def as_pre_candidate_def by (auto simp: bind_eq_Some_conv cong: if_cong)
  then show ?thesis
    by (cases "peers n = []")
      (auto simp: Let_def bind_eq_Some_conv intro: ask [of timeout r] alone [of timeout r])
qed

lemma handle_request_voteE:
  assumes "handle_request_vote from lli llt n = Some (n', acts)"
  obtains (granted) "voted_for n = None \<or> voted_for n = Some from"
    "is_log_up_to_date n lli llt = Some True" "\<not> leader_lease_active n"
    "n' = n\<lparr>voted_for := Some from, election_elapsed := 0\<rparr>"
    "acts = [PersistHardState (current_term n) (Some from), reply n from (RequestVoteResponse True)]"
  | (refused) "n' = n" "acts = [reply n from (RequestVoteResponse False)]"
proof -
  from assms obtain ok where ok: "is_log_up_to_date n lli llt = Some ok"
    "(if (voted_for n = None \<or> voted_for n = Some from) \<and> ok \<and> \<not> leader_lease_active n
      then (n\<lparr>voted_for := Some from, election_elapsed := 0\<rparr>,
            [PersistHardState (current_term n) (Some from), reply n from (RequestVoteResponse True)])
      else (n, [reply n from (RequestVoteResponse False)])) = (n', acts)"
    unfolding handle_request_vote_def Let_def by (auto simp: bind_eq_Some_conv reply_def cong: if_cong)
  show ?thesis
  proof (cases "(voted_for n = None \<or> voted_for n = Some from) \<and> ok \<and> \<not> leader_lease_active n")
    case True
    show ?thesis by (rule granted) (use True ok in auto)
  next
    case False
    show ?thesis by (rule refused) (use False ok in \<open>auto split: if_splits\<close>)
  qed
qed

lemma handle_request_vote_responseE:
  assumes "handle_request_vote_response e from t granted n = Some (n', acts)"
  obtains (ignored) "n' = n" "acts = []"
  | (counted) "role n = Candidate" "t = current_term n" "granted"
    "n' = n\<lparr>votes_received := insert from (votes_received n)\<rparr>" "acts = []"
  | (won) "role n = Candidate" "t = current_term n" "granted"
    "majority n \<le> card (insert from (votes_received n))"
    "become_leader e (n\<lparr>votes_received := insert from (votes_received n)\<rparr>) = Some (n', acts)"
proof (cases "role n \<noteq> Candidate \<or> t \<noteq> current_term n \<or> \<not> granted")
  case True
  show ?thesis by (rule ignored) (use assms True in \<open>auto simp: handle_request_vote_response_def split: if_splits\<close>)
next
  case live: False
  let ?n1 = "n\<lparr>votes_received := insert from (votes_received n)\<rparr>"
  have eq: "(if majority n \<le> card (insert from (votes_received n)) then become_leader e ?n1
      else Some (?n1, [])) = Some (n', acts)"
    using assms live by (simp add: handle_request_vote_response_def majority_def Let_def)
  show ?thesis
  proof (cases "majority n \<le> card (insert from (votes_received n))")
    case True
    show ?thesis by (rule won) (use eq live True in simp_all)
  next
    case False
    show ?thesis by (rule counted) (use eq live False in auto)
  qed
qed

lemma handle_pre_voteE:
  assumes "handle_pre_vote from t lli llt n = Some (n', acts)"
  obtains granted where "n' = n" "acts = [reply n from (PreVoteResponse granted)]"
  using assms by (auto simp: handle_pre_vote_def Let_def bind_eq_Some_conv)

lemma handle_pre_vote_responseE:
  assumes "handle_pre_vote_response e from t granted n = Some (n', acts)"
  obtains (ignored) "n' = n" "acts = []"
  | (counted) "n' = n\<lparr>pre_votes_received := insert from (pre_votes_received n)\<rparr>" "acts = []"
  | (elected) "role n = PreCandidate" "t = current_term n" "granted"
    "majority n \<le> card (insert from (pre_votes_received n))"
    "start_real_election e (n\<lparr>pre_votes_received := insert from (pre_votes_received n)\<rparr>) = Some (n', acts)"
proof (cases "role n \<noteq> PreCandidate \<or> t \<noteq> current_term n \<or> \<not> granted")
  case True
  show ?thesis by (rule ignored) (use assms True in \<open>auto simp: handle_pre_vote_response_def split: if_splits\<close>)
next
  case live: False
  let ?n1 = "n\<lparr>pre_votes_received := insert from (pre_votes_received n)\<rparr>"
  have eq: "(if majority n \<le> card (insert from (pre_votes_received n)) then start_real_election e ?n1
      else Some (?n1, [])) = Some (n', acts)"
    using assms live by (simp add: handle_pre_vote_response_def majority_def Let_def)
  show ?thesis
  proof (cases "majority n \<le> card (insert from (pre_votes_received n))")
    case True
    show ?thesis by (rule elected) (use eq live True in simp_all)
  next
    case False
    show ?thesis by (rule counted) (use eq live False in auto)
  qed
qed

lemma apply_committedE:
  assumes "apply_committed_entries e n = Some (n', acts)"
  obtains (nothing) "n' = n" "acts = []"
  | (applied) start es ap where "entries_from (log n) start = Some es"
    "index_next (debug e) (last_applied n) = Some start"
    "ap = takeWhile (\<lambda>x. e_index x \<le> commit_index n) es" "ap \<noteq> []"
    "n' = n\<lparr>last_applied := e_index (last ap)\<rparr>" "acts = [Apply ap]"
proof (cases "last_applied n < commit_index n")
  case True
  with assms obtain start es where *: "index_next (debug e) (last_applied n) = Some start"
    "entries_from (log n) start = Some es"
    "(let ap = takeWhile (\<lambda>x. e_index x \<le> commit_index n) es in
      if ap \<noteq> [] then (n\<lparr>last_applied := e_index (last ap)\<rparr>, [Apply ap]) else (n, [])) = (n', acts)"
    by (auto simp: apply_committed_entries_def Let_def bind_eq_Some_conv split: if_splits)
  show ?thesis
  proof (cases "takeWhile (\<lambda>x. e_index x \<le> commit_index n) es = []")
    case True
    show ?thesis by (rule nothing) (use * True in \<open>simp_all add: Let_def\<close>)
  next
    case False
    show ?thesis by (rule applied [OF *(2,1) refl False]) (use *(3) False in \<open>simp_all add: Let_def\<close>)
  qed
next
  case False
  show ?thesis by (rule nothing) (use assms False in \<open>simp_all add: apply_committed_entries_def\<close>)
qed

lemma applied_frame:
  assumes "apply_committed_entries e n = Some (n', acts)"
  obtains a where "n' = n\<lparr>last_applied := a\<rparr>" "\<forall>x \<in> set acts. \<exists>ap. x = Apply ap"
  using assms
proof (cases rule: apply_committedE)
  case nothing
  with that [of "last_applied n"] show ?thesis by simp
next
  case (applied start es ap)
  with that [of "e_index (last ap)"] show ?thesis by simp
qed

lemma advance_frame:
  assumes "maybe_advance_commit_index e n = Some (n', acts)"
  obtains a c where "n' = n\<lparr>commit_index := c, last_applied := a\<rparr>" "\<forall>x \<in> set acts. \<exists>ap. x = Apply ap"
    "commit_index n \<le> c"
proof -
  obtain c where "(if c > commit_index n then apply_committed_entries e (n\<lparr>commit_index := c\<rparr>)
      else Some (n, [])) = Some (n', acts)"
    using assms unfolding maybe_advance_commit_index_def by (auto simp only: bind_eq_Some_conv)
  then consider "n' = n" "acts = []"
    | "apply_committed_entries e (n\<lparr>commit_index := c\<rparr>) = Some (n', acts)" "commit_index n \<le> c"
    by (cases "c > commit_index n") simp_all
  then show ?thesis
  proof cases
    case 1
    show ?thesis by (rule that [where c = "commit_index n" and a = "last_applied n"]) (use 1 in simp_all)
  next
    case 2
    from 2(1) obtain a where "n' = n\<lparr>commit_index := c, last_applied := a\<rparr>" "\<forall>x \<in> set acts. \<exists>ap. x = Apply ap"
      by (elim applied_frame) simp
    then show ?thesis using 2(2) by (rule that)
  qed
qed

lemma follow_commit_frame:
  assumes "follow_commit e lc n = Some (n', acts)"
  obtains a c where "n' = n\<lparr>commit_index := c, last_applied := a\<rparr>" "\<forall>x \<in> set acts. \<exists>ap. x = Apply ap"
    "commit_index n \<le> c"
proof -
  consider "n' = n" "acts = []"
    | c where "apply_committed_entries e (n\<lparr>commit_index := c\<rparr>) = Some (n', acts)" "commit_index n \<le> c"
  proof (cases "lc > commit_index n")
    case True
    obtain lst where lst: "last_index (log n) = Some lst"
      using assms True by (cases "last_index (log n)") (simp_all add: follow_commit_def)
    have eq: "(if min lc lst > commit_index n
        then apply_committed_entries e (n\<lparr>commit_index := min lc lst\<rparr>) else Some (n, [])) = Some (n', acts)"
      using assms True by (simp add: follow_commit_def lst Let_def)
    show ?thesis
    proof (cases "min lc lst > commit_index n")
      case True
      show ?thesis by (rule that(2) [of "min lc lst"]) (use eq True in \<open>simp_all only: True if_True less_imp_le\<close>)
    next
      case False
      show ?thesis by (rule that(1)) (use eq in \<open>simp_all only: False if_False option.inject prod.inject\<close>)
    qed
  qed (use assms that in \<open>simp add: follow_commit_def\<close>)
  then show ?thesis
  proof cases
    case 1
    show ?thesis by (rule that [where c = "commit_index n" and a = "last_applied n"]) (use 1 in simp_all)
  next
    case (2 c)
    from 2(1) obtain a where "n' = n\<lparr>commit_index := c, last_applied := a\<rparr>" "\<forall>x \<in> set acts. \<exists>ap. x = Apply ap"
      by (elim applied_frame) simp
    then show ?thesis using 2(2) by (rule that)
  qed
qed

lemma append_new_entriesE:
  assumes "append_new_entries e es n = Some (n', acts)"
  obtains (kept) "n' = n" "acts = []"
  | (merged) i k l where "k < length es" "log_truncate_and_append i (drop k es) (log n) = Some l"
    "attach_scan (debug e) (log n) es (e_index (hd es)) = Some i"
    "sub_u64 (debug e) i (e_index (hd es)) = Some (of_nat k)"
    "n' = n\<lparr>log := l\<rparr>" "acts = [TruncateAndAppend i (drop k es)]"
proof (cases es)
  case Nil
  show ?thesis by (rule kept) (use assms Nil in \<open>simp_all add: append_new_entries_def\<close>)
next
  case (Cons e0 es')
  with assms obtain i off where *: "attach_scan (debug e) (log n) es (e_index e0) = Some i"
    "sub_u64 (debug e) i (e_index e0) = Some off"
    "(if unat off < length es
      then Option.bind (log_truncate_and_append i (drop (unat off) es) (log n))
        (\<lambda>l. Some (n\<lparr>log := l\<rparr>, [TruncateAndAppend i (drop (unat off) es)]))
      else Some (n, [])) = Some (n', acts)"
    unfolding append_new_entries_def Let_def
    by (auto simp: bind_eq_Some_conv simp del: attach_scan.simps)
  show ?thesis
  proof (cases "unat off < length es")
    case True
    with *(3) obtain l where l: "log_truncate_and_append i (drop (unat off) es) (log n) = Some l"
      "n' = n\<lparr>log := l\<rparr>" "acts = [TruncateAndAppend i (drop (unat off) es)]"
      by (auto simp: bind_eq_Some_conv)
    show ?thesis by (rule merged [OF True l(1)]) (use * l Cons in simp_all)
  next
    case False
    show ?thesis by (rule kept) (use * False in simp_all)
  qed
qed

lemma handle_append_entriesE:
  assumes "handle_append_entries e from t prev pt es lc n = Some (n', acts)"
  obtains (stale) "t < current_term n" "n' = n" "acts = [reply n from (AppendEntriesResponse False None None)]"
  | (rejected) ct ci acts1 where "current_term n \<le> t" "become_follower e t (Some from) n = Some (n', acts1)"
    "acts = acts1 @ [reply n' from (AppendEntriesResponse False ct ci)]"
  | (accepted) n1 acts1 n2 acts2 acts3 where "current_term n \<le> t"
    "become_follower e t (Some from) n = Some (n1, acts1)"
    "term_at (log n1) prev = Some (Some pt)"
    "append_new_entries e es n1 = Some (n2, acts2)"
    "follow_commit e lc n2 = Some (n', acts3)"
    "acts = acts1 @ acts2 @ acts3 @ [reply n' from (AppendEntriesResponse True None None)]"
proof (cases "t < current_term n")
  case True
  show ?thesis by (rule stale) (use assms True in \<open>auto simp: handle_append_entries_def\<close>)
next
  case False
  then have le: "current_term n \<le> t" by simp
  from False assms obtain n1 acts1 lt where bf: "become_follower e t (Some from) n = Some (n1, acts1)"
    and lt: "term_at (log n1) prev = Some lt"
    and rest: "(case lt of
        None \<Rightarrow> Option.bind (last_index (log n1)) (\<lambda>last_idx. Option.bind (index_next (debug e) last_idx) (\<lambda>nxt.
          Some (n1, acts1 @ [reply n1 from (AppendEntriesResponse False None (Some nxt))])))
      | Some lt \<Rightarrow> if lt \<noteq> pt
          then Option.bind (conflict_scan (log n1) lt prev) (\<lambda>first_idx.
            Some (n1, acts1 @ [reply n1 from (AppendEntriesResponse False (Some lt) (Some first_idx))]))
          else Option.bind (append_new_entries e es n1) (\<lambda>(n2, acts2).
            Option.bind (follow_commit e lc n2) (\<lambda>(n3, acts3).
              Some (n3, acts1 @ acts2 @ acts3 @ [reply n3 from (AppendEntriesResponse True None None)]))))
      = Some (n', acts)"
    unfolding handle_append_entries_def by (auto simp: bind_eq_Some_conv)
  show ?thesis
  proof (cases "lt = Some pt")
    case True
    with rest obtain n2 acts2 acts3 where "append_new_entries e es n1 = Some (n2, acts2)"
      "follow_commit e lc n2 = Some (n', acts3)"
      "acts = acts1 @ acts2 @ acts3 @ [reply n' from (AppendEntriesResponse True None None)]"
      by (auto simp: bind_eq_Some_conv)
    with True lt show ?thesis by (intro accepted [OF le bf]) simp_all
  next
    case False
    with rest obtain ct ci where "n' = n1"
      "acts = acts1 @ [reply n1 from (AppendEntriesResponse False ct ci)]"
      by (cases lt) (auto simp: bind_eq_Some_conv)
    with bf le show ?thesis by (intro rejected) auto
  qed
qed

lemma handle_append_entries_responseE:
  assumes "handle_append_entries_response e from t s ct ci n = Some (n', acts)"
  obtains (ignored) "n' = n" "acts = []"
  | (success) mi nxt where "role n = Leader" "t = current_term n" s
    "last_index (log n) = Some mi"
    "maybe_advance_commit_index e (n\<lparr>next_index := (next_index n)(from \<mapsto> nxt),
       match_index := (match_index n)(from \<mapsto> mi)\<rparr>) = Some (n', acts)"
  | (retry) nxt a where "role n = Leader" "t = current_term n" "\<not> s"
    "n' = n\<lparr>next_index := (next_index n)(from \<mapsto> nxt)\<rparr>"
    "replicate_to_peer n' from = Some a" "acts = [a]"
proof (cases "role n \<noteq> Leader \<or> t \<noteq> current_term n")
  case True
  show ?thesis by (rule ignored) (use assms True in \<open>auto simp: handle_append_entries_response_def\<close>)
next
  case live: False
  show ?thesis
  proof (cases s)
    case True
    with assms live obtain mi nxt where "last_index (log n) = Some mi"
      "maybe_advance_commit_index e (n\<lparr>next_index := (next_index n)(from \<mapsto> nxt),
         match_index := (match_index n)(from \<mapsto> mi)\<rparr>) = Some (n', acts)"
      by (auto simp: handle_append_entries_response_def bind_eq_Some_conv)
    with live True show ?thesis by (intro success) auto
  next
    case False
    with assms live obtain nxt a where
      "replicate_to_peer (n\<lparr>next_index := (next_index n)(from \<mapsto> (if nxt = 0 then 1 else nxt))\<rparr>) from = Some a"
      "n' = n\<lparr>next_index := (next_index n)(from \<mapsto> (if nxt = 0 then 1 else nxt))\<rparr>" "acts = [a]"
      unfolding handle_append_entries_response_def Let_def
      by (auto simp: bind_eq_Some_conv simp del: fun_upd_apply)
    with live False show ?thesis by (intro retry) auto
  qed
qed

lemma handle_install_snapshotE:
  assumes "handle_install_snapshot e from t idx it dat done n = Some (n', acts)"
  obtains (stale) "t < current_term n" "n' = n" "acts = [reply n from InstallSnapshotResponse]"
  | (skipped) acts1 where "current_term n \<le> t" "become_follower e t (Some from) n = Some (n', acts1)"
    "acts = acts1 @ [reply n' from InstallSnapshotResponse]"
  | (installed) n1 acts1 where "current_term n \<le> t" "become_follower e t (Some from) n = Some (n1, acts1)"
    "commit_index n1 < idx"
    "n' = n1\<lparr>log := log_install_snapshot
        \<lparr>last_included_index = idx, last_included_term = it\<rparr> (log n1),
      commit_index := idx, last_applied := idx\<rparr>"
    "acts = acts1 @ [PersistSnapshot idx it dat, reply n' from InstallSnapshotResponse]"
proof (cases "t < current_term n")
  case True
  show ?thesis by (rule stale) (use assms True in \<open>auto simp: handle_install_snapshot_def\<close>)
next
  case False
  then have le: "current_term n \<le> t" by simp
  let ?inst = "\<lambda>n1. n1\<lparr>log := log_install_snapshot
        \<lparr>last_included_index = idx, last_included_term = it\<rparr> (log n1),
      commit_index := idx, last_applied := idx\<rparr>"
  from False assms obtain n1 acts1 where bf: "become_follower e t (Some from) n = Some (n1, acts1)"
    and rest: "(if idx \<le> commit_index n1 then (n1, acts1 @ [reply n1 from InstallSnapshotResponse])
      else if done then (?inst n1, acts1 @ [PersistSnapshot idx it dat, reply (?inst n1) from InstallSnapshotResponse])
      else (n1, acts1 @ [reply n1 from InstallSnapshotResponse])) = (n', acts)"
    unfolding handle_install_snapshot_def Let_def by (auto simp: bind_eq_Some_conv split: if_splits)
  show ?thesis
  proof (cases "idx \<le> commit_index n1 \<or> \<not> done")
    case True
    with rest have "n' = n1" "acts = acts1 @ [reply n1 from InstallSnapshotResponse]"
      by (auto split: if_splits)
    with bf le show ?thesis by (intro skipped) simp_all
  next
    case no: False
    with rest have n': "n' = ?inst n1"
      "acts = acts1 @ [PersistSnapshot idx it dat, reply (?inst n1) from InstallSnapshotResponse]"
      by auto
    show ?thesis by (rule installed [OF le bf]) (use no in \<open>simp_all only: n' not_le de_Morgan_disj\<close>)
  qed
qed

lemma handle_install_snapshot_responseE:
  assumes "handle_install_snapshot_response e from t n = Some (n', acts)"
  obtains (ignored) "n' = n" "acts = []"
  | (counted) mi nxt where "role n = Leader" "t = current_term n"
    "maybe_advance_commit_index e (n\<lparr>match_index := (match_index n)(from \<mapsto> mi),
       next_index := (next_index n)(from \<mapsto> nxt)\<rparr>) = Some (n', acts)"
proof (cases "role n \<noteq> Leader \<or> t \<noteq> current_term n")
  case True
  show ?thesis by (rule ignored) (use assms True in \<open>auto simp: handle_install_snapshot_response_def\<close>)
next
  case False
  with assms obtain mi nxt where
    "maybe_advance_commit_index e (n\<lparr>match_index := (match_index n)(from \<mapsto> mi),
       next_index := (next_index n)(from \<mapsto> nxt)\<rparr>) = Some (n', acts)"
    by (auto simp: handle_install_snapshot_response_def bind_eq_Some_conv)
  with False show ?thesis by (intro counted) auto
qed

lemma proposeE:
  assumes "propose e cmd n = Some (n', acts)"
  obtains (refused) "role n \<noteq> Leader" "n' = n" "acts = []"
  | (appended) x n1 sends adv where "role n = Leader" "entries (log n) \<noteq> []"
    "x = \<lparr>e_index = e_index (last (entries (log n))) + 1, e_term = current_term n, e_command = cmd\<rparr>"
    "index_next (debug e) (e_index (last (entries (log n)))) = Some (e_index x)"
    "n1 = n\<lparr>log := log n\<lparr>entries := entries (log n) @ [x]\<rparr>\<rparr>"
    "those (map (replicate_to_peer n1) (peers n)) = Some sends"
    "(if peers n = [] then maybe_advance_commit_index e n1 else Some (n1, [])) = Some (n', adv)"
    "acts = AppendToLog [x] # sends @ adv"
proof (cases "role n = Leader")
  case True
  obtain lst where lst: "last_index (log n) = Some lst"
    using assms True by (cases "last_index (log n)") (simp_all add: propose_def)
  obtain idx where idx: "index_next (debug e) lst = Some idx"
    using assms True by (cases "index_next (debug e) lst") (simp_all add: propose_def lst)
  define x where "x = \<lparr>e_index = idx, e_term = current_term n, e_command = cmd\<rparr>"
  obtain l where l: "log_append (debug e) [x] (log n) = Some l"
    using assms True by (cases "log_append (debug e) [x] (log n)") (simp_all add: propose_def lst idx x_def)
  define n1 where "n1 = n\<lparr>log := l\<rparr>"
  obtain sends where sends: "broadcast_append_entries n1 = Some sends"
    using assms True
    by (cases "broadcast_append_entries n1") (simp_all add: propose_def lst idx x_def [symmetric] l n1_def Let_def)
  have "Option.bind (if peers n1 = [] then maybe_advance_commit_index e n1 else Some (n1, []))
      (\<lambda>(n2, adv). Some (n2, AppendToLog [x] # sends @ adv)) = Some (n', acts)"
    using assms True by (simp add: propose_def lst idx x_def [symmetric] l n1_def sends [unfolded n1_def] Let_def
        cong: if_cong split del: if_split)
  then obtain adv where adv: "acts = AppendToLog [x] # sends @ adv"
    "(if peers n1 = [] then maybe_advance_commit_index e n1 else Some (n1, [])) = Some (n', adv)"
    by (cases "if peers n1 = [] then maybe_advance_commit_index e n1 else Some (n1, [])") auto
  note facts = log_appendD [OF l] last_indexD [OF lst] index_next_result [OF idx]
  have n1: "n1 = n\<lparr>log := log n\<lparr>entries := entries (log n) @ [x]\<rparr>\<rparr>" "peers n1 = peers n"
    using facts by (simp_all add: n1_def)
  show ?thesis
    by (rule appended [OF True _ _ _ n1(1) _ _ adv(1)])
      (use facts idx sends adv(2) n1(2) in \<open>simp_all add: x_def broadcast_append_entries_def\<close>)
next
  case False
  show ?thesis by (rule refused) (use assms False in \<open>auto simp: propose_def\<close>)
qed

lemma compact_logsE:
  assumes "compact_logs idx t dat n = Some (n', acts)"
  obtains (refused) "n' = n" "acts = []"
  | (compacted) l where "idx \<le> commit_index n" "log_compact idx t (log n) = Some l"
    "n' = n\<lparr>log := l\<rparr>" "acts = [PersistSnapshot idx t dat]"
  using assms by (auto simp: compact_logs_def bind_eq_Some_conv not_less split: if_splits)

lemma tickE:
  assumes "tick e n = Some (n', acts)"
  obtains (quiet) he ee where "n' = n\<lparr>heartbeat_elapsed := he, election_elapsed := ee\<rparr>" "acts = []"
  | (heartbeat) "role n = Leader" "n' = n\<lparr>heartbeat_elapsed := 0\<rparr>"
    "those (map (replicate_to_peer n') (peers n)) = Some acts"
  | (timeout) "role n \<noteq> Leader" "start_pre_vote e (n\<lparr>election_elapsed := 0\<rparr>) = Some (n', acts)"
proof (cases "role n = Leader")
  case True
  with assms obtain he where *:
    "(if heartbeat_interval n \<le> he
      then Option.bind (broadcast_heartbeats (n\<lparr>heartbeat_elapsed := 0\<rparr>)) (\<lambda>a. Some (n\<lparr>heartbeat_elapsed := 0\<rparr>, a))
      else Some (n\<lparr>heartbeat_elapsed := he\<rparr>, [])) = Some (n', acts)"
    unfolding tick_def Let_def by (auto simp: bind_eq_Some_conv cong: if_cong)
  show ?thesis
  proof (cases "heartbeat_interval n \<le> he")
    case False
    show ?thesis by (rule quiet [where he = he and ee = "election_elapsed n"]) (use * False in auto)
  next
    case iv: True
    with * have "broadcast_heartbeats (n\<lparr>heartbeat_elapsed := 0\<rparr>) = Some acts" "n' = n\<lparr>heartbeat_elapsed := 0\<rparr>"
      by (auto simp: bind_eq_Some_conv)
    with True show ?thesis by (intro heartbeat) (simp_all add: broadcast_heartbeats_def)
  qed
next
  case False
  with assms obtain ee where *:
    "(if election_timeout n \<le> ee then start_pre_vote e (n\<lparr>election_elapsed := 0\<rparr>)
      else Some (n\<lparr>election_elapsed := ee\<rparr>, [])) = Some (n', acts)"
    unfolding tick_def Let_def by (cases "role n") (auto simp: bind_eq_Some_conv cong: if_cong)
  show ?thesis
  proof (cases "election_timeout n \<le> ee")
    case e: False
    show ?thesis by (rule quiet [where he = "heartbeat_elapsed n" and ee = ee]) (use * e in auto)
  next
    case True
    show ?thesis by (rule timeout) (use * True False in simp_all)
  qed
qed

lemma stepE:
  assumes "step e m n = Some (n', acts)"
  obtains (newer) n1 acts1 acts2 where "current_term n < msg_term m"
    "\<not> is_pre_vote_msg (msg_kind m)" "\<not> is_client_msg (msg_kind m)"
    "become_follower e (msg_term m) None n = Some (n1, acts1)"
    "dispatch e m n1 = Some (n', acts2)" "acts = acts1 @ acts2"
  | (stale) "msg_term m < current_term n" "n' = n" "acts = []"
  | (current) "msg_term m = current_term n \<or> is_pre_vote_msg (msg_kind m) \<or> is_client_msg (msg_kind m)"
    "dispatch e m n = Some (n', acts)"
proof -
  define exempt where "exempt \<longleftrightarrow> is_pre_vote_msg (msg_kind m) \<or> is_client_msg (msg_kind m)"
  have step: "Option.bind (if current_term n < msg_term m \<and> \<not> exempt
      then become_follower e (msg_term m) None n else Some (n, []))
    (\<lambda>(n1, acts1). if msg_term m < current_term n1 \<and> \<not> exempt then Some (n1, acts1)
      else Option.bind (dispatch e m n1) (\<lambda>(n2, acts2). Some (n2, acts1 @ acts2))) = Some (n', acts)"
    using assms by (simp add: step_def Let_def exempt_def)
  consider (a) "current_term n < msg_term m" "\<not> exempt" | (b) "msg_term m < current_term n" "\<not> exempt"
    | (c) "msg_term m = current_term n \<or> exempt" by force
  then show ?thesis
  proof cases
    case a
    with step obtain n1 acts1 where bf: "become_follower e (msg_term m) None n = Some (n1, acts1)"
      and rest: "(if msg_term m < current_term n1 \<and> \<not> exempt then Some (n1, acts1)
      else Option.bind (dispatch e m n1) (\<lambda>(n2, acts2). Some (n2, acts1 @ acts2))) = Some (n', acts)"
      by (auto simp: bind_eq_Some_conv simp del: if_split)
    have "current_term n1 = msg_term m" using bf by (elim become_followerE) simp
    with rest obtain acts2 where "dispatch e m n1 = Some (n', acts2)" "acts = acts1 @ acts2"
      by (auto simp: bind_eq_Some_conv)
    with a bf show ?thesis by (intro newer) (simp_all add: exempt_def)
  next
    case b
    then have "\<not> current_term n < msg_term m" by auto
    with b step show ?thesis by (intro stale) simp_all
  next
    case c
    then have "dispatch e m n = Some (n', acts)"
      using step by (auto simp: bind_eq_Some_conv)
    with c show ?thesis by (intro current) (simp_all add: exempt_def)
  qed
qed

end
