(* ===== verification/NodeInv.thy ===== *)
theory NodeInv
  imports Node
begin

text \<open>
  The well-formedness invariant of a node and panic freedom: on a well-formed node, with room below
  the 64-bit limit, every entry point of \<open>RaftNode\<close> returns, in the dev profile as in the release
  profile, keeps the invariant and sends well-formed messages only.
\<close>

section \<open>Well-formed environments, nodes and messages\<close>

definition rng_ok :: "'r env \<Rightarrow> bool" where
  \<comment> \<open>what the \<open>rand\<close> crate documents of \<open>gen_range(0..n)\<close>\<close>
  "rng_ok e \<longleftrightarrow> (\<forall>r n. n \<noteq> 0 \<longrightarrow> fst (gen_range e r n) < n)"

definition node_wf :: "'r raft_node \<Rightarrow> bool" where
  "node_wf n \<longleftrightarrow>
     log_wf (log n) \<and>
     log_base (log n) \<le> unat (commit_index n) \<and>
     last_applied n \<le> commit_index n \<and>
     heartbeat_interval n < election_timeout_base n \<and>
     2 * unat (election_timeout_base n) \<le> 2 ^ 64 \<and>
     election_timeout_base n \<le> election_timeout n \<and>
     unat (election_timeout n) < 2 * unat (election_timeout_base n)"

definition log_room :: "'r raft_node \<Rightarrow> bool" where
  \<comment> \<open>the last index is below the 64-bit limit\<close>
  "log_room n \<longleftrightarrow> Suc (log_last (log n)) < 2 ^ 64"

definition headroom :: "'r raft_node \<Rightarrow> bool" where
  \<comment> \<open>no counter of the node is at the 64-bit limit\<close>
  "headroom n \<longleftrightarrow>
     current_term n \<noteq> -1 \<and> commit_index n \<noteq> -1 \<and> log_room n \<and>
     election_elapsed n \<noteq> -1 \<and> heartbeat_elapsed n \<noteq> -1"

fun kind_wf :: "message_kind \<Rightarrow> bool" where
  "kind_wf (AppendEntries prev _ es _) \<longleftrightarrow>
     prev \<noteq> -1 \<and> indexed_from (prev + 1) es \<and> unat prev + length es + 1 < 2 ^ 64"
| "kind_wf (InstallSnapshot idx _ _ _ _) \<longleftrightarrow> idx \<noteq> -1"
| "kind_wf _ \<longleftrightarrow> True"

definition sends_wf :: "action list \<Rightarrow> bool" where
  "sends_wf acts \<longleftrightarrow> (\<forall>m. Send m \<in> set acts \<longrightarrow> kind_wf (msg_kind m))"

lemma sends_wf_simps [simp]:
  "sends_wf []"
  "sends_wf (a # as) \<longleftrightarrow> (\<forall>m. a = Send m \<longrightarrow> kind_wf (msg_kind m)) \<and> sends_wf as"
  "sends_wf (as @ bs) \<longleftrightarrow> sends_wf as \<and> sends_wf bs"
  by (auto simp: sends_wf_def)

lemma reply_Send [simp]:
  "reply n p k = Send m \<longleftrightarrow> m = \<lparr>msg_from = node_id n, msg_to = p, msg_term = current_term n, msg_kind = k\<rparr>"
  "Send m = reply n p k \<longleftrightarrow> m = \<lparr>msg_from = node_id n, msg_to = p, msg_term = current_term n, msg_kind = k\<rparr>"
  by (auto simp: reply_def)

lemma node_wf_log [simp]: "node_wf n \<Longrightarrow> log_wf (log n)"
  by (simp add: node_wf_def)

lemma headroom_log [simp]: "headroom n \<Longrightarrow> log_room n"
  by (simp add: headroom_def)

lemma log_room_last: "log_room n \<Longrightarrow> log_wf (log n) \<Longrightarrow> e_index (last (entries (log n))) \<noteq> -1"
  by (simp add: log_room_def not_max_iff vec_wf_end log_wf_vec)

section \<open>The helpers return\<close>

lemma randomize_returns:
  assumes "rng_ok e" and "0 < unat base" and "2 * unat base \<le> 2 ^ 64"
  shows "returns (randomize_election_timeout e base r)
    (\<lambda>(t, r'). base \<le> t \<and> unat t < 2 * unat base)"
proof -
  obtain k r' where g: "gen_range e r base = (k, r')" by force
  have "base \<noteq> 0" using assms(2) by auto
  with assms(1) g have "k < base" unfolding rng_ok_def by (metis fst_conv)
  then have k: "unat k < unat base" by (simp add: word_less_nat_alt)
  then have "unat base + unat k < 2 ^ 64" using assms(3) by linarith
  then have "\<not> base + k < base" "unat (base + k) = unat base + unat k"
    by (simp_all add: word_no_wrap unat_word_ariths)
  with g k \<open>base \<noteq> 0\<close> show ?thesis
    by (simp add: randomize_election_timeout_def word_le_nat_alt)
qed

lemma randomize_node:
  assumes "rng_ok e" and "node_wf n"
  shows "returns (randomize_election_timeout e (election_timeout_base n) r)
    (\<lambda>(t, r'). election_timeout_base n \<le> t \<and> unat t < 2 * unat (election_timeout_base n))"
  using assms by (intro randomize_returns) (auto simp: node_wf_def word_less_nat_alt)

lemma become_follower_returns:
  assumes "rng_ok e" and wf: "node_wf n"
  shows "returns (become_follower e t l n) (\<lambda>(n', acts). node_wf n' \<and> log n' = log n \<and>
    commit_index n' = commit_index n \<and> current_term n' = t \<and> sends_wf acts \<and>
    election_elapsed n' = 0 \<and> heartbeat_elapsed n' = heartbeat_elapsed n)"
  unfolding become_follower_def Let_def
  using wf by (auto intro!: returns_bindI [OF randomize_node [OF assms, of "rng n"]] simp: node_wf_def)

lemma entries_from_indexed:
  assumes wf: "log_wf l" and lo: "e_index (hd (entries l)) < i"
  shows "entries_from l i = Some (drop (unat i - log_base l) (entries l))"
    and "indexed_from i (drop (unat i - log_base l) (entries l))"
proof -
  have k: "unat (i - e_index (hd (entries l))) = unat i - log_base l"
    using lo by (simp add: unat_offset vec_base_def)
  have "e_index (hd (entries l)) + of_nat (unat i - log_base l) = i"
    by (simp flip: k)
  then show "indexed_from i (drop (unat i - log_base l) (entries l))"
    using indexed_from_drop [OF vec_wf_indexed [OF log_wf_vec [OF wf]], of "unat i - log_base l"]
    by (cases "unat i - log_base l \<le> length (entries l)") auto
  have "filter (\<lambda>e. i \<le> e_index e) (tl (entries l)) = filter (\<lambda>e. i \<le> e_index e) (entries l)"
    using lo wf by (cases "entries l") auto
  with k lo wf show "entries_from l i = Some (drop (unat i - log_base l) (entries l))"
    by (simp add: entries_from_filter filter_from_drop log_wf_def)
qed

lemma replicate_returns:
  assumes wf: "log_wf (log n)"
  shows "returns (replicate_to_peer n p)
    (\<lambda>a. \<forall>m. a = Send m \<longrightarrow> log_room n \<longrightarrow> kind_wf (msg_kind m))"
proof -
  define nxt where "nxt = (case next_index n p of None \<Rightarrow> 1 | Some i \<Rightarrow> i)"
  let ?b = "e_index (hd (entries (log n)))"
  have base: "?b \<noteq> -1" if "log_room n"
    using that wf by (cases "entries (log n)") (auto simp: log_room_def not_max_iff vec_end_def vec_base_def)
  show ?thesis
  proof (cases "nxt \<le> ?b")
    case True
    with wf base show ?thesis
      by (auto simp: replicate_to_peer_def nxt_def log_simps log_snapshot_meta_def
          sentinel_index_def split: option.splits)
  next
    case False
    then have lo: "?b < nxt" by simp
    then have p: "index_prev nxt + 1 = nxt" "index_prev nxt \<noteq> -1" "unat (index_prev nxt) + 1 = unat nxt"
      by (auto simp: index_prev_def saturating_sub_def word_le_nat_alt word_less_nat_alt unat_offset_nat
          not_max_iff)
    define xs where "xs = drop (unat nxt - log_base (log n)) (entries (log n))"
    have "log_room n \<longrightarrow> unat nxt + length xs < 2 ^ 64"
      using unat_u64_less [of nxt] by (auto simp: log_room_def xs_def vec_end_def)
    moreover have "entries_from (log n) nxt = Some xs" "indexed_from nxt xs"
      using entries_from_indexed [OF wf lo] by (simp_all add: xs_def)
    ultimately show ?thesis
      using False wf p by (auto simp: replicate_to_peer_def nxt_def [symmetric] log_simps Let_def)
  qed
qed


lemma broadcast_returns:
  assumes "log_wf (log n)"
  shows "returns (those (map (replicate_to_peer n) ps))
    (\<lambda>acts. log_room n \<longrightarrow> sends_wf acts)"
proof (induction ps)
  case (Cons p ps)
  with replicate_returns [OF assms, of p] show ?case
    by (auto simp: returns_iff sends_wf_def)
qed simp

lemma apply_returns:
  assumes wf: "node_wf n"
  shows "returns (apply_committed_entries e n) (\<lambda>(n', acts). node_wf n' \<and> sends_wf acts \<and>
    (\<exists>a. n' = n\<lparr>last_applied := a\<rparr> \<and> last_applied n \<le> a))"
proof (cases "commit_index n > last_applied n")
  case True
  then have "last_applied n \<noteq> -1" by auto
  then have nxt: "index_next (debug e) (last_applied n) = Some (last_applied n + 1)" by simp
  define es where "es = filter (\<lambda>x. last_applied n + 1 \<le> e_index x) (tl (entries (log n)))"
  define ap where "ap = takeWhile (\<lambda>x. e_index x \<le> commit_index n) es"
  have es: "entries_from (log n) (last_applied n + 1) = Some es"
    using wf by (simp add: entries_from_filter es_def)
  show ?thesis
  proof (cases "ap = []")
    case False
    then have "last ap \<in> set ap" by simp
    then have "e_index (last ap) \<le> commit_index n" "last_applied n + 1 \<le> e_index (last ap)"
      by (auto simp: ap_def es_def dest: set_takeWhileD)
    with plus_one_greater [OF \<open>last_applied n \<noteq> -1\<close>] have
      "e_index (last ap) \<le> commit_index n" "last_applied n \<le> e_index (last ap)" by auto
    with True nxt es False wf show ?thesis
      by (auto simp: apply_committed_entries_def ap_def [symmetric] node_wf_def)
  qed (use True nxt es wf in \<open>auto simp: apply_committed_entries_def ap_def [symmetric]
      intro!: exI [of _ "last_applied n"]\<close>)
qed (use wf in \<open>auto simp: apply_committed_entries_def intro!: exI [of _ "last_applied n"]\<close>)

lemma commit_scan_returns:
  "log_wf (log n) \<Longrightarrow> returns (commit_scan n is c) (\<lambda>c'. c' = c \<or> c' \<in> set is)"
proof (induction "is" arbitrary: c)
  case (Cons i "is")
  let ?c' = "if replica_count n i \<ge> majority n then i else c"
  show ?case
    using Cons.IH [OF Cons.prems, of c] Cons.IH [OF Cons.prems, of ?c'] Cons.prems
    by (auto simp: log_simps returns_iff split: if_splits)
qed simp

lemma range_incl_mem: "i \<in> set (range_incl a b) \<longleftrightarrow> a \<le> i \<and> i \<le> b"
proof
  assume "i \<in> set (range_incl a b)"
  then obtain k where "i = of_nat k" "unat a \<le> k" "k \<le> unat b"
    by (auto simp: range_incl_def)
  moreover have "unat (of_nat k :: u64) = k"
    using \<open>k \<le> unat b\<close> unat_u64_less [of b] by (simp add: unat_of_nat)
  ultimately show "a \<le> i \<and> i \<le> b" by (simp add: word_le_nat_alt)
next
  assume "a \<le> i \<and> i \<le> b"
  then have "unat i \<in> {unat a ..< Suc (unat b)}" by (simp add: word_le_nat_alt)
  then have "of_nat (unat i) \<in> set (range_incl a b)" unfolding range_incl_def by (metis imageI list.set_map set_upt)
  then show "i \<in> set (range_incl a b)" by simp
qed

lemma advance_returns:
  assumes wf: "node_wf n" and room: "commit_index n \<noteq> -1"
  shows "returns (maybe_advance_commit_index e n) (\<lambda>(n', acts). node_wf n' \<and> sends_wf acts \<and>
    (\<exists>a c. n' = n\<lparr>commit_index := c, last_applied := a\<rparr> \<and> last_applied n \<le> a \<and> commit_index n \<le> c))"
    (is "returns _ ?Q")
proof -
  let ?lst = "e_index (last (entries (log n)))"
  have start: "add_u64 (debug e) (commit_index n) 1 = Some (commit_index n + 1)"
    using plus_one_greater [of "commit_index n"] room by (auto simp: add_u64_def)
  have scan: "returns (commit_scan n (range_incl (commit_index n + 1) ?lst) (commit_index n)) (\<lambda>_. True)"
    by (rule returns_mono [OF commit_scan_returns]) (use wf in simp_all)
  have "returns (if c' > commit_index n then apply_committed_entries e (n\<lparr>commit_index := c'\<rparr>)
      else Some (n, [])) ?Q" for c'
  proof (cases "c' > commit_index n")
    case True
    have "node_wf (n\<lparr>commit_index := c'\<rparr>)"
      using True wf by (auto simp: node_wf_def word_less_nat_alt word_le_nat_alt)
    then show ?thesis
      using True apply_returns [of "n\<lparr>commit_index := c'\<rparr>" e]
      by (auto elim!: returns_mono) (metis less_imp_le)
  qed (use wf in \<open>simp, intro exI [of _ "last_applied n"] exI [of _ "commit_index n"], simp\<close>)
  with scan start wf show ?thesis
    unfolding maybe_advance_commit_index_def by (simp add: log_simps returns_bindI)
qed

section \<open>Every handler returns\<close>

fun good :: "'r outcome \<Rightarrow> bool" where
  "good (n, acts) \<longleftrightarrow> node_wf n \<and> (log_room n \<longrightarrow> sends_wf acts)"

lemma append_one_returns:
  assumes wf: "node_wf n" and room: "log_room n"
  shows "log_append dbg [\<lparr>e_index = e_index (last (entries (log n))) + 1, e_term = t, e_command = c\<rparr>] (log n)
    = Some (log n\<lparr>entries := entries (log n) @ [\<lparr>e_index = e_index (last (entries (log n))) + 1, e_term = t, e_command = c\<rparr>]\<rparr>)"
    (is "log_append dbg [?x] _ = _")
    and "log_wf (log n\<lparr>entries := entries (log n) @ [\<lparr>e_index = e_index (last (entries (log n))) + 1, e_term = t, e_command = c\<rparr>]\<rparr>)"
proof -
  have last: "e_index (last (entries (log n))) \<noteq> -1"
    using log_room_last [OF room] wf by simp
  show "log_append dbg [?x] (log n) = Some (log n\<lparr>entries := entries (log n) @ [?x]\<rparr>)"
    by (rule log_append_eq) (use wf last in auto)
  have "indexed_from (e_index (last (entries (log n))) + 1) [?x]"
    using unat_u64_less [of "e_index (last (entries (log n))) + 1"] by (simp add: indexed_from_def)
  then show "log_wf (log n\<lparr>entries := entries (log n) @ [?x]\<rparr>)"
    using wf last by (intro log_append_wf) auto
qed

lemma node_wf_append:
  "node_wf n \<Longrightarrow> log_wf (log n\<lparr>entries := entries (log n) @ es\<rparr>) \<Longrightarrow>
    node_wf (n\<lparr>log := log n\<lparr>entries := entries (log n) @ es\<rparr>\<rparr>)"
  using log_wf_nonempty [of "log n"] by (auto simp: node_wf_def vec_base_def)

lemma become_leader_returns:
  assumes wf: "node_wf n" and room: "log_room n"
  shows "returns (become_leader e n) good"
proof -
  define x where "x = \<lparr>e_index = e_index (last (entries (log n))) + 1, e_term = current_term n, e_command = []\<rparr>"
  define n3 where "n3 = n\<lparr>role := Leader, leader_id := Some (node_id n), heartbeat_elapsed := 0,
    next_index := map_of (map (\<lambda>p. (p, e_index x)) (peers n)),
    match_index := map_of (map (\<lambda>p. (p, sentinel_index)) (peers n)),
    log := log n\<lparr>entries := entries (log n) @ [x]\<rparr>\<rparr>"
  have "node_wf n3"
    using node_wf_append [OF wf append_one_returns(2) [OF wf room, of "current_term n" "[]"]]
    by (simp add: n3_def x_def node_wf_def)
  moreover have "become_leader e n =
      map_option (\<lambda>sends. (n3, AppendToLog [x] # sends)) (broadcast_heartbeats n3)"
    using append_one_returns(1) [OF wf room, of "debug e" "current_term n" "[]"] log_room_last [OF room] wf
    by (simp add: become_leader_def log_simps Let_def n3_def x_def map_conv_bind_option comp_def)
  ultimately show ?thesis
    using broadcast_returns [of n3 "peers n3"]
    by (auto simp: broadcast_heartbeats_def returns_iff)
qed


lemma append_good:
  "returns m good \<Longrightarrow> sends_wf pre \<Longrightarrow> returns (Option.bind m (\<lambda>(n, acts). Some (n, pre @ acts))) good"
  by (auto simp: returns_iff)

lemma map_reply_wf [simp]:
  "(\<And>p. kind_wf k) \<Longrightarrow> sends_wf (map (\<lambda>p. reply n p k) ps)"
  "kind_wf k \<Longrightarrow> sends_wf (map (\<lambda>p. Send \<lparr>msg_from = f, msg_to = p, msg_term = t, msg_kind = k\<rparr>) ps)"
  by (auto simp: sends_wf_def)

lemma start_real_election_returns:
  assumes "rng_ok e" and wf: "node_wf n" and room: "log_room n" and t: "current_term n \<noteq> -1"
  shows "returns (start_real_election e n) good"
proof -
  obtain timeout r where
    rnd: "randomize_election_timeout e (election_timeout_base n) (rng n) = Some (timeout, r)"
    and bounds: "election_timeout_base n \<le> timeout" "unat timeout < 2 * unat (election_timeout_base n)"
    using randomize_node [OF assms(1,2), of "rng n"] by (auto simp: returns_iff)
  define n2 where "n2 = n\<lparr>current_term := current_term n + 1, role := Candidate,
    voted_for := Some (node_id n), votes_received := {node_id n}, election_elapsed := 0,
    election_timeout := timeout, rng := r\<rparr>"
  define acts where "acts = PersistHardState (current_term n + 1) (Some (node_id n2))
    # map (\<lambda>p. reply n2 p (RequestVote (e_index (last (entries (log n)))) (e_term (last (entries (log n)))))) (peers n2)"
  have n2: "node_wf n2" "log_room n2" "sends_wf acts"
    using wf bounds room by (auto simp: n2_def node_wf_def log_room_def acts_def)
  have "start_real_election e n =
      (if peers n2 = [] then Option.bind (become_leader e n2) (\<lambda>(n3, acts'). Some (n3, acts @ acts'))
       else Some (n2, acts))"
    using rnd t wf by (simp add: start_real_election_def Let_def log_simps n2_def acts_def)
  then show ?thesis
    using append_good [OF become_leader_returns [OF n2(1,2)] n2(3)] n2 by simp
qed

lemma start_pre_vote_returns:
  assumes "rng_ok e" and wf: "node_wf n" and room: "log_room n" and t: "current_term n \<noteq> -1"
  shows "returns (start_pre_vote e n) good"
proof -
  obtain timeout r where
    rnd: "randomize_election_timeout e (election_timeout_base n) (rng n) = Some (timeout, r)"
    and bounds: "election_timeout_base n \<le> timeout" "unat timeout < 2 * unat (election_timeout_base n)"
    using randomize_node [OF assms(1,2), of "rng n"] by (auto simp: returns_iff)
  define n2 where "n2 = n\<lparr>role := PreCandidate, pre_votes_received := {node_id n},
    election_elapsed := 0, election_timeout := timeout, rng := r\<rparr>"
  define acts where "acts = map (\<lambda>p. Send \<lparr>msg_from = node_id n2, msg_to = p,
    msg_term = current_term n + 1, msg_kind = PreVote (e_index (last (entries (log n))))
      (e_term (last (entries (log n))))\<rparr>) (peers n2)"
  have n2: "node_wf n2" "log_room n2" "current_term n2 \<noteq> -1" "sends_wf acts"
    using wf bounds room t by (auto simp: n2_def node_wf_def log_room_def acts_def)
  have "start_pre_vote e n =
      (if peers n2 = [] then Option.bind (start_real_election e n2) (\<lambda>(n3, acts'). Some (n3, acts @ acts'))
       else Some (n2, acts))"
    using rnd t wf by (simp add: start_pre_vote_def Let_def log_simps n2_def acts_def)
  then show ?thesis
    using append_good [OF start_real_election_returns [OF assms(1) n2(1-3)] n2(4)] n2 by simp
qed

lemma up_to_date_eq:
  "log_wf (log n) \<Longrightarrow> is_log_up_to_date n i t = Some
    (let l = last (entries (log n)) in if t \<noteq> e_term l then e_term l < t else e_index l \<le> i)"
  by (simp add: is_log_up_to_date_def log_simps Let_def)

lemma vote_handlers_return:
  assumes "rng_ok e" and "node_wf n" and "headroom n"
  shows "returns (handle_pre_vote from pt lli llt n) good"
    and "returns (handle_request_vote from lli llt n) good"
    and "returns (handle_pre_vote_response e from pt g n) good"
    and "returns (handle_request_vote_response e from pt g n) good"
proof -
  have room: "log_room n" "current_term n \<noteq> -1" using assms(3) by (simp_all add: headroom_def)
  show "returns (handle_pre_vote from pt lli llt n) good"
    using assms by (simp add: handle_pre_vote_def up_to_date_eq Let_def)
  show "returns (handle_request_vote from lli llt n) good"
    using assms by (simp add: handle_request_vote_def up_to_date_eq Let_def node_wf_def)
  show "returns (handle_pre_vote_response e from pt g n) good"
    using assms room start_real_election_returns [OF assms(1), of "n\<lparr>pre_votes_received := insert from (pre_votes_received n)\<rparr>"]
    by (auto simp: handle_pre_vote_response_def Let_def node_wf_def log_room_def)
  show "returns (handle_request_vote_response e from pt g n) good"
    using assms room become_leader_returns [of "n\<lparr>votes_received := insert from (votes_received n)\<rparr>"]
    by (auto simp: handle_request_vote_response_def Let_def node_wf_def log_room_def)
qed


section \<open>AppendEntries\<close>

abbreviation holds_entry :: "raft_log \<Rightarrow> log_entry \<Rightarrow> bool" where
  \<comment> \<open>the log has an entry of the same index and term\<close>
  "holds_entry l x \<equiv> map_option e_term (lookup l (unat (e_index x))) = Some (e_term x)"

definition matched :: "raft_log \<Rightarrow> log_entry list \<Rightarrow> nat" where
  \<comment> \<open>how many of the entries, from the first, the log already holds\<close>
  "matched l es = length (takeWhile (holds_entry l) es)"

lemma matched_le: "matched l es \<le> length es"
  by (simp add: matched_def length_takeWhile_le)

lemma attach_scan_eq:
  assumes "log_wf l" and "indexed_from b es" and "unat b + length es < 2 ^ 64"
  shows "attach_scan chk l es b = Some (b + of_nat (matched l es))"
  using assms(2,3)
proof (induction es arbitrary: b)
  case (Cons x xs)
  have x: "e_index x = b" using indexed_from_nth [OF Cons.prems(1), of 0] by simp
  have b: "b \<noteq> -1" using Cons.prems(2) by (simp add: not_max_iff)
  have "unat (b + 1) = unat b + 1"
    using Cons.prems(2) unat_plus_no_wrap [of b 1] by simp
  then have "attach_scan chk l xs (b + 1) = Some (b + 1 + of_nat (matched l xs))"
    using Cons.prems indexed_from_drop [OF Cons.prems(1), of 1] by (intro Cons.IH) simp_all
  with assms(1) x b show ?case
    by (auto simp: log_simps matched_def add.assoc)
qed (simp add: matched_def)

definition merged :: "log_index \<Rightarrow> log_entry list \<Rightarrow> raft_log \<Rightarrow> raft_log" where
  \<comment> \<open>what an accepted \<open>AppendEntries\<close> with entries from \<open>b\<close> on leaves in the log\<close>
  "merged b es l =
     (if matched l es < length es
      then l\<lparr>entries := spec_truncate (b + of_nat (matched l es)) (drop (matched l es) es) (entries l)\<rparr>
      else l)"

lemma append_new_entries_eq:
  assumes wf: "log_wf (log n)" and es: "indexed_from b es" "unat b + length es < 2 ^ 64"
    and lo: "e_index (hd (entries (log n))) < b"
  shows "append_new_entries e es n = Some (n\<lparr>log := merged b es (log n)\<rparr>,
    if matched (log n) es < length es
    then [TruncateAndAppend (b + of_nat (matched (log n) es)) (drop (matched (log n) es) es)] else [])"
proof (cases es)
  case (Cons x xs)
  define k where "k = matched (log n) es"
  have x: "e_index x = b" using indexed_from_nth [OF es(1), of 0] Cons by simp
  have k: "k \<le> length es" by (simp add: k_def matched_le)
  then have u: "unat (b + of_nat k) = unat b + k"
    using es(2) by (intro unat_plus_no_wrap) simp
  then have le: "b \<le> b + of_nat k" by (simp add: word_le_nat_alt)
  have off: "unat (of_nat k :: u64) = k"
    using unat_offset [OF le] u by simp
  have lo': "e_index (hd (entries (log n))) < b + of_nat k"
    using lo le by simp
  have "append_new_entries e es n = (if k < length es
      then Option.bind (log_truncate_and_append (b + of_nat k) (drop k es) (log n))
        (\<lambda>l. Some (n\<lparr>log := l\<rparr>, [TruncateAndAppend (b + of_nat k) (drop k es)]))
      else Some (n, []))"
    using Cons x attach_scan_eq [OF wf es, of "debug e"] le off
    by (simp add: append_new_entries_def k_def Let_def)
  then show ?thesis
    by (simp add: truncate_and_append_eq [OF wf lo'] merged_def k_def [symmetric])
qed (simp add: append_new_entries_def merged_def matched_def)

lemma matched_le_end:
  \<comment> \<open>the entries that match are in the log, so the log does not end before them\<close>
  assumes wf: "log_wf l" and es: "indexed_from b es" "unat b + length es < 2 ^ 64"
    and hi: "unat b \<le> Suc (log_last l)"
  shows "unat b + matched l es \<le> Suc (log_last l)"
proof (cases "matched l es")
  case (Suc k)
  then have k: "k < length es" using matched_le [of l es] by simp
  have "holds_entry l (es ! k)"
    using Suc nth_mem [of k "takeWhile (holds_entry l) es"]
    by (auto simp: matched_def takeWhile_nth dest: set_takeWhileD)
  then have "unat b + k < log_base l + length (entries l)"
    using indexed_from_unat [OF es(1) k] by (auto simp: vec_lookup_def split: if_splits)
  with Suc show ?thesis by (simp add: vec_end_def)
qed (use hi in simp)

lemma merged_wf:
  assumes wf: "log_wf l" and es: "indexed_from b es" "unat b + length es < 2 ^ 64"
    and lo: "e_index (hd (entries l)) < b" and hi: "unat b \<le> Suc (log_last l)"
  shows "log_wf (merged b es l)" and "log_base (merged b es l) = log_base l"
proof -
  define k where "k = matched l es"
  have u: "unat (b + of_nat k) = unat b + k"
    using es(2) matched_le [of l es] by (intro unat_plus_no_wrap) (simp add: k_def)
  have lo': "e_index (hd (entries l)) < b + of_nat k"
    using lo u by (simp add: word_less_nat_alt)
  have "vec_wf (spec_truncate (b + of_nat k) (drop k es) (entries l))"
    using wf lo' u matched_le_end [OF assms(1-3,5)] indexed_from_drop [OF es(1), of k] matched_le [of l es]
    by (intro spec_truncate_wf) (auto simp: k_def log_wf_def)
  then show "log_wf (merged b es l)"
    using wf by (simp add: merged_def log_wf_def k_def)
  show "log_base (merged b es l) = log_base l"
    using wf lo' by (simp add: merged_def vec_base_def spec_truncate_hd log_wf_def k_def)
qed


definition term_run :: "raft_log \<Rightarrow> raft_term \<Rightarrow> nat \<Rightarrow> nat \<Rightarrow> bool" where
  \<comment> \<open>\<open>lo\<close> is where the run of entries of term \<open>t\<close> that ends before \<open>hi\<close> begins\<close>
  "term_run l t lo hi \<longleftrightarrow> lo \<le> hi \<and>
     (\<forall>j. lo \<le> j \<and> j < hi \<longrightarrow> map_option e_term (lookup l j) = Some t) \<and>
     (lo \<le> log_base l \<or> map_option e_term (lookup l (lo - 1)) \<noteq> Some t)"

lemma term_run_refl:
  "hi \<le> log_base l \<or> map_option e_term (lookup l (hi - 1)) \<noteq> Some t \<Longrightarrow> term_run l t hi hi"
  by (auto simp: term_run_def)

lemma term_run_extend:
  assumes "term_run l t lo (hi - 1)" and "map_option e_term (lookup l (hi - 1)) = Some t" and "0 < hi"
  shows "term_run l t lo hi"
proof -
  have "map_option e_term (lookup l j) = Some t" if "lo \<le> j" "j < hi" for j
    using assms that by (cases "j = hi - 1") (auto simp: term_run_def)
  with assms show ?thesis by (auto simp: term_run_def)
qed

lemma conflict_scan_returns:
  "log_wf l \<Longrightarrow> returns (conflict_scan l t i) (\<lambda>i'. term_run l t (unat i') (unat i))"
proof (induction l t i rule: conflict_scan.induct)
  case (1 l t i)
  define p where "p = index_prev i"
  show ?case
  proof (cases "e_index (hd (entries l)) < i")
    case lt: True
    then have p: "unat p = unat i - 1" "0 < unat i"
      by (auto simp: p_def index_prev_def saturating_sub_def word_le_nat_alt word_less_nat_alt unat_offset_nat)
    show ?thesis
    proof (cases "map_option e_term (lookup l (unat p)) = Some t")
      case True
      then have "returns (conflict_scan l t p) (\<lambda>i'. term_run l t (unat i') (unat p))"
        using "1.prems" lt by (intro "1.IH") (auto simp: log_simps p_def)
      then have "returns (conflict_scan l t p) (\<lambda>i'. term_run l t (unat i') (unat i))"
        by (rule returns_mono) (use p True in \<open>auto intro: term_run_extend\<close>)
      with lt True "1.prems" show ?thesis
        by (simp add: conflict_scan.simps [of l t i] log_simps p_def [symmetric])
    next
      case False
      have "conflict_scan l t i = Some i"
        using lt False "1.prems" by (subst conflict_scan.simps) (auto simp: log_simps p_def [symmetric])
      with False p show ?thesis by (simp add: term_run_refl)
    qed
  next
    case False
    have "conflict_scan l t i = Some i"
      using False "1.prems" by (subst conflict_scan.simps) (simp add: log_simps)
    with False show ?thesis by (simp add: term_run_refl vec_base_def word_less_nat_alt)
  qed
qed

lemma follow_commit_returns:
  assumes wf: "node_wf n"
  shows "returns (follow_commit e lc n) (\<lambda>(n', acts). good (n', acts) \<and> log n' = log n)"
proof -
  define c where "c = min lc (e_index (last (entries (log n))))"
  have "node_wf (n\<lparr>commit_index := c\<rparr>)" if "commit_index n < c"
    using wf that by (auto simp: node_wf_def word_less_nat_alt word_le_nat_alt)
  then have "returns (apply_committed_entries e (n\<lparr>commit_index := c\<rparr>))
      (\<lambda>(n', acts). good (n', acts) \<and> log n' = log n)" if "commit_index n < c"
    using that apply_returns [of "n\<lparr>commit_index := c\<rparr>" e] by (auto elim!: returns_mono)
  then show ?thesis
    using wf unfolding follow_commit_def Let_def
    by (simp add: log_simps c_def [symmetric] del: min_less_iff_conj)
qed

lemma handle_append_entries_returns:
  assumes "rng_ok e" and wf: "node_wf n" and room: "log_room n"
    and msg: "kind_wf (AppendEntries prev pt es lc)"
  shows "returns (handle_append_entries e from t prev pt es lc n) good"
proof (cases "t < current_term n")
  case False
  obtain n1 acts1 where bf: "become_follower e t (Some from) n = Some (n1, acts1)"
    and n1: "node_wf n1" "log n1 = log n" "sends_wf acts1"
    using become_follower_returns [OF assms(1,2), of t "Some from"] by (auto simp: returns_iff)
  let ?lt = "map_option e_term (lookup (log n) (unat prev))"
  have last: "e_index (last (entries (log n))) \<noteq> -1"
    using log_room_last [OF room] wf by simp
  show ?thesis
  proof (cases "?lt = Some pt")
    case True
    define b where "b = prev + 1"
    have es: "indexed_from b es" "unat b + length es < 2 ^ 64" "unat b = unat prev + 1"
      using msg unat_plus_no_wrap [of prev 1] by (auto simp: b_def not_max_iff)
    have lo: "e_index (hd (entries (log n))) < b" and hi: "unat b \<le> Suc (log_last (log n))"
      using True es(3) by (auto simp: vec_lookup_def vec_base_def vec_end_def word_less_nat_alt split: if_splits)
    define n2 where "n2 = n1\<lparr>log := merged b es (log n)\<rparr>"
    obtain acts2 where an: "append_new_entries e es n1 = Some (n2, acts2)" "sends_wf acts2"
      using append_new_entries_eq [of n1 b es e] n1 wf es lo by (auto simp: n2_def)
    have "node_wf n2"
      using n1 merged_wf [of "log n" b es] es lo hi wf by (simp add: n2_def node_wf_def)
    then obtain n3 acts3 where fc: "follow_commit e lc n2 = Some (n3, acts3)" "good (n3, acts3)"
      using follow_commit_returns [of n2 e lc] by (auto simp: returns_iff)
    show ?thesis
      using False True bf n1 wf an fc by (auto simp: handle_append_entries_def log_simps)
  next
    case no: False
    show ?thesis
    proof (cases ?lt)
      case None
      then show ?thesis
        using False bf n1 wf last by (simp add: handle_append_entries_def log_simps)
    next
      case (Some lt)
      obtain i' where "conflict_scan (log n) lt prev = Some i'"
        using conflict_scan_returns [of "log n" lt prev] wf by (auto simp: returns_iff)
      then show ?thesis
        using Some no False bf n1 wf by (auto simp: handle_append_entries_def log_simps)
    qed
  qed
qed (use wf in \<open>simp add: handle_append_entries_def\<close>)


lemma find_term_back_returns:
  "log_wf l \<Longrightarrow> returns (find_term_back l t is)
    (\<lambda>r. r = find (\<lambda>i. map_option e_term (lookup l (unat i)) = Some t) is)"
  by (induction "is") (auto simp: log_simps)

lemma backtrack_returns:
  assumes wf: "log_wf (log n)" and room: "log_room n"
  shows "returns (backtrack_next e from ct ci n) (\<lambda>_. True)"
proof (cases ct)
  case (Some c)
  let ?P = "\<lambda>i. map_option e_term (lookup (log n) (unat i)) = Some c"
  let ?is = "rev (range_incl (e_index (hd (entries (log n)))) (e_index (last (entries (log n)))))"
  have found: "find_term_back (log n) c ?is = Some (find ?P ?is)"
    using find_term_back_returns [OF wf, of c ?is] by (auto simp: returns_iff)
  have "returns (index_next (debug e) i) (\<lambda>_. True)" if "find ?P ?is = Some i" for i
  proof -
    from that have "i \<in> set ?is" unfolding find_Some_iff using nth_mem by blast
    then have "i \<le> e_index (last (entries (log n)))" by (simp add: range_incl_mem)
    with log_room_last [OF room wf] show ?thesis by (auto simp: not_max_iff word_le_nat_alt)
  qed
  with Some found wf show ?thesis
    by (auto simp: backtrack_next_def log_simps split: option.split)
qed (simp add: backtrack_next_def split: option.split)

lemma handle_append_entries_response_returns:
  assumes wf: "node_wf n" and room: "headroom n"
  shows "returns (handle_append_entries_response e from t s ct ci n) good"
proof (cases "role n \<noteq> Leader \<or> t \<noteq> current_term n")
  case False
  define lst where "lst = e_index (last (entries (log n)))"
  have lst: "index_next (debug e) lst = Some (lst + 1)"
    using log_room_last [of n] wf room by (simp add: lst_def)
  show ?thesis
  proof (cases s)
    case True
    have "node_wf (n\<lparr>next_index := (next_index n)(from \<mapsto> lst + 1), match_index := (match_index n)(from \<mapsto> lst)\<rparr>)"
      using wf by (simp add: node_wf_def)
    from advance_returns [OF this, of e] False True lst wf room show ?thesis
      by (auto simp: handle_append_entries_response_def log_simps lst_def headroom_def elim!: returns_mono)
  next
    case s: False
    obtain nxt where nxt: "backtrack_next e from ct ci n = Some nxt"
      using backtrack_returns [of n e "from" ct ci] wf room by (auto simp: returns_iff)
    let ?n1 = "n\<lparr>next_index := (next_index n)(from \<mapsto> (if nxt = 0 then 1 else nxt))\<rparr>"
    have n1: "node_wf ?n1" "log_room ?n1" using wf room by (auto simp: node_wf_def headroom_def log_room_def)
    obtain a where "replicate_to_peer ?n1 from = Some a" "\<forall>m. a = Send m \<longrightarrow> kind_wf (msg_kind m)"
      using replicate_returns [OF node_wf_log [OF n1(1)], of "from"] n1(2)
      by (auto simp: returns_iff simp del: fun_upd_apply)
    with n1 False s nxt show ?thesis
      by (simp add: handle_append_entries_response_def Let_def del: fun_upd_apply)
  qed
qed (use wf in \<open>auto simp: handle_append_entries_response_def\<close>)

section \<open>Snapshots\<close>

lemma handle_install_snapshot_returns:
  assumes "rng_ok e" and wf: "node_wf n"
  shows "returns (handle_install_snapshot e from t idx it dat done n) good"
proof (cases "t < current_term n")
  case False
  obtain n1 acts1 where bf: "become_follower e t (Some from) n = Some (n1, acts1)"
    and n1: "node_wf n1" "sends_wf acts1"
    using become_follower_returns [OF assms, of t "Some from"] by (auto simp: returns_iff)
  have "node_wf (n1\<lparr>log := log_install_snapshot \<lparr>last_included_index = idx, last_included_term = it\<rparr> (log n1),
    commit_index := idx, last_applied := idx\<rparr>)"
    using n1 by (simp add: node_wf_def log_install_snapshot_def log_wf_def vec_base_def)
  with False bf n1 show ?thesis
    by (auto simp: handle_install_snapshot_def Let_def)
qed (use wf in \<open>simp add: handle_install_snapshot_def\<close>)

lemma handle_install_snapshot_response_returns:
  assumes wf: "node_wf n" and room: "headroom n"
  shows "returns (handle_install_snapshot_response e from t n) good"
proof -
  let ?b = "e_index (hd (entries (log n)))"
  have "?b \<noteq> -1"
    using room wf by (cases "entries (log n)")
      (auto simp: headroom_def log_room_def not_max_iff vec_end_def vec_base_def)
  moreover have "node_wf (n\<lparr>match_index := (match_index n)(from \<mapsto> ?b), next_index := (next_index n)(from \<mapsto> ?b + 1)\<rparr>)"
    using wf by (simp add: node_wf_def)
  ultimately show ?thesis
    using advance_returns [of "n\<lparr>match_index := (match_index n)(from \<mapsto> ?b), next_index := (next_index n)(from \<mapsto> ?b + 1)\<rparr>" e]
      wf room
    by (auto simp: handle_install_snapshot_response_def log_simps headroom_def elim!: returns_mono)
qed

section \<open>The entry points\<close>

lemma propose_returns:
  assumes wf: "node_wf n" and room: "headroom n"
  shows "returns (propose e cmd n) good"
proof (cases "role n = Leader")
  case True
  define x where "x = \<lparr>e_index = e_index (last (entries (log n))) + 1, e_term = current_term n, e_command = cmd\<rparr>"
  define n1 where "n1 = n\<lparr>log := log n\<lparr>entries := entries (log n) @ [x]\<rparr>\<rparr>"
  note one = append_one_returns(1) [OF wf headroom_log [OF room], of "debug e" "current_term n" cmd, folded x_def]
    append_one_returns(2) [OF wf headroom_log [OF room], of "current_term n" cmd, folded x_def]
  have n1: "node_wf n1"
    using node_wf_append [OF wf one(2)] by (simp add: n1_def)
  obtain sends where sends: "broadcast_append_entries n1 = Some sends" "log_room n1 \<longrightarrow> sends_wf sends"
    using broadcast_returns [of n1 "peers n1"] n1 by (auto simp: broadcast_append_entries_def returns_iff)
  have "commit_index n1 \<noteq> -1" using room by (simp add: n1_def headroom_def)
  from advance_returns [OF n1 this, of e] obtain n2 acts where
    adv: "maybe_advance_commit_index e n1 = Some (n2, acts)" "node_wf n2" "sends_wf acts" "log_room n2 = log_room n1"
    by (auto simp: returns_iff log_room_def)
  show ?thesis
    using True one(1) sends adv n1 wf log_room_last [of n] room
    by (auto simp: propose_def log_simps Let_def x_def [symmetric] n1_def [symmetric])
qed (use wf in \<open>simp add: propose_def\<close>)

lemma compact_logs_returns:
  assumes wf: "node_wf n"
  shows "returns (compact_logs idx t dat n) good"
  using wf spec_compact_wf [of "entries (log n)" idx t] spec_compact_hd [of idx t "entries (log n)"]
  by (auto simp: compact_logs_def compact_eq node_wf_def log_wf_def vec_base_def max_def
      word_le_nat_alt word_less_nat_alt)

lemma tick_returns:
  assumes "rng_ok e" and wf: "node_wf n" and room: "headroom n"
  shows "returns (tick e n) good"
proof (cases "role n = Leader")
  case True
  have "add_u64 (debug e) (heartbeat_elapsed n) 1 = Some (heartbeat_elapsed n + 1)"
    using room plus_one_greater [of "heartbeat_elapsed n"] by (auto simp: headroom_def add_u64_def)
  moreover have "node_wf (n\<lparr>heartbeat_elapsed := h\<rparr>)" for h using wf by (simp add: node_wf_def)
  ultimately show ?thesis
    using True broadcast_returns [of "n\<lparr>heartbeat_elapsed := 0\<rparr>" "peers n"] wf
    by (auto simp: tick_def Let_def broadcast_heartbeats_def returns_iff)
next
  case False
  have "add_u64 (debug e) (election_elapsed n) 1 = Some (election_elapsed n + 1)"
    using room plus_one_greater [of "election_elapsed n"] by (auto simp: headroom_def add_u64_def)
  moreover have "node_wf (n\<lparr>election_elapsed := h\<rparr>)" for h using wf by (simp add: node_wf_def)
  ultimately show ?thesis
    using False start_pre_vote_returns [OF assms(1), of "n\<lparr>election_elapsed := 0\<rparr>"] room
    by (cases "role n") (auto simp: tick_def Let_def headroom_def log_room_def)
qed

lemma dispatch_returns:
  assumes "rng_ok e" and wf: "node_wf n" and room: "headroom n" and msg: "kind_wf (msg_kind m)"
  shows "returns (dispatch e m n) good"
proof (cases "msg_kind m")
  case (ClientRequest cmd)
  with propose_returns [OF wf room, of e cmd] wf show ?thesis
    by (auto simp: dispatch_def handle_client_request_def returns_iff)
qed (use assms in \<open>simp_all add: dispatch_def vote_handlers_return handle_append_entries_returns
    handle_append_entries_response_returns handle_install_snapshot_returns
    handle_install_snapshot_response_returns\<close>)

lemma step_returns:
  assumes "rng_ok e" and wf: "node_wf n" and room: "headroom n" and msg: "kind_wf (msg_kind m)"
    and tm: "msg_term m \<noteq> -1"
  shows "returns (step e m n) good"
proof -
  define exempt where "exempt = (is_pre_vote_msg (msg_kind m) \<or> is_client_msg (msg_kind m))"
  obtain n1 acts1 where n1: "(if msg_term m > current_term n \<and> \<not> exempt
      then become_follower e (msg_term m) None n else Some (n, [])) = Some (n1, acts1)"
    "node_wf n1" "headroom n1" "sends_wf acts1"
    using become_follower_returns [OF assms(1,2), of "msg_term m" None] wf room tm
    by (cases "msg_term m > current_term n \<and> \<not> exempt") (auto simp: returns_iff headroom_def log_room_def)
  show ?thesis
    using append_good [OF dispatch_returns [OF assms(1) n1(2,3) msg] n1(4)] n1
    by (simp add: step_def Let_def exempt_def [symmetric])
qed

end
