(* ===== verification/DemoNode.thy ===== *)
theory DemoNode
  imports NodeInv
begin

text \<open>
  Concrete environments, logs and nodes for the witnesses: a random number generator that counts, a
  log of two terms, a follower that holds it, and the leader and the candidate of the same state.
\<close>

definition demo_env :: "u64 env" where
  "demo_env = \<lparr>debug = True, seed_from_u64 = id, gen_range = (\<lambda>r n. (r mod n, r))\<rparr>"

lemma demo_env_ok: "debug demo_env" "rng_ok demo_env"
  by (auto simp: rng_ok_def demo_env_def word_mod_less_divisor word_neq_0_conv)

definition demo_entry :: "log_index \<Rightarrow> raft_term \<Rightarrow> bytes \<Rightarrow> log_entry" where
  "demo_entry i t c = \<lparr>e_index = i, e_term = t, e_command = c\<rparr>"

definition demo_log :: raft_log where
  "demo_log = \<lparr>entries = [demo_entry 0 0 [], demo_entry 1 1 [], demo_entry 2 1 [7], demo_entry 3 2 []]\<rparr>"

lemma demo_log_wf: "log_wf demo_log"
  by (simp add: demo_log_def log_wf_def vec_wf_def indexed_from_Cons demo_entry_def)

definition demo_follower :: "u64 raft_node" where
  "demo_follower = \<lparr>node_id = 2, peers = [1, 3], current_term = 2, voted_for = None, log = demo_log,
     commit_index = 2, last_applied = 2, role = Follower, next_index = Map.empty, match_index = Map.empty,
     election_timeout_base = 15, election_timeout = 17, election_elapsed = 15, heartbeat_interval = 4,
     heartbeat_elapsed = 0, votes_received = {}, pre_votes_received = {}, rng = 0, leader_id = Some 1\<rparr>"

definition demo_leader :: "u64 raft_node" where
  "demo_leader = demo_follower\<lparr>role := Leader, leader_id := Some 2, voted_for := Some 2,
     votes_received := {2, 3}, next_index := [1 \<mapsto> 2, 3 \<mapsto> 4], match_index := [1 \<mapsto> 1, 3 \<mapsto> 3]\<rparr>"

definition demo_candidate :: "u64 raft_node" where
  "demo_candidate = demo_follower\<lparr>role := Candidate, leader_id := None, voted_for := Some 2,
     votes_received := {2}\<rparr>"

lemma demo_nodes_wf: "node_wf demo_follower" "node_wf demo_leader" "node_wf demo_candidate"
  and demo_nodes_room: "headroom demo_follower" "headroom demo_leader" "headroom demo_candidate"
proof -
  have last: "log_base demo_log = 0" "log_last demo_log = 3"
    by (simp_all add: demo_log_def vec_base_def vec_end_def demo_entry_def)
  show "node_wf demo_follower" "node_wf demo_leader" "node_wf demo_candidate"
    using demo_log_wf last by (simp_all add: node_wf_def demo_follower_def demo_leader_def demo_candidate_def)
  show "headroom demo_follower" "headroom demo_leader" "headroom demo_candidate"
    using last by (simp_all add: headroom_def log_room_def demo_follower_def demo_leader_def demo_candidate_def)
qed

end
