(* ===== verification/LogSpec.thy ===== *)
theory LogSpec
  imports RaftLog DemoNode
begin

text \<open>
  The correctness of \<open>RaftLog\<close> operation by operation: reading is a search for the entry that carries
  the index, writing is described by what every index holds afterwards, and each panic is characterised.
\<close>

section \<open>Reading\<close>

lemma log_wf_distinct:
  assumes "log_wf l" and "x \<in> set (entries l)" "y \<in> set (entries l)" and "e_index x = e_index y"
  shows "x = y"
  using assms vec_lookup_mem [OF log_wf_vec [OF assms(1)]] by auto

lemma lookup_find:
  assumes "log_wf l"
  shows "lookup l (unat i) = find (\<lambda>x. e_index x = i) (entries l)"
proof (cases "find (\<lambda>x. e_index x = i) (entries l)")
  case None
  then have "\<forall>x \<in> set (entries l). e_index x \<noteq> i" by (simp add: find_None_iff)
  moreover have "x \<in> set (entries l) \<and> e_index x = i" if "lookup l (unat i) = Some x" for x
    using that vec_lookup_index [OF log_wf_vec [OF assms] that]
    by (auto simp: vec_lookup_def word_unat_eq_iff split: if_splits)
  ultimately show ?thesis using None by (cases "lookup l (unat i)") auto
next
  case (Some x)
  then have "x \<in> set (entries l)" "e_index x = i" by (auto simp: find_Some_iff)
  with Some vec_lookup_mem [OF log_wf_vec [OF assms], of x] show ?thesis by simp
qed

text \<open>Reading a log by index (\<open>entry_at\<close>, \<open>term_at\<close>), which computes an offset from the base,
  finds exactly the entry that carries the index, as a linear search would; it never panics.\<close>

theorem log_read_is_search:
  assumes "log_wf l"
  shows "entry_at l i = Some (find (\<lambda>x. e_index x = i) (entries l)) \<and>
    term_at l i = Some (map_option e_term (find (\<lambda>x. e_index x = i) (entries l)))"
  using assms by (simp add: entry_at_lookup term_at_lookup lookup_find)

theorem log_read_is_search_witness:
  "entry_at demo_log 2 = Some (Some (demo_entry 2 1 [7])) \<and> term_at demo_log 9 = Some None"
  using log_read_is_search [OF demo_log_wf, of 2] log_read_is_search [OF demo_log_wf, of 9]
  by (simp add: demo_log_def demo_entry_def)

text \<open>\<open>entries_from\<close> returns, in order, exactly the entries above the sentinel whose index is at
  least the given one, wherever that index lies; the slice never goes out of bounds.\<close>

theorem entries_from_exact:
  assumes "log_wf l"
  shows "entries_from l i = Some (filter (\<lambda>x. i \<le> e_index x) (tl (entries l)))"
  by (rule entries_from_filter [OF assms])

theorem entries_from_exact_witness:
  "entries_from demo_log 2 = Some [demo_entry 2 1 [7], demo_entry 3 2 []] \<and> entries_from demo_log 4 = Some []"
  using entries_from_exact [OF demo_log_wf, of 2] entries_from_exact [OF demo_log_wf, of 4]
  by (simp add: demo_log_def demo_entry_def word_le_nat_alt)

section \<open>Writing\<close>

lemma append_lookup:
  assumes "log_wf l"
  shows "lookup (l\<lparr>entries := entries l @ es\<rparr>) k =
    (if k \<le> log_last l then lookup l k else if k - Suc (log_last l) < length es
     then Some (es ! (k - Suc (log_last l))) else None)"
proof -
  have ne: "entries l \<noteq> []" using assms by simp
  then obtain len where "length (entries l) = Suc len" by (cases "length (entries l)") auto
  moreover have "vec_base (entries l @ es) = log_base l" using ne by (simp add: vec_base_def)
  ultimately show ?thesis
    by (auto simp: vec_lookup_def vec_end_def nth_append intro: arg_cong [where f = "nth es"])
qed

text \<open>\<open>append\<close> adds entries that continue the log: the log stays well formed, every old index holds
  what it held and the new indices hold the new entries. In the dev profile entries that do not start
  right after the last index make it panic.\<close>

theorem log_append_spec:
  assumes wf: "log_wf l" and new: "indexed_from (e_index (last (entries l)) + 1) es"
    and room: "log_last l + length es < 2 ^ 64"
  shows "\<exists>l'. log_append dbg es l = Some l' \<and> log_wf l' \<and>
    (\<forall>k. lookup l' k = (if k \<le> log_last l then lookup l k
       else if k - Suc (log_last l) < length es then Some (es ! (k - Suc (log_last l))) else None))"
proof (cases "es = []")
  case False
  have last: "e_index (last (entries l)) \<noteq> -1"
    using room False by (simp add: not_max_iff vec_wf_end log_wf_vec wf) (cases es; simp)
  have "e_index (hd es) = e_index (last (entries l)) + 1"
    using new False by (cases es) (simp_all add: indexed_from_Cons)
  then have "log_append dbg es l = Some (l\<lparr>entries := entries l @ es\<rparr>)"
    using wf last by (intro log_append_eq) auto
  with append_lookup [OF wf] log_append_wf [OF wf new] last show ?thesis by auto
next
  case True
  have "lookup l k = None" if "\<not> k \<le> log_last l" for k
    using that by (auto simp: vec_lookup_def vec_end_def)
  with True wf show ?thesis by (simp add: log_append_def)
qed

theorem log_append_spec_witness:
  "\<exists>l'. log_append True [demo_entry 4 2 [9]] demo_log = Some l' \<and> log_wf l' \<and> lookup l' 4 = Some (demo_entry 4 2 [9])"
proof -
  have d: "e_index (last (entries demo_log)) + 1 = 4" "log_last demo_log = 3"
    by (simp_all add: demo_log_def demo_entry_def vec_end_def vec_base_def)
  have "indexed_from (e_index (last (entries demo_log)) + 1) [demo_entry 4 2 [9]]"
    unfolding d by (simp add: indexed_from_Cons demo_entry_def)
  from log_append_spec [OF demo_log_wf this, of True] obtain l' where
    "log_append True [demo_entry 4 2 [9]] demo_log = Some l'" "log_wf l'"
    "\<forall>k. lookup l' k = (if k \<le> 3 then lookup demo_log k
       else if k - 4 < 1 then Some ([demo_entry 4 2 [9]] ! (k - 4)) else None)" by (auto simp: d)
  then show ?thesis by (intro exI [of _ l']) simp
qed

text \<open>C38: \<open>truncate_and_append\<close> at an index above the base and at most one past the end keeps what is
  below the index, holds exactly the new entries from there on, and keeps the log well formed; at or
  below the base its assertion fails.\<close>

theorem log_truncate_spec:
  assumes wf: "log_wf l" and new: "indexed_from i es" and hi: "unat i \<le> Suc (log_last l)"
  shows "if e_index (hd (entries l)) < i
    then \<exists>l'. log_truncate_and_append i es l = Some l' \<and> log_wf l' \<and>
      (\<forall>k. lookup l' k = (if k < unat i then lookup l k
         else if k < unat i + length es then Some (es ! (k - unat i)) else None))
    else log_truncate_and_append i es l = None"
proof (cases "e_index (hd (entries l)) < i")
  case True
  have "\<forall>k. lookup (l\<lparr>entries := spec_truncate i es (entries l)\<rparr>) k =
      (if k < unat i then lookup l k else if k < unat i + length es then Some (es ! (k - unat i)) else None)"
    using spec_truncate_lookup [OF log_wf_vec [OF wf] True hi] by simp
  moreover have "log_wf (l\<lparr>entries := spec_truncate i es (entries l)\<rparr>)"
    using spec_truncate_wf [OF log_wf_vec [OF wf] True hi new] by (simp add: log_wf_def)
  ultimately show ?thesis using True by (simp add: truncate_and_append_eq [OF wf True])
qed (use wf in \<open>simp add: log_truncate_and_append_def log_simps\<close>)

theorem log_truncate_spec_witness:
  "(\<exists>l'. log_truncate_and_append 2 [demo_entry 2 2 [5]] demo_log = Some l' \<and>
      lookup l' 1 = Some (demo_entry 1 1 []) \<and> lookup l' 2 = Some (demo_entry 2 2 [5]) \<and> lookup l' 3 = None) \<and>
   log_truncate_and_append 0 [] demo_log = None"
proof -
  have i: "indexed_from 2 [demo_entry 2 2 [5]]" by (simp add: indexed_from_Cons demo_entry_def)
  have d: "log_last demo_log = 3" "hd (entries demo_log) = demo_entry 0 0 []"
    "lookup demo_log 1 = Some (demo_entry 1 1 [])"
    by (simp_all add: demo_log_def vec_end_def vec_base_def vec_lookup_def demo_entry_def)
  show ?thesis
    using log_truncate_spec [OF demo_log_wf i] log_truncate_spec [OF demo_log_wf indexed_from_Nil, of 0] d
    by (auto simp: demo_entry_def)
qed

text \<open>C39: Compaction up to an index above the base leaves a well-formed log whose base is that index with
  the given term, without the entries below and with every entry above; at or below the base it changes
  nothing. It never panics, also beyond the end of the log.\<close>

theorem log_compact_spec:
  assumes "log_wf l"
  shows "\<exists>l'. log_compact i t l = Some l' \<and> log_wf l' \<and>
    (if i \<le> e_index (hd (entries l)) then l' = l
     else \<forall>k. lookup l' k = (if k < unat i then None
       else if k = unat i then Some (sentinel_entry i t) else lookup l k))"
proof -
  have "log_wf (l\<lparr>entries := spec_compact i t (entries l)\<rparr>)"
    using spec_compact_wf [OF log_wf_vec [OF assms]] by (simp add: log_wf_def)
  with assms spec_compact_lookup [OF log_wf_vec [OF assms], of i t] show ?thesis
    by (simp add: compact_eq not_le) (simp add: spec_compact_def)
qed

theorem log_compact_spec_witness:
  "\<exists>l'. log_compact 2 1 demo_log = Some l' \<and> lookup l' 1 = None \<and> lookup l' 2 = Some (sentinel_entry 2 1) \<and>
     lookup l' 3 = Some (demo_entry 3 2 [])"
proof -
  have d: "hd (entries demo_log) = demo_entry 0 0 []" "lookup demo_log 3 = Some (demo_entry 3 2 [])"
    by (simp_all add: demo_log_def vec_base_def vec_lookup_def demo_entry_def)
  from log_compact_spec [OF demo_log_wf, of 2 1] show ?thesis
    by (auto simp: d demo_entry_def intro: exI)
qed

text \<open>Restoring a log from the snapshot position and the entries it reports gives the log back: what
  a node would have to store to rebuild its log is the pair of \<open>snapshot_meta\<close> and \<open>entries_from\<close> 0.\<close>

theorem log_restore_roundtrip:
  assumes "log_wf l" and "e_command (hd (entries l)) = []"
    and "e_index (hd (entries l)) = sentinel_index \<longrightarrow> e_term (hd (entries l)) = term_zero"
  shows "\<exists>m es. log_snapshot_meta l = Some m \<and> entries_from l 0 = Some es \<and>
    log_restore (case m of Some meta \<Rightarrow> meta
      | None \<Rightarrow> \<lparr>last_included_index = sentinel_index, last_included_term = term_zero\<rparr>) es = l"
proof -
  obtain x xs where "entries l = x # xs" using assms(1) by (cases "entries l") auto
  then have l: "l = \<lparr>entries = x # xs\<rparr>" by (cases l) simp
  then have es: "entries_from l 0 = Some xs" 
    using entries_from_filter [OF assms(1), of 0] by simp
  have x: "sentinel_entry (e_index x) (e_term x) = x"
    using assms(2) l by (cases x) (simp add: sentinel_entry_def)
  show ?thesis
  proof (cases "e_index x = sentinel_index")
    case True
    with assms(3) l x have "sentinel_entry sentinel_index term_zero = x" by simp
    with True l es show ?thesis by (simp add: log_snapshot_meta_def log_restore_def)
  next
    case False
    with l es x show ?thesis by (simp add: log_snapshot_meta_def log_restore_def)
  qed
qed

theorem log_restore_roundtrip_witness:
  "log_restore \<lparr>last_included_index = 0, last_included_term = 0\<rparr>
     [demo_entry 1 1 [], demo_entry 2 1 [7], demo_entry 3 2 []] = demo_log"
proof -
  have "e_command (hd (entries demo_log)) = []"
    "e_index (hd (entries demo_log)) = sentinel_index \<longrightarrow> e_term (hd (entries demo_log)) = term_zero"
    by (simp_all add: demo_log_def demo_entry_def term_zero_def)
  from log_restore_roundtrip [OF demo_log_wf this] show ?thesis
    by (simp add: log_snapshot_meta_def entries_from_filter [OF demo_log_wf])
      (simp add: demo_log_def demo_entry_def sentinel_index_def term_zero_def)
qed

end
