(* ===== verification/SimNetwork.thy ===== *)
theory SimNetwork
  imports NodeState "HOL-Library.Multiset"
begin

text \<open>
  \<open>raft-sim/src/network.rs\<close>: the simulated network. The messages in flight are a \<open>BinaryHeap\<close> ordered
  by delivery tick; which of several messages due at the same tick comes first is the heap's choice,
  the field \<open>heap_top\<close> of the environment. The rates are \<open>f64\<close>, kept as their 64 bits; drawing with them
  is the \<open>rand\<close> crate's, which panics on a rate outside \<open>[0, 1]\<close>.
\<close>

section \<open>The environment of the simulator\<close>

record scheduled_message =
  delivery_tick :: u64
  sm_msg :: message

record 'r sim_env =
  core :: "'r env"                                     \<comment> \<open>what the nodes use\<close>
  gen_u64 :: "'r \<Rightarrow> u64 \<times> 'r"                         \<comment> \<open>\<open>rng.gen()\<close>\<close>
  gen_bool :: "'r \<Rightarrow> u64 \<Rightarrow> (bool \<times> 'r) option"       \<comment> \<open>\<open>rng.gen_bool(p)\<close>\<close>
  gen_range_incl :: "'r \<Rightarrow> u64 \<Rightarrow> u64 \<Rightarrow> u64 \<times> 'r"   \<comment> \<open>\<open>rng.gen_range(a..=b)\<close>\<close>
  heap_top :: "scheduled_message list \<Rightarrow> nat"          \<comment> \<open>the position \<open>peek\<close> and \<open>pop\<close> look at\<close>
  key_order :: "u64 \<Rightarrow> node_id list \<Rightarrow> node_id list"    \<comment> \<open>the iteration order of a \<open>HashMap\<close> at a tick\<close>

definition heap_ok :: "'r sim_env \<Rightarrow> bool" where
  \<comment> \<open>what \<open>BinaryHeap\<close> documents: the top is a greatest element, here one that is due first\<close>
  "heap_ok e \<longleftrightarrow> (\<forall>ms. ms \<noteq> [] \<longrightarrow> heap_top e ms < length ms \<and>
     (\<forall>m \<in> set ms. delivery_tick (ms ! heap_top e ms) \<le> delivery_tick m))"

section \<open>The network\<close>

record sim_network =
  in_flight :: "scheduled_message list"
  partitions :: "(node_id \<times> node_id) set"
  drop_rate :: u64
  duplicate_rate :: u64
  max_delay_ticks :: u64

definition network_new :: sim_network where
  "network_new = \<lparr>in_flight = [], partitions = {}, drop_rate = 0, duplicate_rate = 0, max_delay_ticks = 3\<rparr>"

definition partition_link :: "node_id \<Rightarrow> node_id \<Rightarrow> sim_network \<Rightarrow> sim_network" where
  "partition_link from to w = w\<lparr>partitions := insert (from, to) (partitions w)\<rparr>"

definition heal_all :: "sim_network \<Rightarrow> sim_network" where
  "heal_all w = w\<lparr>partitions := {}\<rparr>"

definition network_send ::
  "'r sim_env \<Rightarrow> message \<Rightarrow> u64 \<Rightarrow> sim_network \<times> 'r \<Rightarrow> (sim_network \<times> 'r) option" where
  "network_send e m current_tick = (\<lambda>(w, r).
     if (msg_from m, msg_to m) \<in> partitions w then Some (w, r)
     else do {
       (dropped, r1) \<leftarrow> gen_bool e r (drop_rate w);
       if dropped then Some (w, r1)
       else do {
         let (delay, r2) = (if max_delay_ticks w = 0 then (0, r1) else gen_range_incl e r1 0 (max_delay_ticks w));
         due \<leftarrow> add_u64 (debug (core e)) current_tick delay;
         let w1 = w\<lparr>in_flight := \<lparr>delivery_tick = due, sm_msg = m\<rparr> # in_flight w\<rparr>;
         (duplicated, r3) \<leftarrow> gen_bool e r2 (duplicate_rate w1);
         if duplicated
         then do {
           let (more, r4) = gen_range_incl e r3 1 3;
           extra_delay \<leftarrow> add_u64 (debug (core e)) delay more;
           due2 \<leftarrow> add_u64 (debug (core e)) current_tick extra_delay;
           Some (w1\<lparr>in_flight := \<lparr>delivery_tick = due2, sm_msg = m\<rparr> # in_flight w1\<rparr>, r4)
         }
         else Some (w1, r3)
       }
     })"

definition remove_nth :: "nat \<Rightarrow> 'a list \<Rightarrow> 'a list" where
  "remove_nth k xs = take k xs @ drop (Suc k) xs"

fun drain_loop :: "'r sim_env \<Rightarrow> u64 \<Rightarrow> nat \<Rightarrow> scheduled_message list \<Rightarrow> message list \<times> scheduled_message list" where
  \<comment> \<open>\<open>while let Some(msg) = peek()\<close>; every turn pops, so the length of the heap is enough fuel\<close>
  "drain_loop e t 0 ms = ([], ms)"
| "drain_loop e t (Suc fuel) ms =
     (if ms = [] then ([], ms)
      else let k = heap_top e ms in
        if delivery_tick (ms ! k) \<le> t
        then let (due, rest) = drain_loop e t fuel (remove_nth k ms) in (sm_msg (ms ! k) # due, rest)
        else ([], ms))"

definition drain_due :: "'r sim_env \<Rightarrow> u64 \<Rightarrow> sim_network \<Rightarrow> message list \<times> sim_network" where
  "drain_due e current_tick w =
     (let (due, rest) = drain_loop e current_tick (length (in_flight w)) (in_flight w)
      in (due, w\<lparr>in_flight := rest\<rparr>))"

section \<open>What arrives was sent\<close>

definition carried :: "sim_network \<Rightarrow> message set" where
  "carried w = sm_msg ` set (in_flight w)"

definition range_ok :: "'r sim_env \<Rightarrow> bool" where
  \<comment> \<open>what \<open>gen_range(a..=b)\<close> documents\<close>
  "range_ok e \<longleftrightarrow> (\<forall>r a b. a \<le> b \<longrightarrow> a \<le> fst (gen_range_incl e r a b) \<and> fst (gen_range_incl e r a b) \<le> b)"

lemma network_sendE:
  assumes "network_send e m t (w, r) = Some (w', r')"
  obtains (partitioned) "(msg_from m, msg_to m) \<in> partitions w" "w' = w" "r' = r"
  | (dropped) "gen_bool e r (drop_rate w) = Some (True, r')" "w' = w"
  | (once) delay r1 r2 where "gen_bool e r (drop_rate w) = Some (False, r1)"
    "(if max_delay_ticks w = 0 then (0, r1) else gen_range_incl e r1 0 (max_delay_ticks w)) = (delay, r2)"
    "add_u64 (debug (core e)) t delay = Some (t + delay)" "gen_bool e r2 (duplicate_rate w) = Some (False, r')"
    "w' = w\<lparr>in_flight := \<lparr>delivery_tick = t + delay, sm_msg = m\<rparr> # in_flight w\<rparr>"
  | (twice) delay r1 r2 r3 more where "gen_bool e r (drop_rate w) = Some (False, r1)"
    "(if max_delay_ticks w = 0 then (0, r1) else gen_range_incl e r1 0 (max_delay_ticks w)) = (delay, r2)"
    "add_u64 (debug (core e)) t delay = Some (t + delay)" "gen_bool e r2 (duplicate_rate w) = Some (True, r3)"
    "gen_range_incl e r3 1 3 = (more, r')" "add_u64 (debug (core e)) t (delay + more) = Some (t + (delay + more))"
    "add_u64 (debug (core e)) delay more = Some (delay + more)"
    "w' = w\<lparr>in_flight := \<lparr>delivery_tick = t + (delay + more), sm_msg = m\<rparr>
       # \<lparr>delivery_tick = t + delay, sm_msg = m\<rparr> # in_flight w\<rparr>"
proof (cases "(msg_from m, msg_to m) \<in> partitions w")
  case True
  with assms show ?thesis by (intro partitioned) (auto simp: network_send_def)
next
  case False
  with assms obtain dr r1 where dr: "gen_bool e r (drop_rate w) = Some (dr, r1)"
    unfolding network_send_def by (auto simp: bind_eq_Some_conv)
  show ?thesis
  proof (cases dr)
    case True
    with assms False dr show ?thesis by (intro dropped) (auto simp: network_send_def)
  next
    case dr': False
    obtain delay r2 where delay:
      "(if max_delay_ticks w = 0 then (0, r1) else gen_range_incl e r1 0 (max_delay_ticks w)) = (delay, r2)"
      by fastforce
    from assms False dr dr' obtain due where due: "add_u64 (debug (core e)) t delay = Some due"
      by (cases "add_u64 (debug (core e)) t delay") (simp_all add: network_send_def delay)
    have due': "due = t + delay" using add_u64_result [OF due] .
    let ?w1 = "w\<lparr>in_flight := \<lparr>delivery_tick = due, sm_msg = m\<rparr> # in_flight w\<rparr>"
    from assms False dr dr' due obtain dup r3 where dup: "gen_bool e r2 (duplicate_rate w) = Some (dup, r3)"
      by (cases "gen_bool e r2 (duplicate_rate w)") (auto simp: network_send_def delay)
    obtain more r4 where more: "gen_range_incl e r3 1 3 = (more, r4)" by fastforce
    show ?thesis
    proof (cases dup)
      case True
      from assms False dr dr' due dup True obtain x where x: "add_u64 (debug (core e)) delay more = Some x"
        by (cases "add_u64 (debug (core e)) delay more") (simp_all add: network_send_def delay more)
      from assms False dr dr' due dup True x obtain y where y: "add_u64 (debug (core e)) t x = Some y"
        by (cases "add_u64 (debug (core e)) t x") (simp_all add: network_send_def delay more)
      note sums = add_u64_result [OF x] add_u64_result [OF y]
      have "w' = w\<lparr>in_flight := \<lparr>delivery_tick = y, sm_msg = m\<rparr> # \<lparr>delivery_tick = due, sm_msg = m\<rparr> # in_flight w\<rparr>"
        "r' = r4"
        using assms False dr dr' due dup True x y by (simp_all add: network_send_def delay more)
      then show ?thesis
        using dr dr' delay due due' dup True more x y sums by (intro twice) simp_all
    next
      case False
      with assms \<open>(msg_from m, msg_to m) \<notin> partitions w\<close> dr dr' due dup
      have "w' = ?w1" "r' = r3" by (simp_all add: network_send_def delay)
      then show ?thesis
        using dr dr' delay due due' dup False by (intro once) simp_all
    qed
  qed
qed

lemma network_send_carried:
  "network_send e m t (w, r) = Some (w', r') \<Longrightarrow> carried w' \<subseteq> insert m (carried w)"
  by (erule network_sendE) (auto simp: carried_def)

lemma network_send_schedule:
  assumes "network_send e m t (w, r) = Some (w', r')" and "range_ok e"
    and "unat t + unat (max_delay_ticks w) + 3 < 2 ^ 64"
  obtains new where "w' = w\<lparr>in_flight := new @ in_flight w\<rparr>" "length new \<le> 2"
    "\<forall>x \<in> set new. sm_msg x = m \<and> unat t \<le> unat (delivery_tick x) \<and>
       unat (delivery_tick x) \<le> unat t + unat (max_delay_ticks w) + 3"
proof -
  have delay: "unat (t + delay) = unat t + unat delay" "unat delay \<le> unat (max_delay_ticks w)"
    if "(if max_delay_ticks w = 0 then (0, r1) else gen_range_incl e r1 0 (max_delay_ticks w)) = (delay, r2)"
    for delay r1 r2
  proof -
    have "delay \<le> max_delay_ticks w"
      using that assms(2) unfolding range_ok_def by (metis fst_conv word_zero_le order_refl)
    then show le: "unat delay \<le> unat (max_delay_ticks w)" by (simp add: word_le_nat_alt)
    with assms(3) unat_plus_no_wrap [of t "unat delay"] show "unat (t + delay) = unat t + unat delay" by simp
  qed
  have more: "unat more \<le> 3" if "gen_range_incl e r3 1 3 = (more, r')" for more r3 r'
  proof -
    have "(1 :: u64) \<le> 3" by (simp add: word_le_nat_alt)
    then have "more \<le> 3" using that assms(2) unfolding range_ok_def by (metis fst_conv)
    then show ?thesis by (simp add: word_le_nat_alt)
  qed
  from assms(1) show ?thesis
  proof (cases rule: network_sendE)
    case partitioned
    then show ?thesis by (intro that [of "[]"]) auto
  next
    case dropped
    then show ?thesis by (intro that [of "[]"]) auto
  next
    case (once delay r1 r2)
    with delay [OF once(2)] show ?thesis
      by (intro that [of "[\<lparr>delivery_tick = t + delay, sm_msg = m\<rparr>]"]) auto
  next
    case (twice delay r1 r2 r3 more)
    note d = delay [OF twice(2)] and k = more [OF twice(5)]
    have u: "unat (delay + more) = unat delay + unat more"
      using unat_plus_no_wrap [of delay "unat more"] d k assms(3) by simp
    have "unat (t + (delay + more)) = unat t + unat delay + unat more"
      using unat_plus_no_wrap [of t "unat (delay + more)"] d k u assms(3) by simp
    with twice d k show ?thesis
      by (intro that [of "[\<lparr>delivery_tick = t + (delay + more), sm_msg = m\<rparr>, \<lparr>delivery_tick = t + delay, sm_msg = m\<rparr>]"])
        auto
  qed
qed

lemma remove_nth_length [simp]: "k < length xs \<Longrightarrow> length (remove_nth k xs) = length xs - 1"
  by (simp add: remove_nth_def)

lemma mset_remove_nth: "k < length xs \<Longrightarrow> mset xs = add_mset (xs ! k) (mset (remove_nth k xs))"
  by (subst id_take_nth_drop [of k xs]) (simp_all add: remove_nth_def)

lemma drain_loop_spec:
  assumes "heap_ok e" and "length ms \<le> fuel"
  obtains ds rest where "drain_loop e t fuel ms = (map sm_msg ds, rest)"
    "mset ms = mset ds + mset rest" "sorted (map delivery_tick ds)"
    "\<forall>x \<in> set ds. delivery_tick x \<le> t" "\<forall>x \<in> set rest. t < delivery_tick x"
  using assms(2)
proof (induction fuel arbitrary: ms thesis)
  case 0
  then show ?case by (intro "0.prems"(1) [of "[]" "[]"]) auto
next
  case (Suc fuel)
  let ?k = "heap_top e ms"
  consider (empty) "ms = []" | (due) "ms \<noteq> []" "delivery_tick (ms ! ?k) \<le> t"
    | (wait) "ms \<noteq> []" "t < delivery_tick (ms ! ?k)" by fastforce
  then show ?case
  proof cases
    case empty
    then show ?thesis by (intro Suc.prems(1) [of "[]" "[]"]) auto
  next
    case due
    have k: "?k < length ms" "\<forall>m \<in> set ms. delivery_tick (ms ! ?k) \<le> delivery_tick m"
      using assms(1) due(1) by (auto simp: heap_ok_def)
    have "length (remove_nth ?k ms) \<le> fuel" using Suc.prems(2) k by simp
    from Suc.IH [OF _ this] obtain ds rest where ih: "drain_loop e t fuel (remove_nth ?k ms) = (map sm_msg ds, rest)"
      "mset (remove_nth ?k ms) = mset ds + mset rest" "sorted (map delivery_tick ds)"
      "\<forall>x \<in> set ds. delivery_tick x \<le> t" "\<forall>x \<in> set rest. t < delivery_tick x" by blast
    have ms: "mset ms = mset (ms ! ?k # ds) + mset rest"
      using mset_remove_nth [OF k(1)] ih(2) by simp
    have "set ds \<subseteq> set ms" using arg_cong [OF ms, of set_mset] by auto
    with k(2) ih ms due show ?thesis
      by (intro Suc.prems(1) [of "ms ! ?k # ds" rest]) (auto simp: Let_def)
  next
    case wait
    have "\<forall>m \<in> set ms. delivery_tick (ms ! ?k) \<le> delivery_tick m"
      using assms(1) wait(1) by (auto simp: heap_ok_def)
    with wait show ?thesis
      by (intro Suc.prems(1) [of "[]" ms]) (auto simp: Let_def not_le dest: less_le_trans)
  qed
qed

lemma drain_due_carried:
  assumes "heap_ok e" and "drain_due e t w = (due, w')"
  shows "set due \<subseteq> carried w" and "carried w' \<subseteq> carried w"
proof -
  obtain ds rest where d: "drain_loop e t (length (in_flight w)) (in_flight w) = (map sm_msg ds, rest)"
    "mset (in_flight w) = mset ds + mset rest"
    by (rule drain_loop_spec [OF assms(1) order_refl])
  from arg_cong [OF d(2), of set_mset] have "set (in_flight w) = set ds \<union> set rest" by simp
  with d(1) assms(2) show "set due \<subseteq> carried w" "carried w' \<subseteq> carried w"
    by (auto simp: drain_due_def carried_def)
qed

end
