(* ===== verification/SimInvariants.thy ===== *)
theory SimInvariants
  imports NodeInv
begin

text \<open>
  \<open>raft-sim/src/invariants.rs\<close>: the checks the simulator runs after every step. A \<open>HashMap\<close> of nodes is
  the list of its values in iteration order; \<open>Err(String)\<close> carries the data the message is made of.
\<close>

section \<open>The checks\<close>

datatype violation =
    ElectionSafety node_id node_id raft_term
  | LogMatching node_id node_id log_index raft_term
  | StateMachineSafety node_id log_index raft_term raft_term

record safety_invariants =
  term_leaders :: "raft_term \<rightharpoonup> node_id"
  committed_entries :: "log_index \<rightharpoonup> raft_term \<times> bytes"

definition invariants_new :: safety_invariants where
  "invariants_new = \<lparr>term_leaders = Map.empty, committed_entries = Map.empty\<rparr>"

fun check_election_safety ::
  "'r raft_node list \<Rightarrow> safety_invariants \<Rightarrow> safety_invariants \<times> (violation + unit)" where
  "check_election_safety [] iv = (iv, Inr ())"
| "check_election_safety (n # ns) iv =
     (if role n = Leader
      then case term_leaders iv (current_term n) of
             Some existing_leader \<Rightarrow>
               if existing_leader \<noteq> node_id n
               then (iv, Inl (ElectionSafety existing_leader (node_id n) (current_term n)))
               else check_election_safety ns iv
           | None \<Rightarrow>
               check_election_safety ns
                 (iv\<lparr>term_leaders := (term_leaders iv)(current_term n \<mapsto> node_id n)\<rparr>)
      else check_election_safety ns iv)"

fun match_scan :: "'r raft_node \<Rightarrow> 'r raft_node \<Rightarrow> log_index list \<Rightarrow> (violation + unit) option" where
  \<comment> \<open>the innermost loop of \<open>check_log_matching\<close>\<close>
  "match_scan n1 n2 [] = Some (Inr ())"
| "match_scan n1 n2 (index # is) = do {
     term1 \<leftarrow> term_at (log n1) index;
     term2 \<leftarrow> term_at (log n2) index;
     first1 \<leftarrow> first_index (log n1);
     first2 \<leftarrow> first_index (log n2);
     if term1 \<noteq> None \<and> term1 = term2 \<and> index > first1 \<and> index > first2
     then do {
       e1 \<leftarrow> Option.bind (entry_at (log n1) index) id;
       e2 \<leftarrow> Option.bind (entry_at (log n2) index) id;
       if e_command e1 \<noteq> e_command e2
       then Some (Inl (LogMatching (node_id n1) (node_id n2) index (the term1)))
       else match_scan n1 n2 is
     }
     else match_scan n1 n2 is
   }"

definition match_pair :: "'r raft_node \<Rightarrow> 'r raft_node \<Rightarrow> (violation + unit) option" where
  "match_pair n1 n2 = do {
     last1 \<leftarrow> last_index (log n1);
     last2 \<leftarrow> last_index (log n2);
     match_scan n1 n2 (range_incl 1 (min last1 last2))
   }"

fun match_against :: "'r raft_node \<Rightarrow> 'r raft_node list \<Rightarrow> (violation + unit) option" where
  \<comment> \<open>the loop over \<open>j\<close>\<close>
  "match_against n1 [] = Some (Inr ())"
| "match_against n1 (n2 # ns) = do {
     r \<leftarrow> match_pair n1 n2;
     case r of Inl v \<Rightarrow> Some (Inl v) | Inr _ \<Rightarrow> match_against n1 ns
   }"

fun check_log_matching :: "'r raft_node list \<Rightarrow> (violation + unit) option" where
  "check_log_matching [] = Some (Inr ())"
| "check_log_matching (n1 # ns) = do {
     r \<leftarrow> match_against n1 ns;
     case r of Inl v \<Rightarrow> Some (Inl v) | Inr _ \<Rightarrow> check_log_matching ns
   }"

definition check_leader_append_only :: "'r raft_node list \<Rightarrow> violation + unit" where
  "check_leader_append_only ns = Inr ()"

fun applied_scan ::
  "'r raft_node \<Rightarrow> log_index list \<Rightarrow> safety_invariants \<Rightarrow> (safety_invariants \<times> (violation + unit)) option" where
  \<comment> \<open>the inner loop of \<open>check_state_machine_safety\<close>\<close>
  "applied_scan n [] iv = Some (iv, Inr ())"
| "applied_scan n (index # is) iv = do {
     x \<leftarrow> entry_at (log n) index;
     case x of
       None \<Rightarrow> applied_scan n is iv
     | Some entry \<Rightarrow>
         if e_command entry = [] then applied_scan n is iv
         else case committed_entries iv index of
           Some (t, cmd) \<Rightarrow>
             if t \<noteq> e_term entry \<or> cmd \<noteq> e_command entry
             then Some (iv, Inl (StateMachineSafety (node_id n) index (e_term entry) t))
             else applied_scan n is iv
         | None \<Rightarrow>
             applied_scan n is
               (iv\<lparr>committed_entries := (committed_entries iv)(index \<mapsto> (e_term entry, e_command entry))\<rparr>)
   }"

fun check_state_machine_safety ::
  "'r raft_node list \<Rightarrow> safety_invariants \<Rightarrow> (safety_invariants \<times> (violation + unit)) option" where
  "check_state_machine_safety [] iv = Some (iv, Inr ())"
| "check_state_machine_safety (n # ns) iv =
     (if last_applied n = sentinel_index then check_state_machine_safety ns iv
      else do {
        (iv1, r) \<leftarrow> applied_scan n (range_incl 1 (last_applied n)) iv;
        case r of Inl v \<Rightarrow> Some (iv1, Inl v) | Inr _ \<Rightarrow> check_state_machine_safety ns iv1
      })"

definition verify_safety ::
  "'r raft_node list \<Rightarrow> safety_invariants \<Rightarrow> (safety_invariants \<times> (violation + unit)) option" where
  "verify_safety ns iv =
     (case check_election_safety ns iv of
        (iv1, Inl v) \<Rightarrow> Some (iv1, Inl v)
      | (iv1, Inr _) \<Rightarrow> do {
          r \<leftarrow> check_log_matching ns;
          case r of
            Inl v \<Rightarrow> Some (iv1, Inl v)
          | Inr _ \<Rightarrow>
              (case check_leader_append_only ns of
                 Inl v \<Rightarrow> Some (iv1, Inl v)
               | Inr _ \<Rightarrow> check_state_machine_safety ns iv1)
        })"

section \<open>What the checks accept\<close>

lemma check_election_keeps [simp]: "committed_entries (fst (check_election_safety ns iv)) = committed_entries iv"
  by (induction ns iv rule: check_election_safety.induct) (auto split: option.split)

lemma check_election_accepts:
  assumes "\<forall>n \<in> set ns. role n = Leader \<longrightarrow> leads (current_term n) (node_id n)"
    and "\<forall>t i. term_leaders iv t = Some i \<longrightarrow> leads t i"
    and "\<forall>t i j. leads t i \<longrightarrow> leads t j \<longrightarrow> i = j"
  shows "\<exists>iv'. check_election_safety ns iv = (iv', Inr ()) \<and> (\<forall>t i. term_leaders iv' t = Some i \<longrightarrow> leads t i)"
  using assms
proof (induction ns iv rule: check_election_safety.induct)
  case (2 n ns iv)
  consider (other) "role n \<noteq> Leader" | (first) "role n = Leader" "term_leaders iv (current_term n) = None"
    | (known) i where "role n = Leader" "term_leaders iv (current_term n) = Some i"
    by (cases "role n = Leader"; cases "term_leaders iv (current_term n)") auto
  then show ?case
  proof cases
    case other
    from "2.IH"(3) [OF other] "2.prems" other show ?thesis by simp
  next
    case first
    let ?iv = "iv\<lparr>term_leaders := (term_leaders iv)(current_term n \<mapsto> node_id n)\<rparr>"
    have "\<forall>t i. term_leaders ?iv t = Some i \<longrightarrow> leads t i" using "2.prems"(1,2) first(1) by simp
    from "2.IH"(1) [OF first _ this "2.prems"(3)] "2.prems"(1) first show ?thesis by simp
  next
    case known
    have "leads (current_term n) i" "leads (current_term n) (node_id n)" using "2.prems"(1,2) known by simp_all
    then have i: "i = node_id n" using "2.prems"(3) by blast
    from "2.IH"(2) [OF known _ _ "2.prems"(2,3)] "2.prems"(1) i known show ?thesis by simp
  qed
qed simp

definition entries_match :: "raft_log \<Rightarrow> raft_log \<Rightarrow> bool" where
  \<comment> \<open>two logs agree on the command wherever they agree on the term, above both bases\<close>
  "entries_match l1 l2 \<longleftrightarrow>
     (\<forall>k x y. lookup l1 k = Some x \<longrightarrow> lookup l2 k = Some y \<longrightarrow> log_base l1 < k \<longrightarrow> log_base l2 < k \<longrightarrow>
        e_term x = e_term y \<longrightarrow> e_command x = e_command y)"

lemma match_scan_spec:
  assumes "log_wf (log n1)" "log_wf (log n2)"
  shows "returns (match_scan n1 n2 is) (\<lambda>r. r = Inr () \<longleftrightarrow>
    (\<forall>i \<in> set is. \<forall>x y. lookup (log n1) (unat i) = Some x \<longrightarrow> lookup (log n2) (unat i) = Some y \<longrightarrow>
       log_base (log n1) < unat i \<longrightarrow> log_base (log n2) < unat i \<longrightarrow> e_term x = e_term y \<longrightarrow>
       e_command x = e_command y))"
proof (induction "is")
  case (Cons i "is")
  then show ?case
    using assms
    by (cases "lookup (log n1) (unat i)"; cases "lookup (log n2) (unat i)")
      (auto simp: log_simps vec_base_def word_less_nat_alt elim!: returns_mono)
qed simp

lemma match_pair_spec:
  assumes wf: "log_wf (log n1)" "log_wf (log n2)"
  shows "returns (match_pair n1 n2) (\<lambda>r. r = Inr () \<longleftrightarrow> entries_match (log n1) (log n2))"
proof -
  let ?l1 = "e_index (last (entries (log n1)))" and ?l2 = "e_index (last (entries (log n2)))"
  have ends: "unat ?l1 = log_last (log n1)" "unat ?l2 = log_last (log n2)"
    using wf by (simp_all add: vec_wf_end log_wf_vec)
  have in_range: "\<exists>i \<in> set (range_incl 1 (min ?l1 ?l2)). unat i = k"
    if "lookup (log n1) k = Some x" "lookup (log n2) k = Some y" "log_base (log n1) < k" for k x y
  proof -
    have k: "k \<le> log_last (log n1)" "k \<le> log_last (log n2)" "1 \<le> k"
      using that by (auto simp: vec_lookup_def vec_end_def split: if_splits)
    then have "k < 2 ^ 64" using ends unat_u64_less [of ?l1] by linarith
    then have u: "unat (of_nat k :: u64) = k" by (simp add: unat_of_nat)
    with k ends have "(1 :: u64) \<le> of_nat k" "(of_nat k :: u64) \<le> min ?l1 ?l2"
      by (simp_all add: word_le_nat_alt min_def)
    with u show ?thesis by (auto simp: range_incl_mem intro!: bexI [of _ "of_nat k"])
  qed
  have eq: "(\<forall>i \<in> set (range_incl 1 (min ?l1 ?l2)). \<forall>x y. lookup (log n1) (unat i) = Some x \<longrightarrow>
      lookup (log n2) (unat i) = Some y \<longrightarrow> log_base (log n1) < unat i \<longrightarrow> log_base (log n2) < unat i \<longrightarrow>
      e_term x = e_term y \<longrightarrow> e_command x = e_command y) \<longleftrightarrow> entries_match (log n1) (log n2)"
    unfolding entries_match_def using in_range by blast
  show ?thesis
    using match_scan_spec [OF wf, of "range_incl 1 (min ?l1 ?l2)", unfolded eq] wf
    by (simp add: match_pair_def log_simps)
qed

fun pairwise :: "('a \<Rightarrow> 'a \<Rightarrow> bool) \<Rightarrow> 'a list \<Rightarrow> bool" where
  "pairwise P [] \<longleftrightarrow> True"
| "pairwise P (x # xs) \<longleftrightarrow> (\<forall>y \<in> set xs. P x y) \<and> pairwise P xs"

lemma match_against_spec:
  assumes "log_wf (log n1)" and "\<forall>n \<in> set ns. log_wf (log n)"
  shows "returns (match_against n1 ns) (\<lambda>r. r = Inr () \<longleftrightarrow> (\<forall>n \<in> set ns. entries_match (log n1) (log n)))"
  using assms(2)
proof (induction ns)
  case (Cons n ns)
  have "log_wf (log n)" using Cons.prems by simp
  from match_pair_spec [OF assms(1) this] obtain r where r: "match_pair n1 n = Some r"
    "r = Inr () \<longleftrightarrow> entries_match (log n1) (log n)" by (elim totalE)
  from Cons.IH Cons.prems obtain q where q: "match_against n1 ns = Some q"
    "q = Inr () \<longleftrightarrow> (\<forall>m \<in> set ns. entries_match (log n1) (log m))" by (force elim: totalE)
  show ?case by (cases r) (use r q in simp_all)
qed simp

lemma check_log_matching_spec:
  assumes "\<forall>n \<in> set ns. log_wf (log n)"
  shows "returns (check_log_matching ns) (\<lambda>r. r = Inr () \<longleftrightarrow> pairwise (\<lambda>n1 n2. entries_match (log n1) (log n2)) ns)"
  using assms
proof (induction ns)
  case (Cons n ns)
  have "log_wf (log n)" "\<forall>n \<in> set ns. log_wf (log n)" using Cons.prems by simp_all
  from match_against_spec [OF this] obtain r where r: "match_against n ns = Some r"
    "r = Inr () \<longleftrightarrow> (\<forall>m \<in> set ns. entries_match (log n) (log m))" by (elim totalE)
  from Cons.IH Cons.prems obtain q where q: "check_log_matching ns = Some q"
    "q = Inr () \<longleftrightarrow> pairwise (\<lambda>n1 n2. entries_match (log n1) (log n2)) ns" by (force elim: totalE)
  show ?case by (cases r) (use r q in simp_all)
qed simp

end
