(* ===== verification/SimDisk.thy ===== *)
theory SimDisk
  imports RaftLog
begin

text \<open>
  \<open>raft-sim/src/storage.rs\<close>: the simulator's \<open>StableDisk\<close>, the state of a node that survives a crash.
  It is the second provider of the \<open>log_store\<close> contract, by operations that look different from the
  log's: entries are written one by one and a write beyond the end panics.
\<close>

section \<open>Operations\<close>

record stable_disk =
  d_node_id :: node_id
  d_term :: raft_term
  d_vote :: "node_id option"
  d_entries :: "log_entry list"
  d_snapshot :: "(snapshot_meta \<times> bytes) option"

definition disk_new :: "node_id \<Rightarrow> stable_disk" where
  "disk_new i = \<lparr>d_node_id = i, d_term = term_zero, d_vote = None,
     d_entries = [sentinel_entry sentinel_index term_zero], d_snapshot = None\<rparr>"

definition write_hard_state :: "raft_term \<Rightarrow> node_id option \<Rightarrow> stable_disk \<Rightarrow> stable_disk" where
  "write_hard_state t v d = d\<lparr>d_term := t, d_vote := v\<rparr>"

definition write_entry :: "log_entry \<Rightarrow> log_entry list \<Rightarrow> log_entry list option" where
  \<comment> \<open>the body of the loop of \<open>append_entries\<close>\<close>
  "write_entry x es = do {
     e0 \<leftarrow> vec_index es 0;
     let idx = e_index x;
     let base_idx = e_index e0;
     if idx < base_idx then Some es
     else let offset = unat (idx - base_idx) in
       if offset < length es
       then (if e_term (es ! offset) \<noteq> e_term x then Some (take offset es @ [x]) else Some es)
       else if offset = length es then Some (es @ [x])
       else None
   }"

fun write_entries :: "log_entry list \<Rightarrow> log_entry list \<Rightarrow> log_entry list option" where
  "write_entries [] es = Some es"
| "write_entries (x # xs) es = do { es' \<leftarrow> write_entry x es; write_entries xs es' }"

definition disk_append_entries :: "log_entry list \<Rightarrow> stable_disk \<Rightarrow> stable_disk option" where
  "disk_append_entries xs d = do {
     es \<leftarrow> write_entries xs (d_entries d);
     Some (d\<lparr>d_entries := es\<rparr>)
   }"

definition disk_truncate_and_append :: "log_index \<Rightarrow> log_entry list \<Rightarrow> stable_disk \<Rightarrow> stable_disk option" where
  "disk_truncate_and_append from_index xs d = do {
     e0 \<leftarrow> vec_index (d_entries d) 0;
     if from_index \<ge> e_index e0
     then disk_append_entries xs (d\<lparr>d_entries := take (unat (from_index - e_index e0)) (d_entries d)\<rparr>)
     else None
   }"

definition write_snapshot :: "log_index \<Rightarrow> raft_term \<Rightarrow> bytes \<Rightarrow> stable_disk \<Rightarrow> stable_disk option" where
  "write_snapshot idx t dat d = do {
     let d1 = d\<lparr>d_snapshot := Some (\<lparr>last_included_index = idx, last_included_term = t\<rparr>, dat)\<rparr>;
     e0 \<leftarrow> vec_index (d_entries d1) 0;
     if idx > e_index e0
     then let offset = unat (idx - e_index e0) in
       if offset \<ge> length (d_entries d1)
       then Some (d1\<lparr>d_entries := [sentinel_entry idx t]\<rparr>)
       else Some (d1\<lparr>d_entries := (drop offset (d_entries d1))[0 := sentinel_entry idx t]\<rparr>)
     else Some d1
   }"

section \<open>The disk meets the contract of a store\<close>

definition disk_wf :: "stable_disk \<Rightarrow> bool" where
  "disk_wf d \<longleftrightarrow> vec_wf (d_entries d)"

lemma disk_new_wf [simp]: "disk_wf (disk_new i)"
  by (simp add: disk_wf_def disk_new_def)

lemma write_entry_next:
  assumes "vec_wf es" and "unat (e_index x) = Suc (vec_end es)"
  shows "write_entry x es = Some (es @ [x])" and "vec_wf (es @ [x])"
proof -
  have u: "unat (e_index x) = unat (e_index (hd es)) + length es"
    using assms by (simp add: vec_end_def vec_base_def)
  then have le: "e_index (hd es) \<le> e_index x" by (simp add: word_le_nat_alt)
  have off: "unat (e_index x - e_index (hd es)) = length es"
    using u by (simp add: unat_offset_nat)
  from le off show "write_entry x es = Some (es @ [x])"
    using assms(1) by (simp add: write_entry_def Let_def not_less)
  have "e_index x = e_index (hd es) + of_nat (length es)"
    using u64_offset [OF le] off by simp
  moreover have "unat (e_index (hd es)) + length es < 2 ^ 64"
    using u unat_u64_less [of "e_index x"] by simp
  ultimately have "indexed_from (e_index (hd es)) (es @ [x])"
    by (intro indexed_from_snoc vec_wf_indexed assms(1))
  with assms(1) show "vec_wf (es @ [x])" unfolding vec_wf_def by simp
qed

lemma write_entries_next:
  "vec_wf es \<Longrightarrow> indexed_from b xs \<Longrightarrow> unat b = Suc (vec_end es) \<Longrightarrow>
    write_entries xs es = Some (es @ xs) \<and> vec_wf (es @ xs)"
proof (induction xs arbitrary: es b)
  case (Cons x xs)
  have x: "e_index x = b" using indexed_from_nth [OF Cons.prems(2), of 0] by simp
  note w = write_entry_next [OF Cons.prems(1), of x]
  have "vec_end (es @ [x]) = Suc (vec_end es)"
    using Cons.prems(1) by (auto simp: vec_end_def vec_base_def)
  moreover have "unat (b + 1) = unat b + 1" if "xs \<noteq> []"
    using Cons.prems(2) that unat_plus_no_wrap [of b 1] by (cases xs) (auto simp: indexed_from_def)
  ultimately show ?case
    using Cons.IH [OF w(2), of "b + 1"] indexed_from_drop [OF Cons.prems(2), of 1] w(1) x Cons.prems(3) w(2)
    by (cases "xs = []") auto
qed simp

lemma disk_append_next:
  assumes "disk_wf d" and "indexed_from b xs" and "unat b = Suc (vec_end (d_entries d))"
  shows "disk_append_entries xs d = Some (d\<lparr>d_entries := d_entries d @ xs\<rparr>)"
  using assms write_entries_next by (auto simp: disk_append_entries_def disk_wf_def)

lemma disk_truncate_eq:
  assumes wf: "disk_wf d" and lo: "e_index (hd (d_entries d)) < i"
    and hi: "unat i \<le> Suc (vec_end (d_entries d))" and xs: "indexed_from i xs"
  shows "disk_truncate_and_append i xs d = Some (d\<lparr>d_entries := spec_truncate i xs (d_entries d)\<rparr>)"
    and "disk_wf (d\<lparr>d_entries := spec_truncate i xs (d_entries d)\<rparr>)"
proof -
  let ?kept = "spec_truncate i [] (d_entries d)"
  have wf': "vec_wf (d_entries d)" using wf by (simp add: disk_wf_def)
  have kept: "?kept = take (unat (i - e_index (hd (d_entries d)))) (d_entries d)"
    using wf' lo by (simp add: spec_truncate_take)
  have k: "vec_wf ?kept" using spec_truncate_wf [OF wf' lo hi] by simp
  have len: "length ?kept = unat i - vec_base (d_entries d)"
    using lo hi wf' unfolding kept
    by (auto simp: unat_offset vec_end_def vec_base_def)
  have "vec_base ?kept = vec_base (d_entries d)"
    using spec_truncate_hd [OF wf' lo] by (simp add: vec_base_def)
  then have "unat i = Suc (vec_end ?kept)"
    using len lo by (auto simp: vec_end_def vec_base_def word_less_nat_alt)
  then have "write_entries xs ?kept = Some (?kept @ xs) \<and> vec_wf (?kept @ xs)"
    by (rule write_entries_next [OF k xs])
  moreover have "?kept @ xs = spec_truncate i xs (d_entries d)"
    by (simp add: spec_truncate_def)
  ultimately show "disk_truncate_and_append i xs d = Some (d\<lparr>d_entries := spec_truncate i xs (d_entries d)\<rparr>)"
    and "disk_wf (d\<lparr>d_entries := spec_truncate i xs (d_entries d)\<rparr>)"
    using lo wf' by (auto simp: disk_truncate_and_append_def disk_append_entries_def kept [symmetric] disk_wf_def)
qed

lemma write_snapshot_eq:
  assumes "disk_wf d"
  shows "write_snapshot i t dat d = Some (d\<lparr>d_entries := spec_compact i t (d_entries d),
    d_snapshot := Some (\<lparr>last_included_index = i, last_included_term = t\<rparr>, dat)\<rparr>)"
proof (cases "e_index (hd (d_entries d)) < i")
  case lo: True
  have wf: "vec_wf (d_entries d)" using assms by (simp add: disk_wf_def)
  define n where "n = unat (i - e_index (hd (d_entries d)))"
  have f: "filter (\<lambda>e. i < e_index e) (d_entries d) = drop (Suc n) (d_entries d)"
    using wf lo by (simp add: filter_above_drop n_def)
  have "(drop n (d_entries d))[0 := sentinel_entry i t] = sentinel_entry i t # drop (Suc n) (d_entries d)"
    if "n < length (d_entries d)"
    using that by (simp add: Cons_nth_drop_Suc [symmetric])
  with lo f wf show ?thesis
    by (auto simp: write_snapshot_def spec_compact_def Let_def n_def [symmetric] dest: leD)
qed (use assms in \<open>simp add: write_snapshot_def spec_compact_def Let_def disk_wf_def\<close>)

lemma disk_contract:
  "log_store d_entries disk_wf disk_truncate_and_append (\<lambda>i t. write_snapshot i t dat)"
  by unfold_locales
    (auto simp: disk_truncate_eq write_snapshot_eq spec_truncate_wf spec_compact_wf disk_wf_def)

interpretation sdisk: log_store d_entries disk_wf disk_truncate_and_append
  "\<lambda>i t. write_snapshot i t dat" for dat
  by (rule disk_contract)

text \<open>The log of a node and its disk, driven by the same operations, stay equal.\<close>

interpretation mirror: log_mirror entries log_wf log_truncate_and_append log_compact
  d_entries disk_wf disk_truncate_and_append "\<lambda>i t. write_snapshot i t dat" for dat
  by (intro log_mirror.intro log_contract disk_contract)

end
