(* ===== verification/HardState.thy ===== *)
theory HardState
  imports NodeCases
begin

text \<open>
  The persistence discipline of a node. The hard state (term and vote) is ordered by what Raft allows:
  the term only grows, and within a term a vote is cast once. \<open>persist_run\<close> replays the actions of a
  handler against the hard state on disk and fails where an action breaks the order, records a vote for
  a candidate outside \<open>C\<close> (the node itself and the sender of the message at hand), or sends a vote that
  is not on disk yet. Every entry point passes the replay and leaves on disk exactly the
  hard state it has in memory.
\<close>

section \<open>The order of hard states\<close>

datatype hard_state = HardState (hs_term: raft_term) (hs_vote: "node_id option")

instantiation hard_state :: order
begin

definition less_eq_hard_state :: "hard_state \<Rightarrow> hard_state \<Rightarrow> bool" where
  "less_eq_hard_state h h' \<longleftrightarrow>
     hs_term h < hs_term h' \<or> hs_term h = hs_term h' \<and> (hs_vote h = None \<or> hs_vote h = hs_vote h')"

definition less_hard_state :: "hard_state \<Rightarrow> hard_state \<Rightarrow> bool" where
  "less_hard_state h h' \<longleftrightarrow> h \<le> h' \<and> h \<noteq> (h' :: hard_state)"

instance
proof
  fix x y z :: hard_state
  show "x < y \<longleftrightarrow> x \<le> y \<and> \<not> y \<le> x"
    by (cases x; cases y) (fastforce simp: less_hard_state_def less_eq_hard_state_def)
  show "x \<le> x" by (simp add: less_eq_hard_state_def)
  show "x \<le> y \<Longrightarrow> y \<le> z \<Longrightarrow> x \<le> z"
    by (auto simp: less_eq_hard_state_def)
  show "x \<le> y \<Longrightarrow> y \<le> x \<Longrightarrow> x = y"
    by (cases x; cases y) (auto simp: less_eq_hard_state_def)
qed

end

definition node_hs :: "'r raft_node \<Rightarrow> hard_state" where
  "node_hs n = HardState (current_term n) (voted_for n)"

section \<open>Replaying the actions of a handler\<close>

definition vote_recorded :: "node_id \<Rightarrow> hard_state \<Rightarrow> message \<Rightarrow> bool" where
  \<comment> \<open>a granted vote leaves only after it is on disk, under the sender's own name\<close>
  "vote_recorded i h m \<longleftrightarrow>
     msg_from m = i \<and>
     (msg_kind m = RequestVoteResponse True \<longrightarrow> h = HardState (msg_term m) (Some (msg_to m)))"

fun persist_run :: "node_id set \<Rightarrow> node_id \<Rightarrow> hard_state \<Rightarrow> action list \<Rightarrow> hard_state option" where
  "persist_run C i h [] = Some h"
| "persist_run C i h (PersistHardState t v # as) =
     (if h \<le> HardState t v \<and> set_option v \<subseteq> C then persist_run C i (HardState t v) as else None)"
| "persist_run C i h (Send m # as) = (if vote_recorded i h m then persist_run C i h as else None)"
| "persist_run C i h (_ # as) = persist_run C i h as"

lemma persist_run_append:
  "persist_run C i h (as @ bs) = Option.bind (persist_run C i h as) (\<lambda>h'. persist_run C i h' bs)"
  by (induction C i h as rule: persist_run.induct) auto

lemma persist_run_mono: "persist_run C i h acts = Some h' \<Longrightarrow> h \<le> h'"
  by (induction C i h acts rule: persist_run.induct) (auto split: if_splits)

fun silent :: "action \<Rightarrow> bool" where
  \<comment> \<open>actions that neither touch the hard state nor cast a vote\<close>
  "silent (PersistHardState _ _) \<longleftrightarrow> False"
| "silent (Send m) \<longleftrightarrow> msg_kind m \<noteq> RequestVoteResponse True"
| "silent _ \<longleftrightarrow> True"

fun sent_by :: "node_id \<Rightarrow> action \<Rightarrow> bool" where
  "sent_by i (Send m) \<longleftrightarrow> msg_from m = i"
| "sent_by _ _ \<longleftrightarrow> True"

definition quiet :: "node_id \<Rightarrow> action list \<Rightarrow> bool" where
  "quiet i as \<longleftrightarrow> (\<forall>a \<in> set as. silent a \<and> sent_by i a)"

lemma quiet_simps [simp]:
  "quiet i []"
  "quiet i (a # as) \<longleftrightarrow> silent a \<and> sent_by i a \<and> quiet i as"
  "quiet i (as @ bs) \<longleftrightarrow> quiet i as \<and> quiet i bs"
  by (auto simp: quiet_def)

lemma persist_run_quiet [simp]: "quiet i as \<Longrightarrow> persist_run C i h as = Some h"
  by (induction C i h as rule: persist_run.induct) (auto simp: vote_recorded_def)

fun disciplined :: "node_id set \<Rightarrow> 'r raft_node \<Rightarrow> 'r outcome \<Rightarrow> bool" where
  "disciplined C n (n', acts) \<longleftrightarrow>
     node_id n' = node_id n \<and> peers n' = peers n \<and>
     persist_run C (node_id n) (node_hs n) acts = Some (node_hs n')"

lemma disciplined_trans:
  "disciplined C n (n1, as) \<Longrightarrow> disciplined C n1 (n2, bs) \<Longrightarrow> disciplined C n (n2, as @ bs)"
  by (simp add: persist_run_append)

section \<open>Counted votes\<close>

text \<open>
  \<open>H\<close> is the set of ballots \<open>(voter, term, candidate)\<close> that have been written to a disk. A candidate
  counts only ballots that are in \<open>H\<close>, and a leader has counted a majority.
\<close>

type_synonym ballot = "node_id \<times> raft_term \<times> node_id"

definition ballots_of :: "node_id \<Rightarrow> action list \<Rightarrow> ballot set" where
  "ballots_of i acts = {(i, t, c) | t c. PersistHardState t (Some c) \<in> set acts}"

definition vote_ok :: "ballot set \<Rightarrow> 'r raft_node \<Rightarrow> bool" where
  "vote_ok H n \<longleftrightarrow> role n \<in> {Candidate, Leader} \<longrightarrow>
     (\<forall>v \<in> votes_received n. (v, current_term n, node_id n) \<in> H) \<and>
     (role n = Leader \<longrightarrow> majority n \<le> card (votes_received n))"

lemma ballots_of_simps [simp]:
  "ballots_of i [] = {}"
  "ballots_of i (PersistHardState t (Some c) # as) = insert (i, t, c) (ballots_of i as)"
  "ballots_of i (PersistHardState t None # as) = ballots_of i as"
  "silent a \<Longrightarrow> ballots_of i (a # as) = ballots_of i as"
  "ballots_of i (reply n p k # as) = ballots_of i as"
  "ballots_of i (Send m # as) = ballots_of i as"
  "ballots_of i (as @ bs) = ballots_of i as \<union> ballots_of i bs"
  by (auto simp: ballots_of_def reply_def)

lemma ballots_of_quiet [simp]: "quiet i as \<Longrightarrow> ballots_of j as = {}"
  by (force simp: ballots_of_def quiet_def)

lemma vote_ok_mono: "vote_ok H n \<Longrightarrow> H \<subseteq> H' \<Longrightarrow> vote_ok H' n"
  by (auto simp: vote_ok_def)

section \<open>The handlers keep the discipline\<close>

fun safe :: "node_id set \<Rightarrow> ballot set \<Rightarrow> 'r raft_node \<Rightarrow> 'r outcome \<Rightarrow> bool" where
  "safe C H n (n', acts) \<longleftrightarrow>
     disciplined C n (n', acts) \<and> vote_ok (H \<union> ballots_of (node_id n) acts) n'"

lemma safe_trans:
  assumes "safe C H n (n1, as)" and "safe C (H \<union> ballots_of (node_id n) as) n1 (n2, bs)"
  shows "safe C H n (n2, as @ bs)"
  using assms by (simp add: persist_run_append Un_assoc)

lemma safe_quiet:
  assumes "vote_ok H n'" and "node_id n' = node_id n" "peers n' = peers n" "node_hs n' = node_hs n"
    and "quiet (node_id n) acts"
  shows "safe C H n (n', acts)"
  using assms by simp

lemma majority_cong: "peers n' = peers n \<Longrightarrow> majority n' = majority n"
  by (simp add: majority_def)

text \<open>The fields the hard state and the vote count do not read.\<close>

lemma vote_ok_frame [simp]:
  "vote_ok H (n\<lparr>next_index := a\<rparr>) = vote_ok H n"
  "vote_ok H (n\<lparr>match_index := a\<rparr>) = vote_ok H n"
  "vote_ok H (n\<lparr>log := l\<rparr>) = vote_ok H n"
  "vote_ok H (n\<lparr>heartbeat_elapsed := k\<rparr>) = vote_ok H n"
  "vote_ok H (n\<lparr>election_elapsed := k\<rparr>) = vote_ok H n"
  "vote_ok H (n\<lparr>pre_votes_received := V\<rparr>) = vote_ok H n"
  "vote_ok H (n\<lparr>commit_index := i\<rparr>) = vote_ok H n"
  "vote_ok H (n\<lparr>last_applied := i\<rparr>) = vote_ok H n"
  "vote_ok H (n\<lparr>leader_id := j\<rparr>) = vote_ok H n"
  by (simp_all add: vote_ok_def majority_def)

lemma node_hs_frame [simp]:
  "node_hs (n\<lparr>next_index := a\<rparr>) = node_hs n"
  "node_hs (n\<lparr>match_index := a\<rparr>) = node_hs n"
  "node_hs (n\<lparr>log := l\<rparr>) = node_hs n"
  "node_hs (n\<lparr>heartbeat_elapsed := k\<rparr>) = node_hs n"
  "node_hs (n\<lparr>election_elapsed := k\<rparr>) = node_hs n"
  "node_hs (n\<lparr>pre_votes_received := V\<rparr>) = node_hs n"
  "node_hs (n\<lparr>votes_received := V\<rparr>) = node_hs n"
  "node_hs (n\<lparr>commit_index := i\<rparr>) = node_hs n"
  "node_hs (n\<lparr>last_applied := i\<rparr>) = node_hs n"
  "node_hs (n\<lparr>leader_id := j\<rparr>) = node_hs n"
  by (simp_all add: node_hs_def)

lemma reply_silent [simp]: "silent (reply n p k) \<longleftrightarrow> k \<noteq> RequestVoteResponse True"
  and reply_sent_by [simp]: "sent_by i (reply n p k) \<longleftrightarrow> node_id n = i"
  by (simp_all add: reply_def)

lemma quiet_map_reply [simp]:
  "quiet i (map (\<lambda>p. reply n p k) ps) \<longleftrightarrow> ps = [] \<or> k \<noteq> RequestVoteResponse True \<and> node_id n = i"
  by (induction ps) auto

lemma replicate_quiet: "replicate_to_peer n p = Some a \<Longrightarrow> quiet (node_id n) [a]"
  by (auto simp: replicate_to_peer_def Let_def bind_eq_Some_conv split: if_splits)

lemma broadcast_quiet: "those (map (replicate_to_peer n) ps) = Some as \<Longrightarrow> quiet (node_id n) as"
  by (induction ps arbitrary: as) (auto split: option.splits dest!: replicate_quiet)

lemma quiet_applies: "\<forall>x \<in> set acts. \<exists>ap. x = Apply ap \<Longrightarrow> quiet i acts"
  by (auto simp: quiet_def)

lemma advance_safe:
  assumes "maybe_advance_commit_index e n = Some (n', acts)" and "vote_ok H n"
  shows "safe C H n (n', acts)"
  using assms(1)
proof (rule advance_frame)
  fix a c assume "n' = n\<lparr>commit_index := c, last_applied := a\<rparr>" "\<forall>x \<in> set acts. \<exists>ap. x = Apply ap"
  with assms(2) show ?thesis
    by (intro safe_quiet) (auto simp: node_hs_def quiet_applies)
qed

lemma become_follower_safe:
  assumes "become_follower e t l n = Some (n', acts)" and "current_term n \<le> t"
  shows "safe C H n (n', acts)"
  using assms(1)
proof (rule become_followerE)
  fix timeout r
  assume "n' = n\<lparr>current_term := t, role := Follower, leader_id := l, election_elapsed := 0,
      election_timeout := timeout, rng := r, voted_for := (if current_term n < t then None else voted_for n)\<rparr>"
    "acts = (if current_term n < t then [PersistHardState t None] else [])"
  with assms(2) show ?thesis
    by (auto simp: node_hs_def vote_ok_def less_eq_hard_state_def)
qed

lemma become_leader_safe:
  assumes "become_leader e n = Some (n', acts)" and "role n = Candidate" and "vote_ok H n"
    and "majority n \<le> card (votes_received n)"
  shows "safe C H n (n', acts)"
  using assms(1)
proof (rule become_leaderE)
  fix noop sends
  assume "n' = as_leader n (e_index noop) noop"
    and sends: "those (map (replicate_to_peer n') (peers n)) = Some sends"
    and acts: "acts = AppendToLog [noop] # sends"
  with assms(2-) show ?thesis
    using broadcast_quiet [OF sends]
    by (intro safe_quiet) (auto simp: as_leader_def node_hs_def vote_ok_def majority_def)
qed

lemma candidate_majority: "peers n = [] \<Longrightarrow> majority (as_candidate n timeout r) = 1"
  by (simp add: majority_def as_candidate_def)

lemma start_real_election_safe:
  assumes "start_real_election e n = Some (n', acts)" and "debug e \<or> current_term n \<noteq> -1"
    and C: "node_id n \<in> C"
  shows "safe C H n (n', acts)"
proof -
  have lt: "current_term n < current_term n + 1"
    if "term_next (debug e) (current_term n) = Some (current_term n + 1)"
    using that assms(2) plus_one_greater [of "current_term n"]
    by (cases "current_term n = -1") (auto simp: term_next_def add_u64_def word_less_nat_alt unat_u64_max
        split: if_splits)
  have cand: "safe C H n (as_candidate n timeout r, PersistHardState (current_term n + 1) (Some (node_id n)) # rest)"
    if "quiet (node_id n) rest" "current_term n < current_term n + 1" for timeout r rest
    using that C by (auto simp: as_candidate_def node_hs_def less_eq_hard_state_def vote_ok_def)
  from assms(1) show ?thesis
  proof (cases rule: start_real_electionE)
    case (campaign timeout r lli llt)
    have "quiet (node_id n) (map (\<lambda>p. reply n' p (RequestVote lli llt)) (peers n))"
      using campaign(3) by (simp add: as_candidate_def)
    from cand [OF this lt [OF campaign(2)]] show ?thesis
      by (simp only: campaign(3,4))
  next
    case (alone timeout r lead)
    let ?n2 = "as_candidate n timeout r"
    have first: "safe C H n (?n2, [PersistHardState (current_term n + 1) (Some (node_id n))])"
      by (rule cand) (use lt alone in simp_all)
    have n2: "node_id ?n2 = node_id n" "role ?n2 = Candidate" "votes_received ?n2 = {node_id n}"
      "majority ?n2 = 1"
      using candidate_majority [OF alone(1)] by (simp_all add: as_candidate_def)
    have "safe C (H \<union> ballots_of (node_id n) [PersistHardState (current_term n + 1) (Some (node_id n))])
        ?n2 (n', lead)"
      by (rule become_leader_safe [OF alone(3)]) (use first n2 in simp_all)
    from safe_trans [OF first this] show ?thesis by (simp only: alone(4) append_Cons append_Nil)
  qed
qed

lemma start_pre_vote_safe:
  assumes "start_pre_vote e n = Some (n', acts)" and "debug e \<or> current_term n \<noteq> -1"
    and C: "node_id n \<in> C"
  shows "safe C H n (n', acts)"
  using assms(1)
proof (cases rule: start_pre_voteE)
  case (ask timeout r t lli llt)
  then show ?thesis
    by (intro safe_quiet) (auto simp: as_pre_candidate_def node_hs_def vote_ok_def quiet_def)
next
  case (alone timeout r)
  have "safe C H (as_pre_candidate n timeout r) (n', acts)"
    by (rule start_real_election_safe [OF alone(2)]) (use assms(2) C in \<open>simp_all add: as_pre_candidate_def\<close>)
  then show ?thesis by (simp add: as_pre_candidate_def node_hs_def)
qed


text \<open>
  A granted vote that arrives is a ballot on its sender's disk; \<open>backed\<close> says so of a message. It is an
  invariant of the network, proved with the cluster.
\<close>

definition backed :: "ballot set \<Rightarrow> message \<Rightarrow> bool" where
  "backed H m \<longleftrightarrow> (msg_kind m = RequestVoteResponse True \<longrightarrow> (msg_from m, msg_term m, msg_to m) \<in> H)"

lemma handle_request_vote_safe:
  assumes "handle_request_vote from lli llt n = Some (n', acts)" and "vote_ok H n"
    and C: "from \<in> C"
  shows "safe C H n (n', acts)"
  using assms(1)
proof (cases rule: handle_request_voteE)
  case granted
  with assms(2,3) show ?thesis
    by (auto simp: node_hs_def less_eq_hard_state_def vote_recorded_def reply_def vote_ok_def majority_def)
next
  case refused
  with assms(2) show ?thesis by (intro safe_quiet) auto
qed

lemma handle_request_vote_response_safe:
  assumes "handle_request_vote_response e from t g n = Some (n', acts)" and ok: "vote_ok H n"
    and vote: "g \<Longrightarrow> (from, t, node_id n) \<in> H"
  shows "safe C H n (n', acts)"
  using assms(1)
proof (cases rule: handle_request_vote_responseE)
  case ignored
  with ok show ?thesis by simp
next
  case counted
  with ok vote show ?thesis
    by (intro safe_quiet) (auto simp: node_hs_def vote_ok_def)
next
  case won
  let ?n1 = "n\<lparr>votes_received := insert from (votes_received n)\<rparr>"
  have "safe C H ?n1 (n', acts)"
    by (rule become_leader_safe [OF won(5)]) (use won ok vote in \<open>auto simp: vote_ok_def majority_def\<close>)
  then show ?thesis by (simp add: node_hs_def)
qed

lemma handle_pre_vote_response_safe:
  assumes "handle_pre_vote_response e from t g n = Some (n', acts)" and ok: "vote_ok H n"
    and "debug e \<or> current_term n \<noteq> -1"
    and C: "node_id n \<in> C"
  shows "safe C H n (n', acts)"
  using assms(1)
proof (cases rule: handle_pre_vote_responseE)
  case ignored
  with ok show ?thesis by simp
next
  case counted
  with ok show ?thesis by (intro safe_quiet) (auto simp: node_hs_def)
next
  case elected
  let ?n1 = "n\<lparr>pre_votes_received := insert from (pre_votes_received n)\<rparr>"
  have "safe C H ?n1 (n', acts)"
    by (rule start_real_election_safe [OF elected(5)]) (use assms(3) C in simp_all)
  then show ?thesis by (simp add: node_hs_def)
qed

lemma append_new_frame:
  assumes "append_new_entries e es n = Some (n', acts)"
  obtains l where "n' = n\<lparr>log := l\<rparr>" "quiet i acts"
  using assms
proof (cases rule: append_new_entriesE)
  case kept
  then show ?thesis using that [of "log n"] by simp
next
  case (merged i k l)
  then show ?thesis using that [of l] by simp
qed

lemma handle_append_entries_safe:
  assumes "handle_append_entries e from t prev pt es lc n = Some (n', acts)" and ok: "vote_ok H n"
  shows "safe C H n (n', acts)"
  using assms(1)
proof (cases rule: handle_append_entriesE)
  case stale
  with ok show ?thesis by (intro safe_quiet) auto
next
  case (rejected ct ci acts1)
  with become_follower_safe [OF rejected(2,1), of C H] show ?thesis
    by (simp add: persist_run_append)
next
  case (accepted n1 acts1 n2 acts2 acts3)
  have bf: "safe C H n (n1, acts1)" using become_follower_safe accepted by blast
  have role: "role n1 = Follower" using accepted(2) by (elim become_followerE) simp
  obtain l where n2: "n2 = n1\<lparr>log := l\<rparr>" and acts_ok: "quiet (node_id n) acts2"
    by (rule append_new_frame [OF accepted(4)])
  obtain a c where n': "n' = n2\<lparr>commit_index := c, last_applied := a\<rparr>" "quiet (node_id n) acts3"
    using accepted(5) by (elim follow_commit_frame) (auto simp: quiet_applies)
  have "safe C (H \<union> ballots_of (node_id n) acts1) n1
      (n', acts2 @ acts3 @ [reply n' from (AppendEntriesResponse True None None)])"
    using bf role n2 n' acts_ok by (intro safe_quiet) (auto simp: node_hs_def vote_ok_def)
  with bf show ?thesis unfolding accepted(6) by (rule safe_trans)
qed

lemma handle_append_entries_response_safe:
  assumes "handle_append_entries_response e from t s ct ci n = Some (n', acts)" and ok: "vote_ok H n"
  shows "safe C H n (n', acts)"
  using assms(1)
proof (cases rule: handle_append_entries_responseE)
  case ignored
  with ok show ?thesis by simp
next
  case (success mi nxt)
  let ?n1 = "n\<lparr>next_index := (next_index n)(from \<mapsto> nxt), match_index := (match_index n)(from \<mapsto> mi)\<rparr>"
  have "safe C H ?n1 (n', acts)"
    by (rule advance_safe [OF success(5)]) (use ok in \<open>simp\<close>)
  then show ?thesis by (simp add: node_hs_def)
next
  case (retry nxt a)
  with ok replicate_quiet [OF retry(5)] show ?thesis
    by (intro safe_quiet) (auto simp: node_hs_def)
qed

lemma handle_install_snapshot_safe:
  assumes "handle_install_snapshot e from t idx it dat done n = Some (n', acts)" and ok: "vote_ok H n"
  shows "safe C H n (n', acts)"
  using assms(1)
proof (cases rule: handle_install_snapshotE)
  case stale
  with ok show ?thesis by (intro safe_quiet) auto
next
  case (skipped acts1)
  with become_follower_safe [OF skipped(2,1), of C H] show ?thesis
    by (simp add: persist_run_append)
next
  case (installed n1 acts1)
  have bf: "safe C H n (n1, acts1)" using become_follower_safe installed by blast
  have role: "role n1 = Follower" using installed(2) by (elim become_followerE) simp
  have "safe C (H \<union> ballots_of (node_id n) acts1) n1
      (n', [PersistSnapshot idx it dat, reply n' from InstallSnapshotResponse])"
    using role installed(4) by (intro safe_quiet) (auto simp: node_hs_def vote_ok_def)
  with bf show ?thesis unfolding installed(5) by (rule safe_trans)
qed

lemma handle_install_snapshot_response_safe:
  assumes "handle_install_snapshot_response e from t n = Some (n', acts)" and ok: "vote_ok H n"
  shows "safe C H n (n', acts)"
  using assms(1)
proof (cases rule: handle_install_snapshot_responseE)
  case ignored
  with ok show ?thesis by simp
next
  case (counted mi nxt)
  let ?n1 = "n\<lparr>match_index := (match_index n)(from \<mapsto> mi), next_index := (next_index n)(from \<mapsto> nxt)\<rparr>"
  have "safe C H ?n1 (n', acts)"
    by (rule advance_safe [OF counted(3)]) (use ok in \<open>simp\<close>)
  then show ?thesis by (simp add: node_hs_def)
qed

section \<open>The entry points keep the discipline\<close>

lemma propose_safe:
  assumes "propose e cmd n = Some (n', acts)" and ok: "vote_ok H n"
  shows "safe C H n (n', acts)"
  using assms(1)
proof (cases rule: proposeE)
  case refused
  with ok show ?thesis by simp
next
  case (appended x n1 sends adv)
  have n1: "vote_ok H n1" "node_id n1 = node_id n" "peers n1 = peers n" "node_hs n1 = node_hs n"
    using ok appended(5) by (auto simp: node_hs_def)
  have "quiet (node_id n) (AppendToLog [x] # sends)"
    using broadcast_quiet [OF appended(6)] n1 by simp
  then have "safe C H n (n1, AppendToLog [x] # sends)"
    using n1 by (intro safe_quiet) auto
  moreover have "safe C H n1 (n', adv)"
  proof (cases "peers n = []")
    case True
    with appended(7) have "maybe_advance_commit_index e n1 = Some (n', adv)" by simp
    from advance_safe [OF this n1(1)] show ?thesis .
  next
    case False
    with appended(7) n1 show ?thesis by (auto intro: safe_quiet)
  qed
  then have "safe C (H \<union> ballots_of (node_id n) (AppendToLog [x] # sends)) n1 (n', adv)"
    using broadcast_quiet [OF appended(6)] n1 by simp
  ultimately have "safe C H n (n', (AppendToLog [x] # sends) @ adv)" by (rule safe_trans)
  with appended(8) show ?thesis by simp
qed

lemma compact_logs_safe:
  assumes "compact_logs idx t dat n = Some (n', acts)" and ok: "vote_ok H n"
  shows "safe C H n (n', acts)"
  using assms(1)
  by (cases rule: compact_logsE) (use ok in \<open>auto simp: node_hs_def\<close>)

lemma tick_safe:
  assumes "tick e n = Some (n', acts)" and ok: "vote_ok H n" and "debug e \<or> current_term n \<noteq> -1"
    and C: "node_id n \<in> C"
  shows "safe C H n (n', acts)"
  using assms(1)
proof (cases rule: tickE)
  case (quiet he ee)
  with ok show ?thesis by (auto simp: node_hs_def)
next
  case heartbeat
  with ok broadcast_quiet [OF heartbeat(3)] show ?thesis
    by (intro safe_quiet) (auto simp: node_hs_def)
next
  case timeout
  have "safe C H (n\<lparr>election_elapsed := 0\<rparr>) (n', acts)"
    by (rule start_pre_vote_safe [OF timeout(2)]) (use assms(3) C in simp_all)
  then show ?thesis by (simp add: node_hs_def)
qed

lemma dispatch_safe:
  assumes "dispatch e m n = Some (n', acts)" and ok: "vote_ok H n"
    and "debug e \<or> current_term n \<noteq> -1" and "backed H m" and "msg_to m = node_id n \<or> is_client_msg (msg_kind m)"
    and C: "node_id n \<in> C" "\<not> is_client_msg (msg_kind m) \<Longrightarrow> msg_from m \<in> C"
  shows "safe C H n (n', acts)"
proof (cases "msg_kind m")
  case (ClientRequest cmd)
  show ?thesis
  proof (cases "role n = Leader")
    case True
    with assms(1) ClientRequest obtain as where
      as: "propose e cmd n = Some (n', as)" "acts = as @ [reply n' (msg_from m) (ClientResponse True (Some (node_id n')))]"
      by (auto simp: dispatch_def handle_client_request_def bind_eq_Some_conv)
    from propose_safe [OF as(1) ok] as(2) show ?thesis by (simp add: persist_run_append)
  next
    case False
    with assms(1,2) ClientRequest show ?thesis
      by (auto simp: dispatch_def handle_client_request_def)
  qed
next
  case (PreVote lli llt)
  with assms(1) obtain g where "n' = n" "acts = [reply n (msg_from m) (PreVoteResponse g)]"
    by (auto simp: dispatch_def elim!: handle_pre_voteE)
  with ok show ?thesis by simp
qed (use assms in \<open>auto simp: dispatch_def backed_def simp del: safe.simps intro: handle_request_vote_safe
    handle_request_vote_response_safe handle_pre_vote_response_safe handle_append_entries_safe
    handle_append_entries_response_safe handle_install_snapshot_safe
    handle_install_snapshot_response_safe safe_quiet\<close>)

lemma step_safe:
  assumes "step e m n = Some (n', acts)" and ok: "vote_ok H n"
    and room: "debug e \<or> current_term n \<noteq> -1 \<and> msg_term m \<noteq> -1"
    and "backed H m" and "msg_to m = node_id n \<or> is_client_msg (msg_kind m)"
    and C: "node_id n \<in> C" "\<not> is_client_msg (msg_kind m) \<Longrightarrow> msg_from m \<in> C"
  shows "safe C H n (n', acts)"
  using assms(1)
proof (cases rule: stepE)
  case (newer n1 acts1 acts2)
  have bf: "safe C H n (n1, acts1)"
    by (rule become_follower_safe [OF newer(4)]) (use newer(1) in simp)
  have "current_term n1 = msg_term m" using newer(4) by (elim become_followerE) simp
  then have "safe C (H \<union> ballots_of (node_id n) acts1) n1 (n', acts2)"
    using bf assms by (intro dispatch_safe [OF newer(5)]) (auto simp: backed_def)
  with bf show ?thesis unfolding newer(6) by (rule safe_trans)
next
  case stale
  with ok show ?thesis by simp
next
  case current
  then show ?thesis using assms by (intro dispatch_safe [OF current(2)]) auto
qed

end
