(* ===== verification/Cluster.thy ===== *)
theory Cluster
  imports HardState
begin

text \<open>
  A cluster of \<open>RaftNode\<close>s on a platform: what the simulator and the server have in common. A platform
  executes the actions of a node on its disk and boots a node from its disk; the network may lose,
  repeat, delay and reorder messages, and a node may crash at any moment, also between two actions
  of the same call. The simulator's \<open>step\<close> is shown to be a sequence of these steps.
\<close>

section \<open>Platforms and clusters\<close>

record ('r, 'd) platform =
  pl_env :: "'r env"
  pl_ids :: "node_id set"                             \<comment> \<open>the members\<close>
  pl_peers :: "node_id \<Rightarrow> node_id list"               \<comment> \<open>the peers in the configuration of a member\<close>
  pl_disk :: "node_id \<Rightarrow> 'd"                          \<comment> \<open>the disk before the first boot\<close>
  pl_exec :: "action \<Rightarrow> 'd \<Rightarrow> 'd option"              \<comment> \<open>the effect of an action on the disk\<close>
  pl_boot :: "node_id \<Rightarrow> 'd \<Rightarrow> 'r raft_node option"  \<comment> \<open>recovery\<close>

record ('r, 'd) cluster =
  alive :: "node_id \<rightharpoonup> 'r raft_node"
  disks :: "node_id \<rightharpoonup> 'd"
  wire :: "message set"                               \<comment> \<open>everything ever handed to the network\<close>

datatype event =
    Tick
  | Deliver message
  | Propose bytes
  | Compact log_index raft_term bytes

fun run_event :: "'r env \<Rightarrow> event \<Rightarrow> 'r raft_node \<Rightarrow> 'r outcome option" where
  "run_event e Tick n = tick e n"
| "run_event e (Deliver m) n = step e m n"
| "run_event e (Propose cmd) n = propose e cmd n"
| "run_event e (Compact i t dat) n = compact_logs i t dat n"

fun exec_all :: "('r, 'd) platform \<Rightarrow> action list \<Rightarrow> 'd \<Rightarrow> 'd option" where
  "exec_all pl [] d = Some d"
| "exec_all pl (a # as) d = do { d' \<leftarrow> pl_exec pl a d; exec_all pl as d' }"

definition sent :: "action list \<Rightarrow> message set" where
  "sent acts = {m. Send m \<in> set acts}"

definition admissible :: "'r env \<Rightarrow> 'r raft_node \<Rightarrow> event \<Rightarrow> bool" where
  \<comment> \<open>the release profile wraps a term around at the 64-bit limit, where the dev profile panics;
    callers compact at or above the base of the log\<close>
  "admissible e n ev \<longleftrightarrow>
     (debug e \<or> current_term n \<noteq> -1 \<and> (\<forall>m. ev = Deliver m \<longrightarrow> msg_term m \<noteq> -1)) \<and>
     (\<forall>i t dat. ev = Compact i t dat \<longrightarrow> e_index (hd (entries (log n))) \<le> i)"

fun offered :: "message set \<Rightarrow> node_id \<Rightarrow> event \<Rightarrow> bool" where
  \<comment> \<open>a node receives what was sent to it, and requests from clients, whomever they are addressed to\<close>
  "offered W i (Deliver m) \<longleftrightarrow> m \<in> W \<and> msg_to m = i \<or> (\<exists>c. msg_kind m = ClientRequest c)"
| "offered W i _ \<longleftrightarrow> True"

inductive cluster_step :: "('r, 'd) platform \<Rightarrow> ('r, 'd) cluster \<Rightarrow> ('r, 'd) cluster \<Rightarrow> bool" for pl where
  handle: "\<lbrakk>alive s i = Some n; disks s i = Some d; offered (wire s) i ev; admissible (pl_env pl) n ev;
     run_event (pl_env pl) ev n = Some (n', acts); exec_all pl acts d = Some d'\<rbrakk>
   \<Longrightarrow> cluster_step pl s (s\<lparr>alive := (alive s)(i \<mapsto> n'), disks := (disks s)(i \<mapsto> d'), wire := wire s \<union> sent acts\<rparr>)"
| die: "\<lbrakk>alive s i = Some n; disks s i = Some d; offered (wire s) i ev; admissible (pl_env pl) n ev;
     run_event (pl_env pl) ev n = Some (n', acts); exec_all pl (take k acts) d = Some d'\<rbrakk>
   \<Longrightarrow> cluster_step pl s (s\<lparr>alive := (alive s)(i := None), disks := (disks s)(i \<mapsto> d'), wire := wire s \<union> sent (take k acts)\<rparr>)"
| crash: "cluster_step pl s (s\<lparr>alive := (alive s)(i := None)\<rparr>)"
| boot: "\<lbrakk>disks s i = Some d; pl_boot pl i d = Some n\<rbrakk>
   \<Longrightarrow> cluster_step pl s (s\<lparr>alive := (alive s)(i \<mapsto> n)\<rparr>)"

definition cluster_init :: "('r, 'd) platform \<Rightarrow> ('r, 'd) cluster" where
  "cluster_init pl = \<lparr>alive = Map.empty, disks = (\<lambda>i. if i \<in> pl_ids pl then Some (pl_disk pl i) else None),
     wire = {}\<rparr>"

abbreviation cluster_steps :: "('r, 'd) platform \<Rightarrow> ('r, 'd) cluster \<Rightarrow> ('r, 'd) cluster \<Rightarrow> bool" where
  "cluster_steps pl \<equiv> (cluster_step pl)\<^sup>*\<^sup>*"

lemma sent_simps [simp]:
  "sent [] = {}" "sent (Send m # as) = insert m (sent as)" "sent (as @ bs) = sent as \<union> sent bs"
  "(\<And>m. a \<noteq> Send m) \<Longrightarrow> sent (a # as) = sent as"
  by (auto simp: sent_def)

lemma exec_all_append: "exec_all pl (as @ bs) d = Option.bind (exec_all pl as d) (exec_all pl bs)"
  by (induction "as" arbitrary: d) (auto split: Option.bind_split)

section \<open>Quorums\<close>

locale quorum =
  fixes members :: "'a set" and need :: nat
  assumes finite_members: "finite members"
    and more_than_half: "card members < 2 * need"
begin

lemma overlap:
  assumes "A \<subseteq> members" "B \<subseteq> members" "need \<le> card A" "need \<le> card B"
  shows "A \<inter> B \<noteq> {}"
proof
  assume "A \<inter> B = {}"
  then have "card (A \<union> B) = card A + card B"
    using assms finite_members by (intro card_Un_disjoint) (auto dest: finite_subset)
  moreover have "card (A \<union> B) \<le> card members"
    using assms finite_members by (intro card_mono) auto
  ultimately show False using assms more_than_half by linarith
qed

end

definition elected :: "('r, 'd) platform \<Rightarrow> ballot set \<Rightarrow> raft_term \<Rightarrow> node_id \<Rightarrow> bool" where
  \<comment> \<open>a majority of the members has voted for \<open>i\<close> in term \<open>t\<close>\<close>
  "elected pl H t i \<longleftrightarrow>
     (\<exists>Q \<subseteq> pl_ids pl. card (pl_ids pl) div 2 + 1 \<le> card Q \<and> (\<forall>v \<in> Q. (v, t, i) \<in> H))"

section \<open>Platforms that keep the hard state\<close>

fun is_persist :: "action \<Rightarrow> bool" where
  "is_persist (PersistHardState _ _) \<longleftrightarrow> True"
| "is_persist _ \<longleftrightarrow> False"

locale durable =
  fixes pl :: "('r, 'd) platform" and hs :: "'d \<Rightarrow> hard_state" and sound :: "'d \<Rightarrow> bool"
  assumes persist: "\<lbrakk>sound d; set_option v \<subseteq> pl_ids pl; pl_exec pl (PersistHardState t v) d = Some d'\<rbrakk>
      \<Longrightarrow> sound d' \<and> hs d' = HardState t v"
    and other: "\<lbrakk>sound d; \<not> is_persist a; pl_exec pl a d = Some d'\<rbrakk> \<Longrightarrow> sound d' \<and> hs d' = hs d"
    and boot: "\<lbrakk>i \<in> pl_ids pl; sound d; pl_boot pl i d = Some n\<rbrakk>
      \<Longrightarrow> node_id n = i \<and> peers n = pl_peers pl i \<and> node_hs n = hs d \<and> role n = Follower"
    and fresh: "i \<in> pl_ids pl \<Longrightarrow> sound (pl_disk pl i) \<and> hs_vote (hs (pl_disk pl i)) = None"
    and members: "finite (pl_ids pl)" "i \<in> pl_ids pl \<Longrightarrow> card (pl_ids pl) \<le> length (pl_peers pl i) + 1"
begin

sublocale quorum "pl_ids pl" "card (pl_ids pl) div 2 + 1"
  using members(1) by unfold_locales auto

definition disk_inv :: "ballot set \<Rightarrow> node_id \<Rightarrow> 'd \<Rightarrow> bool" where
  \<comment> \<open>the ballots of \<open>i\<close> are behind its disk, and the vote on the disk is one of them\<close>
  "disk_inv H i d \<longleftrightarrow> sound d \<and>
     (\<forall>t c. (i, t, c) \<in> H \<longrightarrow> HardState t (Some c) \<le> hs d) \<and>
     (\<forall>t c c'. (i, t, c) \<in> H \<longrightarrow> (i, t, c') \<in> H \<longrightarrow> c = c') \<and>
     (\<forall>t c. hs d = HardState t (Some c) \<longrightarrow> (i, t, c) \<in> H)"

definition node_inv :: "ballot set \<Rightarrow> node_id \<Rightarrow> 'd \<Rightarrow> 'r raft_node \<Rightarrow> bool" where
  "node_inv H i d n \<longleftrightarrow> node_id n = i \<and> peers n = pl_peers pl i \<and> node_hs n = hs d \<and> vote_ok H n"

definition election_inv :: "ballot set \<Rightarrow> ('r, 'd) cluster \<Rightarrow> bool" where
  "election_inv H s \<longleftrightarrow>
     (\<forall>(v, t, c) \<in> H. v \<in> pl_ids pl) \<and>
     (\<forall>i. disks s i = None \<longleftrightarrow> i \<notin> pl_ids pl) \<and>
     (\<forall>i d. disks s i = Some d \<longrightarrow> disk_inv H i d) \<and>
     (\<forall>i n. alive s i = Some n \<longrightarrow> (\<exists>d. disks s i = Some d \<and> node_inv H i d n)) \<and>
     (\<forall>m \<in> wire s. backed H m \<and> msg_from m \<in> pl_ids pl)"

lemma disk_inv_persist:
  assumes "disk_inv H i d" and ord: "hs d \<le> HardState t v" and "sound d1" and h: "hs d1 = HardState t v"
  shows "disk_inv (H \<union> {(i, t, c) | c. v = Some c}) i d1"
proof -
  have old: "HardState t' (Some c) \<le> HardState t v" if "(i, t', c) \<in> H" for t' c
    using assms(1) that order_trans [OF _ ord] by (auto simp: disk_inv_def)
  have agree: "v = Some c" if "(i, t, c) \<in> H" for c
    using old [OF that] by (auto simp: less_eq_hard_state_def)
  have "c = c'" if "(i, t', c) \<in> H" "(i, t', c') \<in> H" for t' c c'
    using assms(1) that by (auto simp: disk_inv_def)
  with old agree assms(3) show ?thesis
    unfolding disk_inv_def h by (auto dest: agree)
qed

lemma exec_all_inv:
  assumes "exec_all pl acts d = Some d'" and "persist_run C i (hs d) acts = Some h'" and "C \<subseteq> pl_ids pl"
    and "disk_inv H i d"
  shows "disk_inv (H \<union> ballots_of i acts) i d' \<and> hs d' = h' \<and>
    (\<forall>m \<in> sent acts. backed (H \<union> ballots_of i acts) m \<and> msg_from m = i)"
  using assms
proof (induction acts arbitrary: d H)
  case (Cons a acts)
  then obtain d1 where d1: "pl_exec pl a d = Some d1" "exec_all pl acts d1 = Some d'"
    by (auto simp: bind_eq_Some_conv)
  have sound: "sound d" using Cons.prems(4) by (simp add: disk_inv_def)
  show ?case
  proof (cases "is_persist a")
    case True
    then obtain t v where a: "a = PersistHardState t v" by (cases a) auto
    with Cons.prems(2) have ord: "hs d \<le> HardState t v" "set_option v \<subseteq> C"
      and run: "persist_run C i (HardState t v) acts = Some h'"
      by (auto split: if_splits)
    have hs1: "sound d1" "hs d1 = HardState t v"
      using persist [of d v t d1] ord(2) Cons.prems(3) d1(1) a sound by auto
    let ?H = "H \<union> ballots_of i [a]"
    have "?H = H \<union> {(i, t, c) | c. v = Some c}" by (cases v) (auto simp: a)
    with disk_inv_persist [OF Cons.prems(4) ord(1) hs1] have "disk_inv ?H i d1" by simp
    from Cons.IH [OF d1(2) _ Cons.prems(3) this] run hs1
    show ?thesis by (cases v) (auto simp: a)
  next
    case False
    from other [OF sound False d1(1)] have same: "sound d1" "hs d1 = hs d" by auto
    then have inv: "disk_inv H i d1" using Cons.prems(4) by (simp add: disk_inv_def)
    have run: "persist_run C i (hs d1) acts = Some h'"
      using Cons.prems(2) False same by (cases a) (auto split: if_splits)
    have tail: "ballots_of i (a # acts) = ballots_of i acts"
      using False by (cases a) (auto simp: ballots_of_def)
    note IH = Cons.IH [OF d1(2) run Cons.prems(3) inv]
    show ?thesis
    proof (cases "\<exists>m. a = Send m")
      case True
      then obtain m where a: "a = Send m" by blast
      with Cons.prems(2) have "vote_recorded i (hs d) m" by (auto split: if_splits)
      then have "backed H m \<and> msg_from m = i"
        using Cons.prems(4) by (auto simp: vote_recorded_def backed_def disk_inv_def)
      with IH a tail show ?thesis by (auto simp: backed_def)
    next
      case False
      with IH tail show ?thesis by simp
    qed
  qed
qed simp

lemma disk_inv_mono:
  assumes "disk_inv H i d" and "\<And>t c. (i, t, c) \<in> H' \<longleftrightarrow> (i, t, c) \<in> H"
  shows "disk_inv H' i d"
  using assms by (simp add: disk_inv_def)

lemma inv_disk: "election_inv H s \<Longrightarrow> disks s i = Some d \<Longrightarrow> i \<in> pl_ids pl \<and> disk_inv H i d"
  unfolding election_inv_def by (metis option.distinct(1))

lemma inv_node:
  assumes "election_inv H s" and "alive s i = Some n"
  obtains d where "disks s i = Some d" "node_inv H i d n" "i \<in> pl_ids pl" "disk_inv H i d"
proof -
  from assms obtain d where "disks s i = Some d" "node_inv H i d n"
    unfolding election_inv_def by blast
  with inv_disk [OF assms(1)] that show ?thesis by blast
qed

lemma inv_wire: "election_inv H s \<Longrightarrow> m \<in> wire s \<Longrightarrow> backed H m \<and> msg_from m \<in> pl_ids pl"
  unfolding election_inv_def by blast

lemma event_safe:
  assumes inv: "election_inv H s" and n: "alive s i = Some n"
    and ev: "offered (wire s) i ev" "admissible (pl_env pl) n ev"
    and run: "run_event (pl_env pl) ev n = Some (n', acts)"
  shows "safe (pl_ids pl) H n (n', acts)"
proof -
  from inv_node [OF inv n] obtain d where ni: "node_inv H i d n" and i: "i \<in> pl_ids pl" .
  have ok: "vote_ok H n" "node_id n = i" using ni by (auto simp: node_inv_def)
  have below: "debug (pl_env pl) \<or> current_term n \<noteq> -1" using ev(2) by (auto simp: admissible_def)
  show ?thesis
  proof (cases ev)
    case Tick
    show ?thesis by (rule tick_safe [OF _ ok(1) below]) (use run Tick ok i in simp_all)
  next
    case (Propose cmd)
    show ?thesis by (rule propose_safe [OF _ ok(1)]) (use run Propose in simp)
  next
    case (Compact j t dat)
    show ?thesis by (rule compact_logs_safe [OF _ ok(1)]) (use run Compact in simp)
  next
    case (Deliver m)
    have to: "msg_to m = node_id n \<or> is_client_msg (msg_kind m)" and src: "m \<in> wire s \<or> (\<exists>c. msg_kind m = ClientRequest c)"
      using ev(1) Deliver ok by auto
    have mb: "backed H m" using src inv_wire [OF inv] by (auto simp: backed_def)
    show ?thesis
    proof (rule step_safe [OF _ ok(1) _ mb to])
      show "step (pl_env pl) m n = Some (n', acts)" using run Deliver by simp
      show "debug (pl_env pl) \<or> current_term n \<noteq> - 1 \<and> msg_term m \<noteq> - 1"
        using ev(2) Deliver by (auto simp: admissible_def)
      show "msg_from m \<in> pl_ids pl" if "\<not> is_client_msg (msg_kind m)"
        using src that inv_wire [OF inv] by auto
    qed (use ok i in simp)
  qed
qed

lemma acted_inv:
  \<comment> \<open>a node performs some of its actions; \<open>a\<close> is what is left of it\<close>
  assumes inv: "election_inv H s" and n: "alive s i = Some n" and d: "disks s i = Some d"
    and run: "persist_run C i (hs d) acts = Some h" "C \<subseteq> pl_ids pl" "exec_all pl acts d = Some d'"
    and a: "\<And>n'. a = Some n' \<Longrightarrow> node_inv (H \<union> ballots_of i acts) i d' n'"
  shows "election_inv (H \<union> ballots_of i acts)
    (s\<lparr>alive := (alive s)(i := a), disks := (disks s)(i \<mapsto> d'), wire := wire s \<union> sent acts\<rparr>)"
proof -
  let ?H = "H \<union> ballots_of i acts"
  have i: "i \<in> pl_ids pl" "disk_inv H i d" using inv_disk [OF inv d] by auto
  from exec_all_inv [OF run(3,1,2) i(2)]
  have d': "disk_inv ?H i d'" and out: "\<forall>m \<in> sent acts. backed ?H m \<and> msg_from m = i" by auto
  have others: "disk_inv ?H j e" if "disk_inv H j e" "j \<noteq> i" for j e
    by (rule disk_inv_mono [OF that(1)]) (use that(2) in \<open>auto simp: ballots_of_def\<close>)
  have grow: "node_inv ?H j e m" if "node_inv H j e m" for j e m
    using that vote_ok_mono by (fastforce simp: node_inv_def)
  show ?thesis
    unfolding election_inv_def
  proof (intro conjI ballI allI impI)
    fix b assume "b \<in> ?H"
    with inv i show "case b of (v, t, c) \<Rightarrow> v \<in> pl_ids pl"
      by (auto simp: election_inv_def ballots_of_def)
  next
    fix j n2
    assume n2: "alive (s\<lparr>alive := (alive s)(i := a), disks := (disks s)(i \<mapsto> d'), wire := wire s \<union> sent acts\<rparr>) j = Some n2"
    show "\<exists>e. disks (s\<lparr>alive := (alive s)(i := a), disks := (disks s)(i \<mapsto> d'), wire := wire s \<union> sent acts\<rparr>) j = Some e
        \<and> node_inv ?H j e n2"
    proof (cases "j = i")
      case True
      with n2 a show ?thesis by simp
    next
      case False
      with n2 have "alive s j = Some n2" by simp
      from inv_node [OF inv this] obtain e where "disks s j = Some e" "node_inv H j e n2" .
      with False grow show ?thesis by auto
    qed
  next
    fix m assume "m \<in> wire (s\<lparr>alive := (alive s)(i := a), disks := (disks s)(i \<mapsto> d'), wire := wire s \<union> sent acts\<rparr>)"
    then show "backed ?H m" "msg_from m \<in> pl_ids pl"
      using inv out i by (auto simp: election_inv_def backed_def)
  qed (use inv d' others i in \<open>auto simp: election_inv_def split: if_splits\<close>)
qed

lemma persist_run_take: "persist_run C i h acts = Some h' \<Longrightarrow> \<exists>h''. persist_run C i h (take k acts) = Some h''"
  using persist_run_append [of C i h "take k acts" "drop k acts"]
  by (cases "persist_run C i h (take k acts)") simp_all

lemma election_step:
  assumes "cluster_step pl s s'" and inv: "election_inv H s"
  obtains H' where "H \<subseteq> H'" "election_inv H' s'"
  using assms(1)
proof cases
  case (handle i n d ev n' acts d')
  from event_safe [OF inv handle(2,4,5,6)] have C: "safe (pl_ids pl) H n (n', acts)" .
  have ni: "node_inv H i d n" using inv_node [OF inv handle(2)] handle(3) by auto
  then have run: "persist_run (pl_ids pl) i (hs d) acts = Some (node_hs n')"
    using C by (simp add: node_inv_def)
  have "disk_inv H i d" using inv_disk [OF inv handle(3)] by simp
  from exec_all_inv [OF handle(7) run subset_refl this] have "hs d' = node_hs n'" by simp
  then have "node_inv (H \<union> ballots_of i acts) i d' n'"
    using C ni by (auto simp: node_inv_def)
  then have "election_inv (H \<union> ballots_of i acts) s'"
    unfolding handle(1) using acted_inv [OF inv handle(2,3) run subset_refl handle(7), of "Some n'"] by simp
  then show ?thesis by (intro that) auto
next
  case (die i n d ev n' acts k d')
  from event_safe [OF inv die(2,4,5,6)] have C: "safe (pl_ids pl) H n (n', acts)" .
  have "node_inv H i d n" using inv_node [OF inv die(2)] die(3) by auto
  then have "persist_run (pl_ids pl) i (hs d) acts = Some (node_hs n')"
    using C by (simp add: node_inv_def)
  then obtain h where "persist_run (pl_ids pl) i (hs d) (take k acts) = Some h" using persist_run_take by blast
  from acted_inv [OF inv die(2,3) this subset_refl die(7), of None]
  have "election_inv (H \<union> ballots_of i (take k acts)) s'" unfolding die(1) by simp
  then show ?thesis by (intro that) auto
next
  case (crash i)
  with inv have "election_inv H s'" by (auto simp: election_inv_def)
  then show ?thesis by (intro that) auto
next
  case (boot i d n)
  have i: "i \<in> pl_ids pl" "disk_inv H i d" using inv_disk [OF inv boot(2)] by auto
  from durable.boot [OF durable_axioms i(1) _ boot(3)] i(2)
  have "node_inv H i d n" by (auto simp: node_inv_def disk_inv_def vote_ok_def)
  with inv boot(1,2) have "election_inv H s'" by (auto simp: election_inv_def)
  then show ?thesis by (intro that) auto
qed

lemma election_init: "election_inv {} (cluster_init pl)"
  using fresh by (fastforce simp: election_inv_def cluster_init_def disk_inv_def split: if_splits)

lemma election_steps:
  assumes "cluster_steps pl s s'" and "election_inv H s"
  obtains H' where "H \<subseteq> H'" "election_inv H' s'"
  using assms
proof (induction arbitrary: thesis rule: rtranclp_induct)
  case (step s1 s2)
  from step.IH [OF _ step.prems(2)] obtain H1 where H1: "H \<subseteq> H1" "election_inv H1 s1" by blast
  from election_step [OF step.hyps(2) H1(2)] obtain H2 where "H1 \<subseteq> H2" "election_inv H2 s2" .
  with H1(1) show ?case by (intro step.prems(1)) auto
qed blast

lemma elected_mono: "elected pl H t i \<Longrightarrow> H \<subseteq> H' \<Longrightarrow> elected pl H' t i"
  unfolding elected_def by blast

lemma elected_unique:
  assumes "election_inv H s" and "elected pl H t i" "elected pl H t j"
  shows "i = j"
proof -
  from assms(2) obtain Q where Q: "Q \<subseteq> pl_ids pl" "card (pl_ids pl) div 2 + 1 \<le> card Q" "\<forall>v \<in> Q. (v, t, i) \<in> H"
    unfolding elected_def by blast
  from assms(3) obtain Q' where Q': "Q' \<subseteq> pl_ids pl" "card (pl_ids pl) div 2 + 1 \<le> card Q'"
    "\<forall>v \<in> Q'. (v, t, j) \<in> H" unfolding elected_def by blast
  from overlap [OF Q(1) Q'(1) Q(2) Q'(2)] obtain v where v: "v \<in> Q" "v \<in> Q'" by auto
  then have "v \<in> pl_ids pl" using Q(1) by auto
  then obtain d where "disks s v = Some d" using assms(1) by (fastforce simp: election_inv_def)
  with inv_disk [OF assms(1)] have "disk_inv H v d" by blast
  with v Q(3) Q'(3) show ?thesis unfolding disk_inv_def by blast
qed

lemma leader_votes:
  assumes "election_inv H s" and "alive s i = Some n" and "role n = Leader"
  shows "\<forall>v \<in> votes_received n. (v, current_term n, i) \<in> H" and "votes_received n \<subseteq> pl_ids pl"
    and "majority n \<le> card (votes_received n)" and "peers n = pl_peers pl i" and "node_id n = i" and "i \<in> pl_ids pl"
proof -
  from inv_node [OF assms(1,2)] obtain d where d: "disks s i = Some d" "node_inv H i d n"
    and i: "i \<in> pl_ids pl" .
  show "\<forall>v \<in> votes_received n. (v, current_term n, i) \<in> H"
    using d(2) assms(3) by (auto simp: node_inv_def vote_ok_def)
  with assms(1) show "votes_received n \<subseteq> pl_ids pl" by (auto simp: election_inv_def)
  show "majority n \<le> card (votes_received n)" "peers n = pl_peers pl i" "node_id n = i" "i \<in> pl_ids pl"
    using d(2) assms(3) i by (auto simp: node_inv_def vote_ok_def)
qed

lemma leader_elected:
  assumes "election_inv H s" and "alive s i = Some n" and "role n = Leader"
  shows "elected pl H (current_term n) i" and "node_id n = i"
proof -
  note v = leader_votes [OF assms]
  have "card (pl_ids pl) div 2 + 1 \<le> card (votes_received n)"
    using members(2) [OF v(6)] v(3,4) by (simp add: majority_def)
  with v(1,2) show "elected pl H (current_term n) i" unfolding elected_def by blast
  show "node_id n = i" by (rule v(5))
qed

text \<open>Election safety, also between two moments of a run.\<close>

lemma one_leader:
  assumes "cluster_steps pl (cluster_init pl) s" and "cluster_steps pl s s'"
    and "alive s i = Some n" "role n = Leader"
    and "alive s' j = Some n'" "role n' = Leader" and "current_term n' = current_term n"
  shows "i = j"
proof -
  from election_steps [OF assms(1) election_init] obtain H where H: "election_inv H s" by blast
  from election_steps [OF assms(2) H] obtain H' where H': "H \<subseteq> H'" "election_inv H' s'" .
  from leader_elected(1) [OF H assms(3,4)] H'(1) have "elected pl H' (current_term n) i"
    by (rule elected_mono)
  with leader_elected(1) [OF H'(2) assms(5,6)] assms(7) elected_unique [OF H'(2)] show ?thesis by metis
qed

end

end
