(* ===== verification/Simulator.thy ===== *)
theory Simulator
  imports SimNetwork SimInvariants SimDisk Cluster
begin

text \<open>
  \<open>raft-sim/src/simulator.rs\<close>: the deterministic simulator. \<open>HashMap\<close>s are finite maps whose iteration
  order is the field \<open>key_order\<close> of the environment; \<open>None\<close> is a panic. The simulator is an
  implementation of the cluster: every call is a sequence of cluster steps.
\<close>

section \<open>The simulator\<close>

record 'r simulator =
  sim_seed :: u64
  sim_rng :: 'r
  sim_nodes :: "node_id \<rightharpoonup> 'r raft_node"
  sim_disks :: "node_id \<rightharpoonup> stable_disk"
  network :: sim_network
  invariants :: safety_invariants
  tick_count :: u64
  node_configs :: "config list"

definition node_ids :: "nat \<Rightarrow> node_id list" where
  "node_ids num_nodes = map of_nat [1 ..< Suc num_nodes]"

fun make_configs :: "'r sim_env \<Rightarrow> node_id list \<Rightarrow> node_id list \<Rightarrow> 'r \<Rightarrow> config list \<times> 'r" where
  "make_configs e ids [] r = ([], r)"
| "make_configs e ids (i # is) r =
     (let (s, r1) = gen_u64 e r; (cs, r2) = make_configs e ids is r1
      in (\<lparr>cfg_id = i, cfg_peers = filter (\<lambda>p. p \<noteq> i) ids, cfg_election_timeout_ticks = 15,
           cfg_heartbeat_interval_ticks = 4, cfg_rng_seed = s\<rparr> # cs, r2))"

definition boot_node :: "'r sim_env \<Rightarrow> config list \<Rightarrow> node_id \<Rightarrow> stable_disk \<Rightarrow> 'r raft_node option" where
  \<comment> \<open>recovery in \<open>spawn_node\<close>: the log is rebuilt from the snapshot and the entries on disk\<close>
  "boot_node e cfgs i disk = do {
     config \<leftarrow> find (\<lambda>c. cfg_id c = i) cfgs;
     es \<leftarrow> vec_from (d_entries disk) 1;
     let reconstructed_log = (case d_snapshot disk of
         Some (meta, _) \<Rightarrow> log_restore meta es
       | None \<Rightarrow> log_restore \<lparr>last_included_index = sentinel_index, last_included_term = term_zero\<rparr> es);
     let initial_commit_applied = (case d_snapshot disk of
         Some (meta, _) \<Rightarrow> last_included_index meta | None \<Rightarrow> sentinel_index);
     node_restore (core e) config (d_term disk) (d_vote disk) reconstructed_log
       initial_commit_applied initial_commit_applied
   }"

definition spawn_node :: "'r sim_env \<Rightarrow> node_id \<Rightarrow> 'r simulator \<Rightarrow> 'r simulator option" where
  "spawn_node e i s = do {
     disk \<leftarrow> sim_disks s i;
     n \<leftarrow> boot_node e (node_configs s) i disk;
     Some (s\<lparr>sim_nodes := (sim_nodes s)(i \<mapsto> n)\<rparr>)
   }"

fun spawn_all :: "'r sim_env \<Rightarrow> config list \<Rightarrow> 'r simulator \<Rightarrow> 'r simulator option" where
  "spawn_all e [] s = Some s"
| "spawn_all e (c # cs) s = do { s' \<leftarrow> spawn_node e (cfg_id c) s; spawn_all e cs s' }"

definition simulator_new :: "'r sim_env \<Rightarrow> u64 \<Rightarrow> nat \<Rightarrow> 'r simulator option" where
  "simulator_new e seed num_nodes =
     (let ids = node_ids num_nodes;
          (cfgs, r) = make_configs e ids ids (seed_from_u64 (core e) seed)
      in spawn_all e cfgs
        \<lparr>sim_seed = seed, sim_rng = r, sim_nodes = Map.empty,
         sim_disks = (\<lambda>i. if i \<in> set ids then Some (disk_new i) else None),
         network = network_new, invariants = invariants_new, tick_count = 0, node_configs = cfgs\<rparr>)"

definition crash_node :: "node_id \<Rightarrow> 'r simulator \<Rightarrow> 'r simulator" where
  "crash_node i s = s\<lparr>sim_nodes := (sim_nodes s)(i := None)\<rparr>"

section \<open>Actions\<close>

fun exec_disk :: "action \<Rightarrow> stable_disk \<Rightarrow> stable_disk option" where
  \<comment> \<open>the disk operation of each arm of \<open>process_actions\<close>\<close>
  "exec_disk (Send _) d = Some d"
| "exec_disk (AppendToLog es) d = disk_append_entries es d"
| "exec_disk (TruncateAndAppend i es) d = disk_truncate_and_append i es d"
| "exec_disk (PersistHardState t v) d = Some (write_hard_state t v d)"
| "exec_disk (Apply _) d = Some d"
| "exec_disk (PersistSnapshot i t dat) d = write_snapshot i t dat d"

fun process_action :: "'r sim_env \<Rightarrow> node_id \<Rightarrow> action \<Rightarrow> 'r simulator \<Rightarrow> 'r simulator option" where
  "process_action e i (Send m) s = do {
     (w, r) \<leftarrow> network_send e m (tick_count s) (network s, sim_rng s);
     Some (s\<lparr>network := w, sim_rng := r\<rparr>)
   }"
| "process_action e i (Apply _) s = Some s"
| "process_action e i a s = do {
     d \<leftarrow> sim_disks s i;
     d' \<leftarrow> exec_disk a d;
     Some (s\<lparr>sim_disks := (sim_disks s)(i \<mapsto> d')\<rparr>)
   }"

fun process_actions :: "'r sim_env \<Rightarrow> node_id \<Rightarrow> action list \<Rightarrow> 'r simulator \<Rightarrow> 'r simulator option" where
  "process_actions e i [] s = Some s"
| "process_actions e i (a # as) s = do { s' \<leftarrow> process_action e i a s; process_actions e i as s' }"

section \<open>Steps\<close>

definition alive_ids :: "'r sim_env \<Rightarrow> 'r simulator \<Rightarrow> node_id list" where
  \<comment> \<open>\<open>self.nodes.keys()\<close>\<close>
  "alive_ids e s = key_order e (tick_count s) (filter (\<lambda>i. sim_nodes s i \<noteq> None) (map cfg_id (node_configs s)))"

definition key_order_ok :: "'r sim_env \<Rightarrow> bool" where
  "key_order_ok e \<longleftrightarrow> (\<forall>t ks. mset (key_order e t ks) = mset ks)"

definition on_node ::
  "'r sim_env \<Rightarrow> node_id \<Rightarrow> ('r raft_node \<Rightarrow> 'r outcome option) \<Rightarrow> 'r simulator \<Rightarrow> 'r simulator option" where
  \<comment> \<open>call the node if it is alive, then process the actions it returns\<close>
  "on_node e i f s =
     (case sim_nodes s i of
        None \<Rightarrow> Some s
      | Some n \<Rightarrow> do {
          (n', acts) \<leftarrow> f n;
          process_actions e i acts (s\<lparr>sim_nodes := (sim_nodes s)(i \<mapsto> n')\<rparr>)
        })"

fun deliver_all :: "'r sim_env \<Rightarrow> message list \<Rightarrow> 'r simulator \<Rightarrow> 'r simulator option" where
  "deliver_all e [] s = Some s"
| "deliver_all e (m # ms) s = do {
     s' \<leftarrow> on_node e (msg_to m) (step (core e) m) s;
     deliver_all e ms s'
   }"

fun tick_all :: "'r sim_env \<Rightarrow> node_id list \<Rightarrow> 'r simulator \<Rightarrow> 'r simulator option" where
  "tick_all e [] s = Some s"
| "tick_all e (i # is) s = do { s' \<leftarrow> on_node e i (tick (core e)) s; tick_all e is s' }"

definition compaction_data :: bytes where
  "compaction_data = map of_char ''snapshot-data-compaction''"

definition compact_if_long :: "'r env \<Rightarrow> 'r raft_node \<Rightarrow> 'r outcome option" where
  "compact_if_long e n = do {
     len \<leftarrow> log_len (debug e) (log n);
     if len > 15
     then do {
       let commit_idx = commit_index n;
       t \<leftarrow> term_at (log n) commit_idx;
       compact_logs commit_idx (case t of None \<Rightarrow> term_zero | Some t \<Rightarrow> t) compaction_data n
     }
     else Some (n, [])
   }"

fun compact_all :: "'r sim_env \<Rightarrow> node_id list \<Rightarrow> 'r simulator \<Rightarrow> 'r simulator option" where
  "compact_all e [] s = Some s"
| "compact_all e (i # is) s = do { s' \<leftarrow> on_node e i (compact_if_long (core e)) s; compact_all e is s' }"

definition simulator_step :: "'r sim_env \<Rightarrow> 'r simulator \<Rightarrow> ('r simulator \<times> (violation + unit)) option" where
  "simulator_step e s = do {
     t \<leftarrow> add_u64 (debug (core e)) (tick_count s) 1;
     let s0 = s\<lparr>tick_count := t\<rparr>;
     let (deliveries, w) = drain_due e t (network s0);
     s1 \<leftarrow> deliver_all e deliveries (s0\<lparr>network := w\<rparr>);
     s2 \<leftarrow> tick_all e (alive_ids e s1) s1;
     s3 \<leftarrow> compact_all e (alive_ids e s2) s2;
     (iv, r) \<leftarrow> verify_safety (List.map_filter (sim_nodes s3) (alive_ids e s3)) (invariants s3);
     Some (s3\<lparr>invariants := iv\<rparr>, r)
   }"

definition propose_command :: "'r sim_env \<Rightarrow> bytes \<Rightarrow> 'r simulator \<Rightarrow> ('r simulator \<times> bool) option" where
  "propose_command e cmd s =
     (case find (\<lambda>i. map_option role (sim_nodes s i) = Some Leader) (alive_ids e s) of
        None \<Rightarrow> Some (s, False)
      | Some leader \<Rightarrow> do {
          s' \<leftarrow> on_node e leader (propose (core e) cmd) s;
          Some (s', True)
        })"

end
