(* ===== verification/LogEffect.thy ===== *)
theory LogEffect
  imports NodeInv HardState
begin

text \<open>
  What a call does to the log, without any bound on the counters: where the entries it leaves in the
  log, on the disk and in messages come from, and when it creates a new one. In the dev profile an
  index or a term never wraps around: the call panics instead.
\<close>

section \<open>Effects\<close>

definition payload :: "raft_log \<Rightarrow> log_entry set" where
  \<comment> \<open>the entries above the sentinel\<close>
  "payload l = set (tl (entries l))"

definition base_of :: "'r raft_node \<Rightarrow> log_index" where
  "base_of n = e_index (hd (entries (log n)))"

definition last_of :: "'r raft_node \<Rightarrow> log_index" where
  "last_of n = e_index (last (entries (log n)))"

definition log_ok :: "'r raft_node \<Rightarrow> bool" where
  "log_ok n \<longleftrightarrow> log_wf (log n) \<and> base_of n \<le> commit_index n"

fun msg_entries :: "message_kind \<Rightarrow> log_entry set" where
  "msg_entries (AppendEntries _ _ es _) = set es"
| "msg_entries _ = {}"

fun contiguous :: "message_kind \<Rightarrow> bool" where
  "contiguous (AppendEntries prev _ es _) \<longleftrightarrow> es = [] \<or> prev \<noteq> -1 \<and> indexed_from (prev + 1) es"
| "contiguous _ \<longleftrightarrow> True"

fun act_ok :: "log_entry set \<Rightarrow> action \<Rightarrow> bool" where
  "act_ok S (Send m) \<longleftrightarrow> msg_entries (msg_kind m) \<subseteq> S \<and> contiguous (msg_kind m)"
| "act_ok S (AppendToLog es) \<longleftrightarrow> set es \<subseteq> S"
| "act_ok S (TruncateAndAppend i es) \<longleftrightarrow> set es \<subseteq> S \<and> indexed_from i es"
| "act_ok S _ \<longleftrightarrow> True"

fun base_run :: "log_index \<Rightarrow> action list \<Rightarrow> log_index option" where
  \<comment> \<open>the base of the log on disk as the actions are performed; it never goes back\<close>
  "base_run b [] = Some b"
| "base_run b (PersistSnapshot i t dat # as) = (if b \<le> i then base_run i as else None)"
| "base_run b (TruncateAndAppend i es # as) = (if b < i then base_run b as else None)"
| "base_run b (_ # as) = base_run b as"

lemma base_run_append: "base_run b (as @ bs) = Option.bind (base_run b as) (\<lambda>b'. base_run b' bs)"
  by (induction b "as" rule: base_run.induct) auto

fun spreads :: "log_entry set \<Rightarrow> 'r raft_node \<Rightarrow> 'r outcome \<Rightarrow> bool" where
  \<comment> \<open>every entry the call leaves anywhere is one of \<open>S\<close>\<close>
  "spreads S n (n', acts) \<longleftrightarrow> log_ok n' \<and> payload (log n') \<subseteq> S \<and> (\<forall>a \<in> set acts. act_ok S a) \<and>
     base_run (base_of n) acts = Some (base_of n')"

definition keeps_office :: "'r raft_node \<Rightarrow> 'r raft_node \<Rightarrow> bool" where
  \<comment> \<open>no new leader, and a leader only appends\<close>
  "keeps_office n n' \<longleftrightarrow> current_term n \<le> current_term n' \<and>
     (role n' = Candidate \<longrightarrow> role n = Candidate \<and> current_term n' = current_term n \<or> current_term n < current_term n') \<and>
     (role n' = Leader \<longrightarrow> role n = Leader \<and> current_term n' = current_term n \<and> last_of n \<le> last_of n')"

fun idle :: "action \<Rightarrow> bool" where
  \<comment> \<open>actions that carry no entries\<close>
  "idle (Send m) \<longleftrightarrow> msg_entries (msg_kind m) = {}"
| "idle (PersistHardState _ _) \<longleftrightarrow> True"
| "idle (Apply _) \<longleftrightarrow> True"
| "idle _ \<longleftrightarrow> False"

lemma idle_reply [simp]: "idle (reply n p k) \<longleftrightarrow> msg_entries k = {}"
  by (simp add: reply_def)

definition creates :: "log_entry \<Rightarrow> 'r raft_node \<Rightarrow> 'r outcome \<Rightarrow> bool" where
  \<comment> \<open>a leader, new or not, appends an entry of its own; a node that elects itself alone first writes its vote\<close>
  "creates x n = (\<lambda>(n', acts). role n' = Leader \<and> e_term x = current_term n' \<and> e_index x = last_of n + 1 \<and>
     last_of n \<noteq> -1 \<and> last_of n' = e_index x \<and>
     (role n \<in> {Leader, Candidate} \<and> current_term n' = current_term n \<and> ballots_of (node_id n) acts = {} \<or>
      current_term n < current_term n' \<and> peers n = [] \<and>
        (\<exists>ps rest. acts = ps @ PersistHardState (current_term n') (Some (node_id n)) # rest \<and> (\<forall>a \<in> set ps. idle a))))"

fun plain :: "log_entry set \<Rightarrow> 'r raft_node \<Rightarrow> 'r outcome \<Rightarrow> bool" where
  "plain S n (n', acts) \<longleftrightarrow> keeps_office n n' \<and> spreads S n (n', acts)"

fun effect :: "log_entry set \<Rightarrow> 'r raft_node \<Rightarrow> 'r outcome \<Rightarrow> bool" where
  "effect S n (n', acts) \<longleftrightarrow> plain S n (n', acts) \<or> (\<exists>x. creates x n (n', acts) \<and> spreads (insert x S) n (n', acts))"

lemma plain_effect: "plain S n r \<Longrightarrow> effect S n r"
  by (cases r) simp

lemma keeps_office_trans: "keeps_office n n1 \<Longrightarrow> keeps_office n1 n2 \<Longrightarrow> keeps_office n n2"
  unfolding keeps_office_def by (auto dest: le_less_trans less_le_trans)

lemma plain_trans: "plain S n (n1, as) \<Longrightarrow> plain S n1 (n2, bs) \<Longrightarrow> plain S n (n2, as @ bs)"
  by (auto simp: base_run_append intro: keeps_office_trans)

lemma act_ok_mono: "act_ok S a \<Longrightarrow> S \<subseteq> S' \<Longrightarrow> act_ok S' a"
  by (cases a) auto

lemma effect_after:
  assumes "plain S n (n1, as)" and same: "log n1 = log n" "node_id n1 = node_id n" "peers n1 = peers n"
    and "role n1 = Follower" and idle: "\<forall>a \<in> set as. idle a" and "effect S n1 (n2, bs)"
  shows "effect S n (n2, as @ bs)"
proof (cases "plain S n1 (n2, bs)")
  case True
  with assms(1) plain_trans plain_effect show ?thesis by blast
next
  case False
  with assms(7) obtain x where x: "creates x n1 (n2, bs)" "spreads (insert x S) n1 (n2, bs)" by auto
  have last: "last_of n1 = last_of n" using same by (simp add: last_of_def)
  from x(1) assms(5) obtain ps rest where ps: "current_term n1 < current_term n2" "peers n1 = []"
    "bs = ps @ PersistHardState (current_term n2) (Some (node_id n1)) # rest" "\<forall>a \<in> set ps. idle a"
    by (auto simp: creates_def)
  have "current_term n < current_term n2"
    using ps(1) assms(1) by (auto simp: keeps_office_def dest: le_less_trans)
  moreover have "\<exists>ps rest. as @ bs = ps @ PersistHardState (current_term n2) (Some (node_id n)) # rest \<and> (\<forall>a \<in> set ps. idle a)"
    by (rule exI [of _ "as @ ps"], rule exI [of _ rest]) (use ps(3,4) same idle in auto)
  ultimately have "creates x n (n2, as @ bs)"
    using x(1) last ps(2) same by (simp add: creates_def)
  moreover have "spreads (insert x S) n (n2, as @ bs)"
    using x(2) assms(1) act_ok_mono [OF _ subset_insertI] by (auto simp: base_run_append)
  ultimately show ?thesis by auto
qed

section \<open>Actions without effect\<close>

lemma act_ok_idle: "idle a \<Longrightarrow> act_ok S a"
proof (cases a)
  case (Send m)
  then show "idle a \<Longrightarrow> act_ok S a" by (cases "msg_kind m") auto
qed auto

lemma base_run_idle: "\<forall>a \<in> set as. idle a \<Longrightarrow> base_run b as = Some b"
  by (induction "as") (auto elim: idle.elims)

definition same_log :: "'r raft_node \<Rightarrow> 'r raft_node \<Rightarrow> bool" where
  "same_log n n' \<longleftrightarrow> log n' = log n \<and> commit_index n \<le> commit_index n'"

lemma plain_idle:
  assumes "log_ok n" "payload (log n) \<subseteq> S" "same_log n n'" "keeps_office n n'" "\<forall>a \<in> set as. idle a"
  shows "plain S n (n', as)"
  using assms by (auto simp: same_log_def log_ok_def base_of_def base_run_idle act_ok_idle)

lemma keeps_office_same:
  "\<lbrakk>role n' = role n; current_term n' = current_term n; log n' = log n\<rbrakk> \<Longrightarrow> keeps_office n n'"
  by (simp add: keeps_office_def last_of_def)

lemma keeps_office_down:
  "\<lbrakk>role n' = Follower \<or> role n' = PreCandidate; current_term n \<le> current_term n'\<rbrakk> \<Longrightarrow> keeps_office n n'"
  by (auto simp: keeps_office_def)

lemma plain_silent:
  "\<lbrakk>log_ok n; payload (log n) \<subseteq> S; \<forall>a \<in> set as. idle a\<rbrakk> \<Longrightarrow> plain S n (n, as)"
  by (rule plain_idle) (auto simp: same_log_def keeps_office_same)

lemma effect_refl: "log_ok n \<Longrightarrow> payload (log n) \<subseteq> S \<Longrightarrow> effect S n (n, [])"
  by (intro plain_effect plain_idle) (auto simp: same_log_def keeps_office_same)

section \<open>Sending entries\<close>

lemma replicate_act_ok:
  assumes "replicate_to_peer n p = Some a" and wf: "log_wf (log n)"
  shows "act_ok (payload (log n)) a" and "\<exists>m. a = Send m"
proof -
  define nxt where "nxt = (case next_index n p of None \<Rightarrow> 1 | Some i \<Rightarrow> i)"
  show "act_ok (payload (log n)) a" and "\<exists>m. a = Send m"
  proof (atomize (full), cases "nxt \<le> e_index (hd (entries (log n)))")
    case True
    with assms show "act_ok (payload (log n)) a \<and> (\<exists>m. a = Send m)"
      by (auto simp: replicate_to_peer_def nxt_def [symmetric] log_simps Let_def bind_eq_Some_conv reply_def)
  next
    case False
    then have lo: "e_index (hd (entries (log n))) < nxt" by simp
    note es = entries_from_indexed [OF wf lo]
    from assms False obtain pt where a: "a = reply n p (AppendEntries (index_prev nxt) pt
        (drop (unat nxt - log_base (log n)) (entries (log n))) (commit_index n))"
      by (auto simp: replicate_to_peer_def nxt_def [symmetric] log_simps Let_def bind_eq_Some_conv es(1))
    have "0 < nxt" using lo by (simp add: word_less_nat_alt)
    then have nz: "nxt \<noteq> 0" by auto
    then have p: "index_prev nxt + 1 = nxt" by (simp add: index_prev_def saturating_sub_def word_le_nat_alt unat_gt_0 Suc_le_eq)
    with nz have "index_prev nxt \<noteq> -1" by auto
    moreover have "set (drop (unat nxt - log_base (log n)) (entries (log n))) \<subseteq> payload (log n)"
      using lo wf by (cases "entries (log n)"; cases "unat nxt - log_base (log n)")
        (auto simp: payload_def vec_base_def word_less_nat_alt dest: in_set_dropD)
    ultimately show "act_ok (payload (log n)) a \<and> (\<exists>m. a = Send m)"
      using a p es(2) by (simp add: reply_def)
  qed
qed

lemma broadcast_act_ok:
  assumes "those (map (replicate_to_peer n) ps) = Some as" and "log_wf (log n)"
  shows "\<forall>a \<in> set as. act_ok (payload (log n)) a \<and> (\<exists>m. a = Send m)"
  using assms(1)
proof (induction ps arbitrary: "as")
  case (Cons p ps)
  then obtain a bs where "replicate_to_peer n p = Some a" "those (map (replicate_to_peer n) ps) = Some bs" "as = a # bs"
    by (auto split: option.splits)
  with Cons.IH replicate_act_ok [OF _ assms(2)] show ?case by simp
qed simp

lemma base_run_sends: "\<forall>a \<in> set as. \<exists>m. a = Send m \<Longrightarrow> base_run b as = Some b"
  by (induction "as") auto

lemma plain_sends:
  assumes "log_ok n" "payload (log n) \<subseteq> S" "same_log n n'" "keeps_office n n'"
    and "\<forall>a \<in> set as. act_ok (payload (log n)) a \<and> (\<exists>m. a = Send m)"
  shows "plain S n (n', as)"
  using assms act_ok_mono by (fastforce simp: same_log_def log_ok_def base_of_def base_run_sends)

lemma advance_plain:
  assumes "maybe_advance_commit_index e n = Some (n', acts)" "log_ok n" "payload (log n) \<subseteq> S"
  shows "plain S n (n', acts)"
  using assms(1)
proof (rule advance_frame)
  fix c a assume "n' = n\<lparr>commit_index := c, last_applied := a\<rparr>" "commit_index n \<le> c"
    "\<forall>x \<in> set acts. \<exists>ap. x = Apply ap"
  with assms(2,3) show ?thesis
    by (intro plain_idle) (auto simp: same_log_def keeps_office_same)
qed

section \<open>The helpers and handlers\<close>

lemma become_follower_plain:
  assumes "become_follower e t l n = Some (n', acts)" "log_ok n" "payload (log n) \<subseteq> S" "current_term n \<le> t"
  shows "plain S n (n', acts)" and "log n' = log n" and "role n' = Follower" and "log_ok n'"
    and "commit_index n' = commit_index n" and "node_id n' = node_id n" and "peers n' = peers n"
    and "\<forall>a \<in> set acts. idle a"
  using assms(1)
proof (atomize (full), elim become_followerE, goal_cases)
  case (1 timeout r)
  then have n': "log n' = log n" "role n' = Follower" "commit_index n' = commit_index n" "current_term n' = t"
    "node_id n' = node_id n" "peers n' = peers n"
    by simp_all
  moreover have "\<forall>a \<in> set acts. idle a" using 1 by simp
  ultimately show ?case
    using assms(2-4) plain_idle [of n S n' acts] keeps_office_down [of n' n]
    by (simp add: same_log_def log_ok_def base_of_def)
qed

lemma append_own:
  assumes wf: "log_wf (log n)" and last: "last_of n \<noteq> -1" and x: "e_index x = last_of n + 1"
    and n': "log n' = log n\<lparr>entries := entries (log n) @ [x]\<rparr>"
  shows "log_wf (log n')" "base_of n' = base_of n" "last_of n' = e_index x" "last_of n < last_of n'"
    "payload (log n') = insert x (payload (log n))"
proof -
  have "indexed_from (last_of n + 1) [x]"
    using unat_u64_less [of "last_of n + 1"] by (simp add: indexed_from_def x)
  then show "log_wf (log n')"
    using wf last unfolding n' by (intro log_append_wf) (simp_all add: last_of_def)
  show "base_of n' = base_of n" "last_of n' = e_index x" "payload (log n') = insert x (payload (log n))"
    using wf by (auto simp: n' base_of_def last_of_def payload_def)
  then show "last_of n < last_of n'" using plus_one_greater [OF last] x by simp
qed

lemma plus_one_checked: "add_u64 chk i 1 = Some j \<Longrightarrow> chk \<Longrightarrow> i \<noteq> -1 \<and> j = i + 1"
proof -
  have "(0 :: u64) < -1" by (simp add: word_less_nat_alt unat_u64_max)
  then show "add_u64 chk i 1 = Some j \<Longrightarrow> chk \<Longrightarrow> i \<noteq> -1 \<and> j = i + 1"
    by (auto simp: add_u64_def split: if_splits)
qed

lemma no_wrap: "debug e \<Longrightarrow> index_next (debug e) i = Some j \<Longrightarrow> i \<noteq> -1 \<and> j = i + 1"
  using plus_one_checked [of "debug e" i j] by (simp add: index_next_def)

lemma ballots_of_sends: "\<forall>a \<in> set as. \<exists>m. a = Send m \<Longrightarrow> ballots_of i as = {}"
  by (force simp: ballots_of_def)

lemma become_leader_appends:
  assumes "become_leader e n = Some (n', acts)" "debug e" "log_ok n" "payload (log n) \<subseteq> S"
  obtains x where "role n' = Leader" "current_term n' = current_term n" "e_term x = current_term n"
    "e_index x = last_of n + 1" "last_of n \<noteq> -1" "last_of n' = e_index x" "\<And>i. ballots_of i acts = {}"
    "spreads (insert x S) n (n', acts)"
  using assms(1)
proof (rule become_leaderE)
  fix x sends
  assume x: "x = \<lparr>e_index = e_index (last (entries (log n))) + 1, e_term = current_term n, e_command = []\<rparr>"
    "index_next (debug e) (e_index (last (entries (log n)))) = Some (e_index x)"
    and n': "n' = as_leader n (e_index x) x"
    and sends: "those (map (replicate_to_peer n') (peers n)) = Some sends"
    and acts: "acts = AppendToLog [x] # sends"
  have last: "last_of n \<noteq> -1" "e_index x = last_of n + 1"
    using no_wrap [OF assms(2) x(2)] by (simp_all add: last_of_def x(1))
  have wf: "log_wf (log n)" using assms(3) by (simp add: log_ok_def)
  have log': "log n' = log n\<lparr>entries := entries (log n) @ [x]\<rparr>" "role n' = Leader"
    "current_term n' = current_term n" "commit_index n' = commit_index n"
    by (simp_all add: n' as_leader_def)
  note own = append_own [OF wf last log'(1)]
  have sent: "\<forall>a \<in> set sends. act_ok (insert x S) a \<and> (\<exists>m. a = Send m)"
    using broadcast_act_ok [OF sends own(1)] own(5) assms(4)
    by (auto intro: act_ok_mono [of "insert x (payload (log n))" _ "insert x S"])
  then have "spreads (insert x S) n (n', acts)"
    using own assms(3,4) log' base_run_sends [of sends] by (auto simp: acts log_ok_def)
  moreover have "ballots_of i acts = {}" for i
    using ballots_of_sends [of sends] sent by (simp add: acts)
  ultimately show ?thesis
    using log' last own(3) x(1) by (intro that [of x]) simp_all
qed

lemma start_real_election_effect:
  assumes "start_real_election e n = Some (n', acts)" and "debug e" "log_ok n" "payload (log n) \<subseteq> S"
    and "log n0 = log n" "current_term n0 = current_term n" "commit_index n0 = commit_index n"
    and id: "node_id n0 = node_id n" "peers n0 = peers n"
  shows "effect S n0 (n', acts)"
proof -
  have lt: "current_term n < current_term n + 1" if "term_next (debug e) (current_term n) = Some (current_term n + 1)"
    using that assms(2) plus_one_checked [of "debug e" "current_term n"] plus_one_greater
    by (auto simp: term_next_def)
  have ok0: "log_ok n0" "payload (log n0) \<subseteq> S" using assms(3-7) by (simp_all add: log_ok_def base_of_def)
  from assms(1) show ?thesis
  proof (cases rule: start_real_electionE)
    case (campaign timeout r lli llt)
    then show ?thesis
      using ok0 lt [OF campaign(2)] assms(5-7)
      by (intro plain_effect plain_idle) (auto simp: same_log_def keeps_office_def as_candidate_def)
  next
    case (alone timeout r lead)
    let ?n1 = "as_candidate n timeout r"
    have n1: "log ?n1 = log n" "current_term ?n1 = current_term n + 1" "commit_index ?n1 = commit_index n"
      by (simp_all add: as_candidate_def)
    have "log_ok ?n1" "payload (log ?n1) \<subseteq> S" using n1 assms(3,4) by (simp_all add: log_ok_def base_of_def)
    from become_leader_appends [OF alone(3) assms(2) this] obtain x where
      x: "role n' = Leader" "current_term n' = current_term ?n1" "e_term x = current_term ?n1"
      "e_index x = last_of ?n1 + 1" "last_of ?n1 \<noteq> -1" "last_of n' = e_index x"
      "spreads (insert x S) ?n1 (n', lead)" by metis
    have same: "last_of ?n1 = last_of n0" "base_of ?n1 = base_of n0" "node_id n0 = node_id n"
      using assms(5) id n1 by (simp_all add: last_of_def base_of_def)
    have "\<exists>ps rest. acts = ps @ PersistHardState (current_term n') (Some (node_id n0)) # rest \<and> (\<forall>a \<in> set ps. idle a)"
      by (rule exI [of _ "[]"], rule exI [of _ lead]) (use alone(4) x(2) n1 same in simp)
    then have "creates x n0 (n', acts)"
      using x(1-6) same lt [OF alone(2)] assms(6) alone(1) id n1 by (simp add: creates_def)
    moreover have "spreads (insert x S) n0 (n', acts)"
      using x(7) same by (auto simp: alone(4))
    ultimately show ?thesis by auto
  qed
qed

lemma attach_scan_partial:
  assumes "log_wf l" and "attach_scan chk l es b = Some i" and "indexed_from b es"
    and "unat b \<le> Suc (log_last l)"
  shows "\<exists>j \<le> length es. i = b + of_nat j \<and> (j < length es \<longrightarrow> unat i \<le> Suc (log_last l))"
  using assms(2-)
proof (induction es arbitrary: b)
  case (Cons x xs)
  have x: "e_index x = b" using indexed_from_nth [OF Cons.prems(2), of 0] by simp
  show ?case
  proof (cases "map_option e_term (lookup l (unat b)) = Some (e_term x)")
    case True
    then have "unat b \<le> log_last l" by (auto simp: vec_lookup_def vec_end_def split: if_splits)
    moreover have "unat (b + 1) \<le> Suc (unat b)" by (simp add: unat_word_ariths mod_less_eq_dividend order_trans [OF mod_less_eq_dividend])
    ultimately have hi: "unat (b + 1) \<le> Suc (log_last l)" by linarith
    have xs: "indexed_from (b + 1) xs" using indexed_from_drop [OF Cons.prems(2), of 1] by simp
    from True Cons.prems(1) assms(1) x have "attach_scan chk l xs (b + 1) = Some i"
      by (auto simp: log_simps bind_eq_Some_conv index_next_def dest: add_u64_result)
    from Cons.IH [OF this xs hi] obtain j where "j \<le> length xs" "i = b + 1 + of_nat j"
      "j < length xs \<longrightarrow> unat i \<le> Suc (log_last l)" by blast
    then show ?thesis by (intro exI [of _ "Suc j"]) (simp add: add.assoc)
  next
    case False
    then have "attach_scan chk l (x # xs) b = Some b"
      using assms(1) x by (auto simp: log_simps)
    then have "i = b" using Cons.prems(1) by simp
    with Cons.prems(3) show ?thesis by (intro exI [of _ 0]) simp
  qed
qed (simp add: exI [of _ 0])

lemma append_new_plain:
  assumes "append_new_entries e es n = Some (n', acts)" and ok: "log_ok n" and role: "role n = Follower"
    and S: "payload (log n) \<subseteq> S" "set es \<subseteq> S" and es: "indexed_from b es"
    and hi: "unat b \<le> Suc (log_last (log n))"
  shows "plain S n (n', acts)"
  using assms(1)
proof (cases rule: append_new_entriesE)
  case kept
  show ?thesis unfolding kept by (rule plain_silent [OF ok S(1)]) simp
next
  case (merged i k l)
  have wf: "log_wf (log n)" using ok by (simp add: log_ok_def)
  have hd: "e_index (hd es) = b"
    using indexed_from_nth [OF es, of 0] merged(1) by (cases es) auto
  from attach_scan_partial [OF wf merged(3) [unfolded hd] es hi] obtain j where
    j: "j \<le> length es" "i = b + of_nat j" "j < length es \<longrightarrow> unat i \<le> Suc (log_last (log n))" by blast
  have len: "unat b + length es \<le> 2 ^ 64" using es by (simp add: indexed_from_def)
  have lo: "base_of n < i" using merged(2) wf
    by (auto simp: log_truncate_and_append_def log_simps base_of_def split: if_splits)
  have "of_nat k = (of_nat j :: u64)"
    using merged(4) j(2) by (auto simp: hd sub_u64_def split: if_splits)
  from arg_cong [OF this, of unat] have mods: "k mod 2 ^ 64 = j mod 2 ^ 64"
    by (simp add: unat_of_nat)
  have "k < 2 ^ 64" using merged(1) len by linarith
  then have "k mod 2 ^ 64 = k" by simp
  moreover have "j = 2 ^ 64 \<or> j mod 2 ^ 64 = j" using j(1) len by (cases "j = 2 ^ 64") auto
  ultimately have kj: "k = j \<or> j = 2 ^ 64" using mods by metis
  have "k = j"
  proof (rule ccontr)
    assume "k \<noteq> j"
    with kj have "j = 2 ^ 64" by simp
    with len j(1) have "unat b = 0" by linarith
    then have "b = 0" by (simp add: unat_eq_zero)
    moreover have "of_nat j = (0 :: u64)" using \<open>j = 2 ^ 64\<close> by (simp add: word_unat_eq_iff unat_of_nat)
    ultimately have "i = 0" using j(2) by simp
    with lo show False by simp
  qed
  then have i: "i = b + of_nat k" "unat i \<le> Suc (log_last (log n))" using j merged(1) by auto
  have new: "indexed_from i (drop k es)"
    using indexed_from_drop [OF es, of k] merged(1) i by simp
  have lo': "e_index (hd (entries (log n))) < i" using lo by (simp add: base_of_def)
  have l: "l = log n\<lparr>entries := spec_truncate i (drop k es) (entries (log n))\<rparr>"
    using merged(2) truncate_and_append_eq [OF wf lo'] by simp
  have "log_wf l"
    using spec_truncate_wf [OF log_wf_vec [OF wf] lo' i(2) new] by (simp add: l log_wf_def)
  moreover have base: "base_of n' = base_of n"
    using spec_truncate_hd [OF log_wf_vec [OF wf] lo'] by (simp add: merged(5) l base_of_def)
  moreover have "payload l \<subseteq> payload (log n) \<union> set es"
    using lo' wf by (cases "entries (log n)") (auto simp: l payload_def spec_truncate_def dest: in_set_dropD)
  moreover have "keeps_office n n'"
    using role by (intro keeps_office_down) (simp_all add: merged(5))
  ultimately show ?thesis
    using ok S lo new by (auto simp: merged(5,6) log_ok_def dest: in_set_dropD)
qed

lemma follow_commit_plain:
  assumes "follow_commit e lc n = Some (n', acts)" "log_ok n" "payload (log n) \<subseteq> S"
  shows "plain S n (n', acts)"
  using assms(1)
proof (rule follow_commit_frame)
  fix c a assume "n' = n\<lparr>commit_index := c, last_applied := a\<rparr>" "commit_index n \<le> c"
    "\<forall>x \<in> set acts. \<exists>ap. x = Apply ap"
  with assms(2,3) show ?thesis
    by (intro plain_idle) (auto simp: same_log_def keeps_office_same)
qed

lemma plain_reply:
  assumes "plain S n (n', acts)" and "msg_entries k = {}"
  shows "plain S n (n', acts @ [reply m p k])"
proof -
  have "plain S n' (n', [reply m p k])"
    using assms by (intro plain_idle) (auto simp: same_log_def keeps_office_same)
  with assms(1) show ?thesis by (rule plain_trans)
qed

lemma handle_append_entries_plain:
  assumes "handle_append_entries e from t prev pt es lc n = Some (n', acts)" and ok: "log_ok n"
    and S: "payload (log n) \<subseteq> S" "set es \<subseteq> S" and es: "es = [] \<or> prev \<noteq> -1 \<and> indexed_from (prev + 1) es"
  shows "plain S n (n', acts)"
  using assms(1)
proof (cases rule: handle_append_entriesE)
  case stale
  show ?thesis unfolding stale(2,3) by (rule plain_silent [OF ok]) (use S in simp_all)
next
  case (rejected ct ci acts1)
  from become_follower_plain(1) [OF rejected(2) ok S(1) rejected(1)] show ?thesis
    unfolding rejected(3) by (rule plain_reply) simp
next
  case (accepted n1 acts1 n2 acts2 acts3)
  note bf = become_follower_plain [OF accepted(2) ok S(1) accepted(1)]
  have S1: "payload (log n1) \<subseteq> S" using bf(2) S(1) by simp
  have two: "plain S n1 (n2, acts2)"
  proof (cases "es = []")
    case True
    with accepted(4) have same: "n2 = n1" "acts2 = []" by (simp_all add: append_new_entries_def)
    show ?thesis unfolding same by (rule plain_silent [OF bf(4) S1]) simp
  next
    case False
    with es have p: "prev \<noteq> -1" "indexed_from (prev + 1) es" by auto
    have wf: "log_wf (log n1)" using bf(4) by (simp add: log_ok_def)
    from accepted(3) wf have "unat prev \<le> log_last (log n1)"
      by (auto simp: log_simps vec_lookup_def vec_end_def split: if_splits)
    moreover have "unat (prev + 1) = Suc (unat prev)"
      using p(1) unat_plus_no_wrap [of prev 1] by (simp add: not_max_iff)
    ultimately have "unat (prev + 1) \<le> Suc (log_last (log n1))" by simp
    from append_new_plain [OF accepted(4) bf(4,3) S1 S(2) p(2) this] show ?thesis .
  qed
  then have n2: "log_ok n2" "payload (log n2) \<subseteq> S" by simp_all
  from follow_commit_plain [OF accepted(5) n2] have three: "plain S n2 (n', acts3)" .
  have "plain S n (n', (acts1 @ acts2 @ acts3) @ [reply n' from (AppendEntriesResponse True None None)])"
    by (intro plain_reply plain_trans [OF bf(1)] plain_trans [OF two] three) simp
  then show ?thesis using accepted(6) by simp
qed

lemma handle_append_entries_response_plain:
  assumes "handle_append_entries_response e from t s ct ci n = Some (n', acts)" and ok: "log_ok n"
    and S: "payload (log n) \<subseteq> S"
  shows "plain S n (n', acts)"
  using assms(1)
proof (cases rule: handle_append_entries_responseE)
  case ignored
  show ?thesis unfolding ignored by (rule plain_silent [OF ok S]) simp
next
  case (success mi nxt)
  let ?n1 = "n\<lparr>next_index := (next_index n)(from \<mapsto> nxt), match_index := (match_index n)(from \<mapsto> mi)\<rparr>"
  have "plain S ?n1 (n', acts)"
    by (rule advance_plain [OF success(5)]) (use ok S in \<open>simp_all add: log_ok_def base_of_def\<close>)
  then show ?thesis by (simp add: keeps_office_def base_of_def last_of_def)
next
  case (retry nxt a)
  have "log_wf (log n')" using ok retry(4) by (simp add: log_ok_def)
  from replicate_act_ok [OF retry(5) this] ok S show ?thesis
    unfolding retry(6) by (intro plain_sends) (auto simp: retry(4) same_log_def keeps_office_same)
qed

lemma handle_install_snapshot_plain:
  assumes "handle_install_snapshot e from t idx it dat done n = Some (n', acts)" and ok: "log_ok n"
    and S: "payload (log n) \<subseteq> S"
  shows "plain S n (n', acts)"
  using assms(1)
proof (cases rule: handle_install_snapshotE)
  case stale
  show ?thesis unfolding stale(2,3) by (rule plain_silent [OF ok]) (use S in simp_all)
next
  case (skipped acts1)
  from become_follower_plain(1) [OF skipped(2) ok S skipped(1)] show ?thesis
    unfolding skipped(3) by (rule plain_reply) simp
next
  case (installed n1 acts1)
  note bf = become_follower_plain [OF installed(2) ok S installed(1)]
  have "base_of n1 \<le> idx"
    using bf(4) installed(3) unfolding log_ok_def by (meson less_imp_le order_trans)
  then have "plain S n1 (n', [PersistSnapshot idx it dat])"
    using bf(3) by (auto simp: installed(4) log_install_snapshot_def log_ok_def log_wf_def base_of_def
        payload_def intro!: keeps_office_down)
  then have "plain S n1 (n', [PersistSnapshot idx it dat] @ [reply n' from InstallSnapshotResponse])"
    by (rule plain_reply) simp
  from plain_trans [OF bf(1) this] show ?thesis by (simp add: installed(5))
qed

lemma handle_install_snapshot_response_plain:
  assumes "handle_install_snapshot_response e from t n = Some (n', acts)" and ok: "log_ok n"
    and S: "payload (log n) \<subseteq> S"
  shows "plain S n (n', acts)"
  using assms(1)
proof (cases rule: handle_install_snapshot_responseE)
  case ignored
  show ?thesis unfolding ignored by (rule plain_silent [OF ok S]) simp
next
  case (counted mi nxt)
  let ?n1 = "n\<lparr>match_index := (match_index n)(from \<mapsto> mi), next_index := (next_index n)(from \<mapsto> nxt)\<rparr>"
  have "plain S ?n1 (n', acts)"
    by (rule advance_plain [OF counted(3)]) (use ok S in \<open>simp_all add: log_ok_def base_of_def\<close>)
  then show ?thesis by (simp add: keeps_office_def base_of_def last_of_def)
qed

lemma handle_request_vote_plain:
  assumes "handle_request_vote from lli llt n = Some (n', acts)" and ok: "log_ok n"
    and S: "payload (log n) \<subseteq> S"
  shows "plain S n (n', acts)"
  using assms(1)
proof (cases rule: handle_request_voteE)
  case granted
  show ?thesis
    by (rule plain_idle [OF ok S]) (simp_all add: granted(4,5) same_log_def keeps_office_same)
next
  case refused
  show ?thesis unfolding refused by (rule plain_silent [OF ok S]) simp
qed

lemma handle_request_vote_response_effect:
  assumes "handle_request_vote_response e from t g n = Some (n', acts)" and "debug e" and ok: "log_ok n"
    and S: "payload (log n) \<subseteq> S"
  shows "effect S n (n', acts)"
  using assms(1)
proof (cases rule: handle_request_vote_responseE)
  case ignored
  show ?thesis unfolding ignored by (rule effect_refl [OF ok S])
next
  case counted
  show ?thesis
    by (rule plain_effect, rule plain_idle [OF ok S]) (simp_all add: counted(4,5) same_log_def keeps_office_same)
next
  case won
  let ?n1 = "n\<lparr>votes_received := insert from (votes_received n)\<rparr>"
  have "log_ok ?n1" "payload (log ?n1) \<subseteq> S" using ok S by (simp_all add: log_ok_def base_of_def)
  from become_leader_appends [OF won(5) assms(2) this] obtain x where
    x: "role n' = Leader" "current_term n' = current_term ?n1" "e_term x = current_term ?n1"
    "e_index x = last_of ?n1 + 1" "last_of ?n1 \<noteq> -1" "last_of n' = e_index x" "\<And>i. ballots_of i acts = {}"
    "spreads (insert x S) ?n1 (n', acts)" by metis
  then have "creates x n (n', acts)" using won(1) by (simp add: creates_def last_of_def)
  with x(8) show ?thesis by (auto simp: base_of_def)
qed

lemma handle_pre_vote_response_effect:
  assumes "handle_pre_vote_response e from t g n = Some (n', acts)" and "debug e" and ok: "log_ok n"
    and S: "payload (log n) \<subseteq> S"
  shows "effect S n (n', acts)"
  using assms(1)
proof (cases rule: handle_pre_vote_responseE)
  case ignored
  show ?thesis unfolding ignored by (rule effect_refl [OF ok S])
next
  case counted
  show ?thesis
    by (rule plain_effect, rule plain_idle [OF ok S]) (simp_all add: counted same_log_def keeps_office_same)
next
  case elected
  show ?thesis
    by (rule start_real_election_effect [OF elected(5) assms(2)])
      (use ok S in \<open>simp_all add: log_ok_def base_of_def\<close>)
qed

lemma start_pre_vote_effect:
  assumes "start_pre_vote e n = Some (n', acts)" and "debug e" and ok: "log_ok n"
    and S: "payload (log n) \<subseteq> S" and n0: "log n0 = log n" "current_term n0 = current_term n" "commit_index n0 = commit_index n"
      "node_id n0 = node_id n" "peers n0 = peers n"
  shows "effect S n0 (n', acts)"
  using assms(1)
proof (cases rule: start_pre_voteE)
  case (ask timeout r t lli llt)
  have "log_ok n0" "payload (log n0) \<subseteq> S" using ok S n0 by (simp_all add: log_ok_def base_of_def)
  then have "plain S n0 (n', acts)"
    by (rule plain_idle) (use n0 in \<open>auto simp: ask(2,3) as_pre_candidate_def same_log_def intro!: keeps_office_down\<close>)
  then show ?thesis by (rule plain_effect)
next
  case (alone timeout r)
  show ?thesis
    by (rule start_real_election_effect [OF alone(2) assms(2)])
      (use ok S n0 in \<open>simp_all add: as_pre_candidate_def log_ok_def base_of_def\<close>)
qed

lemma propose_effect:
  assumes "propose e cmd n = Some (n', acts)" and dev: "debug e" and ok: "log_ok n" and S: "payload (log n) \<subseteq> S"
  shows "effect S n (n', acts)"
  using assms(1)
proof (cases rule: proposeE)
  case refused
  show ?thesis unfolding refused(2,3) by (rule effect_refl [OF ok S])
next
  case (appended x n1 sends adv)
  have last: "last_of n \<noteq> -1" "e_index x = last_of n + 1"
    using no_wrap [OF dev appended(4)] by (simp_all add: last_of_def)
  have wf: "log_wf (log n)" using ok by (simp add: log_ok_def)
  have log': "log n1 = log n\<lparr>entries := entries (log n) @ [x]\<rparr>" by (simp add: appended(5))
  note own = append_own [OF wf last log']
  have n1: "log_ok n1" "payload (log n1) \<subseteq> insert x S"
    using own(1,2,5) ok S by (auto simp: log_ok_def appended(5))
  have adv: "n' = n1\<lparr>commit_index := commit_index n', last_applied := last_applied n'\<rparr>"
    "plain (insert x S) n1 (n', adv)" "ballots_of (node_id n) adv = {}"
  proof -
    have "(\<exists>c a. n' = n1\<lparr>commit_index := c, last_applied := a\<rparr>) \<and> plain (insert x S) n1 (n', adv) \<and>
        ballots_of (node_id n) adv = {}"
    proof (cases "peers n = []")
      case True
      with appended(7) have "maybe_advance_commit_index e n1 = Some (n', adv)" by simp
      from advance_frame [OF this] obtain a c where "n' = n1\<lparr>commit_index := c, last_applied := a\<rparr>"
        "\<forall>x \<in> set adv. \<exists>ap. x = Apply ap" .
      moreover from this(2) have "ballots_of (node_id n) adv = {}" by (force simp: ballots_of_def)
      ultimately show ?thesis
        using advance_plain [OF \<open>maybe_advance_commit_index e n1 = Some (n', adv)\<close> n1] by blast
    next
      case False
      with appended(7) have same: "n' = n1" "adv = []" by auto
      have "n1 = n1\<lparr>commit_index := commit_index n1, last_applied := last_applied n1\<rparr>" by simp
      moreover have "plain (insert x S) n1 (n1, [])" by (rule plain_silent [OF n1]) simp
      ultimately show ?thesis unfolding same ballots_of_simps(1) by blast
    qed
    then show "n' = n1\<lparr>commit_index := commit_index n', last_applied := last_applied n'\<rparr>"
      "plain (insert x S) n1 (n', adv)" "ballots_of (node_id n) adv = {}" by auto
  qed
  have same: "role n' = role n1" "current_term n' = current_term n1" "log n' = log n1"
    by (simp_all add: arg_cong [OF adv(1), of role] arg_cong [OF adv(1), of current_term] arg_cong [OF adv(1), of log])
  have sent: "\<forall>a \<in> set sends. act_ok (insert x S) a \<and> (\<exists>m. a = Send m)"
    using broadcast_act_ok [OF appended(6) own(1)] n1(2) act_ok_mono by blast
  have "ballots_of (node_id n) acts = {}"
    using ballots_of_sends [of sends] sent adv(3) by (simp add: appended(8))
  then have "creates x n (n', acts)"
    using appended(1,3) last own(3) same by (simp add: creates_def appended(5) last_of_def)
  moreover
  have "spreads (insert x S) n (n', AppendToLog [x] # sends @ adv)"
    using sent adv(2) own(2) base_run_sends [of sends] by (auto simp: base_run_append)
  ultimately show ?thesis using appended(8) by auto
qed

lemma last_filter: "xs \<noteq> [] \<Longrightarrow> P (last xs) \<Longrightarrow> last (filter P xs) = last xs"
  by (cases xs rule: rev_cases) simp_all

lemma compact_logs_plain:
  assumes "compact_logs idx t dat n = Some (n', acts)" and ok: "log_ok n" and S: "payload (log n) \<subseteq> S"
    and lo: "base_of n \<le> idx"
  shows "plain S n (n', acts)"
  using assms(1)
proof (cases rule: compact_logsE)
  case refused
  show ?thesis unfolding refused by (rule plain_silent [OF ok S]) simp
next
  case (compacted l)
  have wf: "log_wf (log n)" using ok by (simp add: log_ok_def)
  let ?es = "spec_compact idx t (entries (log n))"
  have l: "l = log n\<lparr>entries := ?es\<rparr>" using compacted(2) compact_eq [OF wf] by simp
  have wf': "vec_wf ?es" using spec_compact_wf [OF log_wf_vec [OF wf]] .
  have base: "e_index (hd ?es) = idx"
    using lo spec_compact_hd [of idx t "entries (log n)"] by (simp add: base_of_def max_def)
  have "payload l \<subseteq> payload (log n)"
  proof (cases "idx \<le> e_index (hd (entries (log n)))")
    case False
    with wf show ?thesis by (cases "entries (log n)") (auto simp: l payload_def spec_compact_def)
  qed (simp add: l payload_def spec_compact_def)
  moreover have "last_of n \<le> last_of n'"
  proof (cases "idx \<le> e_index (hd (entries (log n)))")
    case True
    then show ?thesis by (simp add: compacted(3) l last_of_def spec_compact_def)
  next
    case False
    have "unat (last_of n) \<le> unat (e_index (last ?es))"
    proof (cases "\<exists>x \<in> set (entries (log n)). idx < e_index x")
      case True
      then have ne: "filter (\<lambda>x. idx < e_index x) (entries (log n)) \<noteq> []" by (simp add: filter_empty_conv)
      have lst: "idx < last_of n"
      proof -
        from True obtain k where k: "k < length (entries (log n))" "idx < e_index (entries (log n) ! k)"
          by (auto simp: in_set_conv_nth)
        with vec_wf_unat [OF log_wf_vec [OF wf] k(1)] vec_wf_end [OF log_wf_vec [OF wf]]
        show ?thesis by (auto simp: last_of_def word_less_nat_alt vec_end_def)
      qed
      have "last ?es = last (entries (log n))"
        using False ne lst last_filter [of "entries (log n)" "\<lambda>x. idx < e_index x"] wf
        by (simp add: spec_compact_def last_of_def)
      then show ?thesis by (simp add: last_of_def)
    next
      case none: False
      have "last (entries (log n)) \<in> set (entries (log n))" using wf by simp
      with none have "last_of n \<le> idx" by (auto simp: last_of_def not_less)
      moreover have "?es = [sentinel_entry idx t]"
        using none False by (simp add: spec_compact_def filter_empty_conv)
      ultimately show ?thesis by (simp add: word_le_nat_alt)
    qed
    then show ?thesis by (simp add: compacted(3) l last_of_def word_le_nat_alt)
  qed
  ultimately show ?thesis
    using S compacted(1,3,4) wf' base lo
    by (auto simp: l log_ok_def log_wf_def base_of_def keeps_office_def)
qed

lemma tick_effect:
  assumes "tick e n = Some (n', acts)" and dev: "debug e" and ok: "log_ok n" and S: "payload (log n) \<subseteq> S"
  shows "effect S n (n', acts)"
  using assms(1)
proof (cases rule: tickE)
  case (quiet he ee)
  have "plain S n (n', acts)"
    by (rule plain_idle [OF ok S]) (simp_all add: quiet same_log_def keeps_office_same)
  then show ?thesis by (rule plain_effect)
next
  case heartbeat
  have "log_wf (log n')" using ok by (simp add: heartbeat(2) log_ok_def)
  from broadcast_act_ok [OF heartbeat(3) this] ok S have "plain S n (n', acts)"
    by (intro plain_sends) (auto simp: heartbeat(2) same_log_def keeps_office_same)
  then show ?thesis by (rule plain_effect)
next
  case timeout
  show ?thesis
    by (rule start_pre_vote_effect [OF timeout(2) dev]) (use ok S in \<open>simp_all add: log_ok_def base_of_def\<close>)
qed

lemma effect_reply:
  assumes "effect S n (n', acts)" and "msg_entries k = {}"
  shows "effect S n (n', acts @ [reply m p k])"
proof (cases "plain S n (n', acts)")
  case True
  with plain_reply [OF this assms(2)] plain_effect show ?thesis by blast
next
  case False
  with assms(1) obtain x where x: "creates x n (n', acts)" "spreads (insert x S) n (n', acts)" by auto
  have "act_ok (insert x S) (reply m p k)" using assms(2) by (intro act_ok_idle) simp
  moreover have "base_run b [reply m p k] = Some b" for b by (simp add: reply_def)
  ultimately have "spreads (insert x S) n (n', acts @ [reply m p k])"
    using x(2) by (simp add: base_run_append)
  moreover have "creates x n (n', acts @ [reply m p k])"
    using x(1) by (fastforce simp: creates_def)
  ultimately show ?thesis by auto
qed

lemma dispatch_effect:
  assumes run: "dispatch e m n = Some (n', acts)" and dev: "debug e" and ok: "log_ok n"
    and S: "payload (log n) \<subseteq> S" and m: "msg_entries (msg_kind m) \<subseteq> S" "contiguous (msg_kind m)"
  shows "effect S n (n', acts)"
proof (cases "msg_kind m")
  case (ClientRequest cmd)
  show ?thesis
  proof (cases "role n = Leader")
    case True
    with run ClientRequest obtain as where
      as: "propose e cmd n = Some (n', as)" "acts = as @ [reply n' (msg_from m) (ClientResponse True (Some (node_id n')))]"
      by (auto simp: dispatch_def handle_client_request_def bind_eq_Some_conv)
    show ?thesis unfolding as(2)
      by (rule effect_reply [OF propose_effect [OF as(1) dev ok S]]) simp
  next
    case False
    with run ClientRequest have r: "n' = n" "acts = [reply n (msg_from m) (ClientResponse False (leader_id n))]"
      by (auto simp: dispatch_def handle_client_request_def)
    show ?thesis unfolding r by (rule plain_effect, rule plain_silent [OF ok S]) simp
  qed
next
  case (ClientResponse s h)
  with run have r: "n' = n" "acts = []" by (auto simp: dispatch_def)
  show ?thesis unfolding r by (rule effect_refl [OF ok S])
next
  case (PreVote lli llt)
  with run obtain g where r: "n' = n" "acts = [reply n (msg_from m) (PreVoteResponse g)]"
    by (auto simp: dispatch_def elim!: handle_pre_voteE)
  show ?thesis unfolding r by (rule plain_effect, rule plain_silent [OF ok S]) simp
next
  case (AppendEntries prev pt es lc)
  have "plain S n (n', acts)"
    by (rule handle_append_entries_plain [OF _ ok S]) (use run m AppendEntries in \<open>auto simp: dispatch_def\<close>)
  then show ?thesis by (rule plain_effect)
qed (use run in \<open>auto simp: dispatch_def simp del: plain.simps effect.simps
    intro: plain_effect handle_request_vote_plain [OF _ ok S] handle_request_vote_response_effect [OF _ dev ok S]
      handle_pre_vote_response_effect [OF _ dev ok S] handle_append_entries_response_plain [OF _ ok S]
      handle_install_snapshot_plain [OF _ ok S] handle_install_snapshot_response_plain [OF _ ok S]\<close>)

lemma step_effect:
  assumes "step e m n = Some (n', acts)" and dev: "debug e" and ok: "log_ok n"
    and S: "payload (log n) \<subseteq> S" and m: "msg_entries (msg_kind m) \<subseteq> S" "contiguous (msg_kind m)"
  shows "effect S n (n', acts)"
  using assms(1)
proof (cases rule: stepE)
  case (newer n1 acts1 acts2)
  note bf = become_follower_plain [OF newer(4) ok S less_imp_le [OF newer(1)]]
  have "payload (log n1) \<subseteq> S" using bf(2) S by simp
  from dispatch_effect [OF newer(5) dev bf(4) this m] show ?thesis
    unfolding newer(6) by (rule effect_after [OF bf(1,2,6,7,3,8)])
next
  case stale
  show ?thesis unfolding stale(2,3) by (rule effect_refl [OF ok S])
next
  case current
  show ?thesis by (rule dispatch_effect [OF current(2) dev ok S m])
qed

end
