(* ===== verification/SimJournal.thy ===== *)
theory SimJournal
  imports Simulator LogEffect
begin

text \<open>
  The simulator's disk keeps the log: whatever a node does to its disk, the entries stay indexed
  without gaps behind the snapshot they follow, no entry appears from nowhere, and recovery rebuilds
  a well-formed log.
\<close>

definition disk_payload :: "stable_disk \<Rightarrow> log_entry set" where
  "disk_payload d = set (tl (d_entries d))"

definition disk_base :: "stable_disk \<Rightarrow> log_index" where
  "disk_base d = e_index (hd (d_entries d))"

definition disk_kept :: "stable_disk \<Rightarrow> bool" where
  \<comment> \<open>the snapshot on disk, if any, is the base of the entries\<close>
  "disk_kept d \<longleftrightarrow> disk_wf d \<and>
     (case d_snapshot d of None \<Rightarrow> disk_base d = sentinel_index | Some (meta, _) \<Rightarrow> disk_base d = last_included_index meta)"

lemma write_entry_keeps:
  assumes "write_entry x es = Some es'" and wf: "vec_wf es"
  shows "vec_wf es' \<and> e_index (hd es') = e_index (hd es) \<and> set (tl es') \<subseteq> insert x (set (tl es))"
proof -
  define k where "k = unat (e_index x - e_index (hd es))"
  consider (same) "es' = es"
    | (replaced) "e_index (hd es) \<le> e_index x" "k < length es" "es' = take k es @ [x]"
    | (added) "e_index (hd es) \<le> e_index x" "k = length es" "es' = es @ [x]"
    using assms by (auto simp: write_entry_def k_def Let_def not_less split: if_splits)
  then show ?thesis
  proof cases
    case replaced
    have u: "unat (e_index x) = unat (e_index (hd es)) + k"
      using replaced(1) by (simp add: k_def unat_offset word_le_nat_alt)
    have x: "e_index x = e_index (hd es) + of_nat k" by (simp add: k_def)
    have "indexed_from (e_index (hd es)) (take k es @ [x])"
    proof (rule indexed_from_snoc)
      show "indexed_from (e_index (hd es)) (take k es)" by (intro indexed_from_take vec_wf_indexed wf)
    qed (use replaced(2) x u unat_u64_less [of "e_index x"] in \<open>simp_all add: min_def\<close>)
    then show ?thesis
      using replaced x wf by (cases k; cases es) (auto simp: vec_wf_def dest: in_set_takeD)
  next
    case added
    have u: "unat (e_index x) = unat (e_index (hd es)) + length es"
      using added(1,2) by (simp add: k_def unat_offset word_le_nat_alt)
    have x: "e_index x = e_index (hd es) + of_nat (length es)" by (simp flip: added(2) add: k_def)
    have "indexed_from (e_index (hd es)) (es @ [x])"
      using wf x u unat_u64_less [of "e_index x"] by (intro indexed_from_snoc vec_wf_indexed) auto
    then show ?thesis
      using added wf by (auto simp: vec_wf_def)
  qed (use wf in auto)
qed

lemma write_entries_keeps:
  "write_entries xs es = Some es' \<Longrightarrow> vec_wf es \<Longrightarrow>
    vec_wf es' \<and> e_index (hd es') = e_index (hd es) \<and> set (tl es') \<subseteq> set xs \<union> set (tl es)"
proof (induction xs arbitrary: es)
  case (Cons x xs)
  then obtain es1 where es1: "write_entry x es = Some es1" "write_entries xs es1 = Some es'"
    by (auto simp: bind_eq_Some_conv)
  with write_entry_keeps [OF es1(1) Cons.prems(2)] Cons.IH [OF es1(2)] show ?case by auto
qed simp

lemma take_keeps:
  assumes "vec_wf es" and "0 < k"
  shows "vec_wf (take k es) \<and> e_index (hd (take k es)) = e_index (hd es) \<and> set (tl (take k es)) \<subseteq> set (tl es)"
  using assms indexed_from_take [OF vec_wf_indexed [OF assms(1)], of k]
  by (cases es; cases k) (auto simp: vec_wf_def dest: in_set_takeD)

lemma spec_compact_payload: "vec_wf es \<Longrightarrow> set (tl (spec_compact i t es)) \<subseteq> set (tl es)"
  by (cases es) (auto simp: spec_compact_def)

lemma exec_disk_keeps:
  assumes "exec_disk a d = Some d'" and kept: "disk_kept d" and "act_ok S a"
    and base: "base_run (disk_base d) [a] = Some b" and S: "disk_payload d \<subseteq> S"
  shows "disk_kept d' \<and> disk_base d' = b \<and> disk_payload d' \<subseteq> S"
proof (cases a)
  case (AppendToLog xs)
  with assms obtain es where "write_entries xs (d_entries d) = Some es" "d' = d\<lparr>d_entries := es\<rparr>" "set xs \<subseteq> S" "b = disk_base d"
    by (auto simp: disk_append_entries_def bind_eq_Some_conv)
  with write_entries_keeps [OF this(1)] kept S show ?thesis
    by (auto simp: disk_kept_def disk_wf_def disk_base_def disk_payload_def split: option.splits)
next
  case (TruncateAndAppend i xs)
  let ?k = "unat (i - e_index (hd (d_entries d)))"
  have wf: "vec_wf (d_entries d)" using kept by (simp add: disk_kept_def disk_wf_def)
  have lo: "e_index (hd (d_entries d)) < i" and b: "b = disk_base d"
    using base by (auto simp: TruncateAndAppend disk_base_def split: if_splits)
  then have "0 < ?k" by (simp add: unat_offset_nat word_less_nat_alt)
  note tk = take_keeps [OF wf this]
  from assms(1) lo wf obtain es where es: "write_entries xs (take ?k (d_entries d)) = Some es" "d' = d\<lparr>d_entries := es\<rparr>"
    by (auto simp: TruncateAndAppend disk_truncate_and_append_def disk_append_entries_def bind_eq_Some_conv split: if_splits)
  with write_entries_keeps [OF es(1)] tk kept S b assms(3) show ?thesis
    by (auto simp: TruncateAndAppend disk_kept_def disk_wf_def disk_base_def disk_payload_def split: option.splits)
next
  case (PersistSnapshot i t dat)
  have wf: "vec_wf (d_entries d)" using kept by (simp add: disk_kept_def disk_wf_def)
  have lo: "e_index (hd (d_entries d)) \<le> i" and b: "b = i"
    using base by (auto simp: PersistSnapshot disk_base_def split: if_splits)
  have d': "d' = d\<lparr>d_entries := spec_compact i t (d_entries d),
      d_snapshot := Some (\<lparr>last_included_index = i, last_included_term = t\<rparr>, dat)\<rparr>"
    using assms(1) kept by (simp add: PersistSnapshot write_snapshot_eq disk_kept_def)
  have "e_index (hd (spec_compact i t (d_entries d))) = i"
    using lo by (simp add: spec_compact_hd max_def)
  moreover have "set (tl (spec_compact i t (d_entries d))) \<subseteq> S"
    using spec_compact_payload [OF wf] S by (simp add: disk_payload_def) (blast dest: subsetD)
  ultimately show ?thesis using spec_compact_wf [OF wf] b
    by (auto simp: d' disk_kept_def disk_wf_def disk_base_def disk_payload_def)
next
  case (PersistHardState t v)
  have "disk_base (d\<lparr>d_term := t, d_vote := v\<rparr>) = disk_base d" by (simp add: disk_base_def)
  with PersistHardState assms show ?thesis
    by (auto simp: write_hard_state_def disk_kept_def disk_wf_def disk_payload_def split: option.splits)
qed (use assms in auto)

lemma disk_new_kept: "disk_kept (disk_new i)" "disk_payload (disk_new i) = {}" "disk_base (disk_new i) = sentinel_index"
  using disk_new_wf [of i] by (simp_all add: disk_kept_def disk_payload_def disk_base_def disk_new_def sentinel_entry_def)

lemma recover_keeps:
  assumes kept: "disk_kept d" and es: "vec_from (d_entries d) 1 = Some es"
    and l: "log n = (case d_snapshot d of Some (meta, _) \<Rightarrow> log_restore meta es
       | None \<Rightarrow> log_restore \<lparr>last_included_index = sentinel_index, last_included_term = term_zero\<rparr> es)"
    and c: "commit_index n = (case d_snapshot d of Some (meta, _) \<Rightarrow> last_included_index meta | None \<Rightarrow> sentinel_index)"
  shows "log_ok n \<and> base_of n = disk_base d \<and> payload (log n) \<subseteq> disk_payload d"
proof -
  have wf: "vec_wf (d_entries d)" using kept by (simp add: disk_kept_def disk_wf_def)
  then obtain e0 where d: "d_entries d = e0 # es"
    using es by (cases "d_entries d") (auto simp: vec_from_def split: if_splits)
  obtain t where log: "log n = \<lparr>entries = sentinel_entry (e_index e0) t # es\<rparr>" and ci: "commit_index n = e_index e0"
  proof (cases "d_snapshot d")
    case None
    with kept d have "e_index e0 = sentinel_index" by (simp add: disk_kept_def disk_base_def)
    with None l c show ?thesis by (intro that [of term_zero]) (simp_all add: log_restore_def)
  next
    case (Some snap)
    obtain meta dat where snap: "snap = (meta, dat)" by (cases snap)
    with Some kept d have "e_index e0 = last_included_index meta" by (simp add: disk_kept_def disk_base_def)
    with Some snap l c show ?thesis
      by (intro that [of "last_included_term meta"]) (simp_all add: log_restore_def)
  qed
  have "indexed_from (e_index e0) ([e0] @ es)" using vec_wf_indexed [OF wf] d by simp
  then have "indexed_from (e_index e0) ([sentinel_entry (e_index e0) t] @ es)"
    unfolding indexed_from_append by (simp add: indexed_from_def)
  then have "log_wf (log n)" by (simp add: log_wf_def vec_wf_def log)
  then show ?thesis
    using d by (simp add: log_ok_def base_of_def payload_def log ci disk_base_def disk_payload_def)
qed

end
