(* ===== verification/LogMatching.thy ===== *)
theory LogMatching
  imports Cluster LogEffect
begin

text \<open>
  Log matching in a cluster: an entry is determined by its term and index, in every log, on every disk
  and in every message. The ghost \<open>G\<close> is the command each leader wrote at a position of its term; a
  leader writes each position once because it is the only one elected and only appends.
\<close>

type_synonym ledger = "raft_term \<times> log_index \<rightharpoonup> bytes"

definition recorded :: "ledger \<Rightarrow> log_entry set" where
  "recorded G = {x. G (e_term x, e_index x) = Some (e_command x)}"

lemma recorded_grow:
  assumes "G (e_term x, e_index x) = None"
  shows "insert x (recorded G) \<subseteq> recorded (G((e_term x, e_index x) \<mapsto> e_command x))"
  using assms by (auto simp: recorded_def)

lemma recorded_same: "x \<in> recorded G \<Longrightarrow> y \<in> recorded G \<Longrightarrow> e_term x = e_term y \<Longrightarrow> e_index x = e_index y \<Longrightarrow>
    e_command x = e_command y"
  by (simp add: recorded_def)

section \<open>Platforms that keep the log\<close>

locale journal = durable pl hs sound
  for pl :: "('r, 'd) platform" and hs :: "'d \<Rightarrow> hard_state" and sound :: "'d \<Rightarrow> bool" +
  fixes stored :: "'d \<Rightarrow> log_entry set"   \<comment> \<open>the entries on the disk\<close>
    and base :: "'d \<Rightarrow> log_index"         \<comment> \<open>the index of the snapshot they follow\<close>
    and kept :: "'d \<Rightarrow> bool"
  assumes store: "\<lbrakk>kept d; pl_exec pl a d = Some d'; act_ok S a; base_run (base d) [a] = Some b; stored d \<subseteq> S\<rbrakk>
      \<Longrightarrow> kept d' \<and> base d' = b \<and> stored d' \<subseteq> S"
    and recover: "\<lbrakk>kept d; i \<in> pl_ids pl; pl_boot pl i d = Some n\<rbrakk>
      \<Longrightarrow> log_ok n \<and> base_of n = base d \<and> payload (log n) \<subseteq> stored d"
    and blank: "i \<in> pl_ids pl \<Longrightarrow> kept (pl_disk pl i) \<and> stored (pl_disk pl i) = {}"
begin

definition author :: "('r, 'd) cluster \<Rightarrow> raft_term \<Rightarrow> log_index \<Rightarrow> node_id \<Rightarrow> bool" where
  \<comment> \<open>\<open>i\<close> may have written position \<open>(t, k)\<close>: it has reached the term, it will not be elected in it
    again, and while it leads the term its log extends beyond the position\<close>
  "author s t k i \<longleftrightarrow>
     (\<forall>d. disks s i = Some d \<longrightarrow> t \<le> hs_term (hs d)) \<and>
     (\<forall>n. alive s i = Some n \<longrightarrow> current_term n = t \<longrightarrow>
        role n \<noteq> Candidate \<and> (role n = Leader \<longrightarrow> k \<le> last_of n))"

definition log_inv :: "ballot set \<Rightarrow> ledger \<Rightarrow> ('r, 'd) cluster \<Rightarrow> bool" where
  "log_inv H G s \<longleftrightarrow> election_inv H s \<and>
     (\<forall>i d. disks s i = Some d \<longrightarrow> kept d \<and> stored d \<subseteq> recorded G) \<and>
     (\<forall>i n d. alive s i = Some n \<longrightarrow> disks s i = Some d \<longrightarrow>
        log_ok n \<and> payload (log n) \<subseteq> recorded G \<and> base_of n = base d) \<and>
     (\<forall>m \<in> wire s. contiguous (msg_kind m) \<and> msg_entries (msg_kind m) \<subseteq> recorded G) \<and>
     (\<forall>t k. G (t, k) \<noteq> None \<longrightarrow> (\<exists>i. elected pl H t i \<and> author s t k i))"

lemma exec_all_stored:
  assumes "exec_all pl acts d = Some d'" "kept d" "\<forall>a \<in> set acts. act_ok S a"
    "base_run (base d) acts = Some b" "stored d \<subseteq> S"
  shows "kept d' \<and> base d' = b \<and> stored d' \<subseteq> S"
  using assms
proof (induction acts arbitrary: d)
  case (Cons a acts)
  then obtain d1 where d1: "pl_exec pl a d = Some d1" "exec_all pl acts d1 = Some d'"
    by (auto simp: bind_eq_Some_conv)
  from Cons.prems(4) obtain b1 where b1: "base_run (base d) [a] = Some b1" "base_run b1 acts = Some b"
    using base_run_append [of "base d" "[a]" acts] by (cases "base_run (base d) [a]") simp_all
  from store [OF Cons.prems(2) d1(1) _ b1(1) Cons.prems(5)] Cons.prems(3)
  have "kept d1" "base d1 = b1" "stored d1 \<subseteq> S" by auto
  with Cons.IH [OF d1(2)] Cons.prems(3) b1(2) show ?case by simp
qed simp

lemma base_run_take: "base_run b acts = Some b' \<Longrightarrow> \<exists>b''. base_run b (take k acts) = Some b''"
  using base_run_append [of b "take k acts" "drop k acts"]
  by (cases "base_run b (take k acts)") simp_all

lemma sent_ok: "\<forall>a \<in> set acts. act_ok S a \<Longrightarrow> m \<in> sent acts \<Longrightarrow>
    contiguous (msg_kind m) \<and> msg_entries (msg_kind m) \<subseteq> S"
  by (force simp: sent_def)

lemma event_effect:
  assumes inv: "log_inv H G s" and n: "alive s i = Some n" and dev: "debug (pl_env pl)"
    and ev: "offered (wire s) i ev" "admissible (pl_env pl) n ev"
    and run: "run_event (pl_env pl) ev n = Some (n', acts)"
  shows "effect (recorded G) n (n', acts)"
proof -
  from inv n obtain d where "disks s i = Some d" unfolding log_inv_def by (blast elim: inv_node)
  with inv n have ok: "log_ok n" "payload (log n) \<subseteq> recorded G" by (auto simp: log_inv_def)
  show ?thesis
  proof (cases ev)
    case Tick
    with run show ?thesis by (intro tick_effect [OF _ dev ok]) simp
  next
    case (Propose cmd)
    with run show ?thesis by (intro propose_effect [OF _ dev ok]) simp
  next
    case (Compact j t dat)
    with ev(2) have "base_of n \<le> j" by (auto simp: admissible_def base_of_def)
    with run Compact show ?thesis by (intro plain_effect compact_logs_plain [OF _ ok]) simp_all
  next
    case (Deliver m)
    with ev(1) have "m \<in> wire s \<or> (\<exists>c. msg_kind m = ClientRequest c)" by auto
    with inv have "msg_entries (msg_kind m) \<subseteq> recorded G" "contiguous (msg_kind m)"
      by (auto simp: log_inv_def)
    with run Deliver show ?thesis by (intro step_effect [OF _ dev ok]) simp_all
  qed
qed

lemma vote_ok_elected:
  assumes "vote_ok H n" "role n = Leader" "node_id n = i" "peers n = pl_peers pl i" "i \<in> pl_ids pl"
    and "\<forall>(v, t, c) \<in> H. v \<in> pl_ids pl"
  shows "elected pl H (current_term n) i"
proof -
  have votes: "\<forall>v \<in> votes_received n. (v, current_term n, i) \<in> H" "majority n \<le> card (votes_received n)"
    using assms(1-3) by (auto simp: vote_ok_def)
  moreover have "votes_received n \<subseteq> pl_ids pl" using votes(1) assms(6) by auto
  moreover have "card (pl_ids pl) div 2 + 1 \<le> card (votes_received n)"
    using members(2) [OF assms(5)] votes(2) assms(4) by (simp add: majority_def)
  ultimately show ?thesis unfolding elected_def by blast
qed

lemma lone_elected:
  assumes "pl_peers pl i = []" "i \<in> pl_ids pl" "(i, t, i) \<in> H"
  shows "elected pl H t i"
  using assms members(2) [OF assms(2)] unfolding elected_def
  by (intro exI [of _ "{i}"]) auto

lemma log_inv_disk: "log_inv H G s \<Longrightarrow> disks s i = Some d \<Longrightarrow> kept d \<and> stored d \<subseteq> recorded G"
  unfolding log_inv_def by blast

lemma log_inv_election: "log_inv H G s \<Longrightarrow> election_inv H s"
  unfolding log_inv_def by blast

lemma log_inv_node:
  assumes "log_inv H G s" and "alive s i = Some n"
  shows "log_ok n \<and> payload (log n) \<subseteq> recorded G"
proof -
  from inv_node [OF log_inv_election [OF assms(1)] assms(2)] obtain d where "disks s i = Some d" .
  with assms show ?thesis unfolding log_inv_def by blast
qed

lemma log_inv_author: "log_inv H G s \<Longrightarrow> G (t, k) \<noteq> None \<Longrightarrow> \<exists>j. elected pl H t j \<and> author s t k j"
  unfolding log_inv_def by blast

lemma log_inv_wire:
  "log_inv H G s \<Longrightarrow> m \<in> wire s \<Longrightarrow> contiguous (msg_kind m) \<and> msg_entries (msg_kind m) \<subseteq> recorded G"
  unfolding log_inv_def by blast

text \<open>
  The node \<open>n\<close> of \<open>i\<close> has made a call and performed \<open>acts\<close>, all of its actions \<open>all\<close> if it is still
  alive (\<open>a = Some n'\<close>) and some of them if it died (\<open>a = None\<close>).
\<close>

lemma acted_log_inv:
  assumes inv: "log_inv H G s" and n: "alive s i = Some n" and d: "disks s i = Some d"
    and eff: "effect (recorded G) n (n', all)" and part: "acts = take k all"
    and a: "a = None \<or> a = Some n' \<and> acts = all \<and> hs d' = node_hs n'"
    and ex: "exec_all pl acts d = Some d'" and mono: "hs d \<le> hs d'"
    and s': "s' = s\<lparr>alive := (alive s)(i := a), disks := (disks s)(i \<mapsto> d'), wire := wire s \<union> sent acts\<rparr>"
    and votes: "vote_ok (H \<union> ballots_of i all) n'" "node_id n' = i" "peers n' = pl_peers pl i"
    and inv': "election_inv (H \<union> ballots_of i acts) s'"
  obtains G' where "log_inv (H \<union> ballots_of i acts) G' s'" "G \<subseteq>\<^sub>m G'"
proof -
  let ?H = "H \<union> ballots_of i acts"
  have e: "election_inv H s" using inv by (simp add: log_inv_def)
  have i: "i \<in> pl_ids pl" using inv_disk [OF e d] by simp
  have hs_n: "node_hs n = hs d" "node_id n = i" "peers n = pl_peers pl i"
    using inv_node [OF e n] d by (auto simp: node_inv_def)
  have term_n: "hs_term (hs d) = current_term n" by (simp flip: hs_n(1) add: node_hs_def)
  have term_mono: "hs_term (hs d) \<le> hs_term (hs d')" using mono by (auto simp: less_eq_hard_state_def)
  have disk: "kept d" "stored d \<subseteq> recorded G" and nd: "base_of n = base d"
    using inv n d by (auto simp: log_inv_def)
  have grow: "elected pl ?H t j" if "elected pl H t j" for t j
    using that by (rule elected_mono) simp
  \<comment> \<open>everything but the authorship carries over to any ledger \<open>G'\<close> that records what was spread\<close>
  have rest: "log_inv ?H G' s'"
    if sub: "recorded G \<subseteq> recorded G'"
      and sp: "kept d' \<and> stored d' \<subseteq> recorded G'" "\<forall>x \<in> set acts. act_ok (recorded G') x"
      and up: "\<And>n2. a = Some n2 \<Longrightarrow> log_ok n2 \<and> payload (log n2) \<subseteq> recorded G' \<and> base_of n2 = base d'"
      and au: "\<And>t k. G' (t, k) \<noteq> None \<Longrightarrow> \<exists>j. elected pl ?H t j \<and> author s' t k j" for G'
    unfolding log_inv_def
  proof (intro conjI allI impI ballI)
    fix j e assume "disks s' j = Some e"
    show "kept e" "stored e \<subseteq> recorded G'"
    proof (atomize (full), cases "j = i")
      case False
      with \<open>disks s' j = Some e\<close> have "disks s j = Some e" by (simp add: s')
      with log_inv_disk [OF inv] sub show "kept e \<and> stored e \<subseteq> recorded G'" by blast
    qed (use \<open>disks s' j = Some e\<close> sp(1) in \<open>simp add: s'\<close>)
  next
    fix j m e assume *: "alive s' j = Some m" "disks s' j = Some e"
    have "log_ok m \<and> payload (log m) \<subseteq> recorded G' \<and> base_of m = base e"
    proof (cases "j = i")
      case True
      with * up show ?thesis by (simp add: s')
    next
      case False
      with * have "alive s j = Some m" "disks s j = Some e" by (simp_all add: s')
      with inv sub show ?thesis unfolding log_inv_def by blast
    qed
    then show "log_ok m" "payload (log m) \<subseteq> recorded G'" "base_of m = base e" by auto
  next
    fix m assume "m \<in> wire s'"
    then have "m \<in> sent acts \<or> m \<in> wire s" by (auto simp: s')
    then show "contiguous (msg_kind m)" "msg_entries (msg_kind m) \<subseteq> recorded G'"
      using sent_ok [OF sp(2)] log_inv_wire [OF inv] sub by blast+
  next
    fix t k assume "G' (t, k) \<noteq> None"
    then show "\<exists>j. elected pl ?H t j \<and> author s' t k j" by (rule au)
  qed (rule inv')
  have other: "author s' t k j" if "author s t k j" "j \<noteq> i" for t k j
    using that by (simp add: author_def s')
  have down: "author s' t k i" if "author s t k i" "a = None" for t k
    using that d term_mono by (auto simp: author_def s' intro: order_trans)
  show ?thesis
  proof (cases "plain (recorded G) n (n', all) \<or> a = None \<and> (\<forall>x \<in> set acts. idle x)")
    case no_new: True
    obtain b where b: "base_run (base d) acts = Some b" "\<forall>x \<in> set acts. act_ok (recorded G) x"
      "a = Some n' \<longrightarrow> b = base_of n' \<and> log_ok n' \<and> payload (log n') \<subseteq> recorded G"
    proof (cases "plain (recorded G) n (n', all)")
      case True
      then have all: "base_run (base d) all = Some (base_of n')" "\<forall>x \<in> set acts. act_ok (recorded G) x"
        "log_ok n' \<and> payload (log n') \<subseteq> recorded G"
        using nd part by (auto dest: in_set_takeD)
      from base_run_take [OF this(1), of k] obtain b where "base_run (base d) acts = Some b"
        using part by blast
      with all a show ?thesis by (intro that [of b]) auto
    next
      case False
      with no_new have "a = None" "\<forall>x \<in> set acts. idle x" by auto
      then show ?thesis using base_run_idle act_ok_idle by (intro that [of "base d"]) auto
    qed
    from exec_all_stored [OF ex disk(1) b(2,1) disk(2)]
    have st: "kept d' \<and> base d' = b \<and> stored d' \<subseteq> recorded G" .
    then have sp: "kept d' \<and> stored d' \<subseteq> recorded G" by simp
    have up: "log_ok n2 \<and> payload (log n2) \<subseteq> recorded G \<and> base_of n2 = base d'" if "a = Some n2" for n2
      using that a b(3) st by auto
    have "log_inv ?H G s'"
    proof (rule rest [OF subset_refl sp b(2) up])
      fix t k assume "G (t, k) \<noteq> None"
      from log_inv_author [OF inv this] obtain j where j: "elected pl H t j" "author s t k j" by blast
      have "author s' t k j"
      proof (cases "j = i \<and> a \<noteq> None")
        case True
        with a no_new have a': "a = Some n'" "hs d' = node_hs n'" "keeps_office n n'" by auto
        from True j(2) have au: "author s t k i" by simp
        then have t: "t \<le> current_term n" using d term_n by (auto simp: author_def)
        have "role n' \<noteq> Candidate \<and> (role n' = Leader \<longrightarrow> k \<le> last_of n')" if "current_term n' = t"
        proof -
          have "\<not> current_term n < t" using t by simp
          moreover note a'(3) [unfolded keeps_office_def that]
          ultimately have k: "role n' = Candidate \<Longrightarrow> role n = Candidate \<and> current_term n = t"
            "role n' = Leader \<Longrightarrow> role n = Leader \<and> current_term n = t \<and> last_of n \<le> last_of n'"
            by blast+
          from au n have "current_term n = t \<Longrightarrow> role n \<noteq> Candidate \<and> (role n = Leader \<longrightarrow> k \<le> last_of n)"
            unfolding author_def by simp
          with k order_trans [of k "last_of n" "last_of n'"] show ?thesis by auto
        qed
        moreover have "t \<le> hs_term (hs d')" using t term_n term_mono by (auto intro: order_trans)
        ultimately show ?thesis using True a'(1) by (auto simp: author_def s')
      next
        case False
        with j(2) other down show ?thesis by blast
      qed
      with grow [OF j(1)] show "\<exists>j. elected pl ?H t j \<and> author s' t k j" by blast
    qed
    then show ?thesis by (rule that) simp
  next
    case new: False
    with eff obtain x where x: "creates x n (n', all)" "spreads (insert x (recorded G)) n (n', all)" by auto
    define t where "t = current_term n'"
    have xt: "e_term x = t" "role n' = Leader" "e_index x = last_of n + 1" "last_of n \<noteq> -1" "last_of n' = e_index x"
      using x(1) by (simp_all add: creates_def t_def)
    have above: "last_of n < e_index x" using plus_one_greater [OF xt(4)] xt(3) by simp
    consider (office) "role n \<in> {Leader, Candidate}" "t = current_term n" "ballots_of i all = {}"
      | (lone) ps rest where "current_term n < t" "pl_peers pl i = []"
        "all = ps @ PersistHardState t (Some i) # rest" "\<forall>a \<in> set ps. idle a"
      using x(1) hs_n(2,3) by (auto simp: creates_def t_def)
    then have elec: "elected pl ?H t i \<and> t \<le> hs_term (hs d')"
    proof cases
      case office
      have "vote_ok H n'" using votes(1) office(3) by simp
      moreover have "\<forall>(v, t, c) \<in> H. v \<in> pl_ids pl" using e by (simp add: election_inv_def)
      ultimately have "elected pl H t i"
        using vote_ok_elected [of H n' i] xt(2) votes(2,3) i by (simp add: t_def)
      with grow office(2) term_n term_mono show ?thesis by simp
    next
      case lone
      have mem: "PersistHardState t (Some i) \<in> set acts"
      proof (cases "a = None")
        case True
        with new have "\<not> (\<forall>x \<in> set (take k all). idle x)" by (simp add: part)
        with lone(4) have "length ps < k"
          unfolding lone(3) by (cases "length ps < k") (auto dest: in_set_takeD)
        then show ?thesis by (simp add: part lone(3) take_Cons')
      next
        case False
        with a lone(3) show ?thesis by auto
      qed
      then have b: "(i, t, i) \<in> ?H" by (simp add: ballots_of_def)
      have "disk_inv ?H i d'" using inv_disk [OF inv', of i d'] by (simp add: s')
      with b have "HardState t (Some i) \<le> hs d'" unfolding disk_inv_def by blast
      then have "t \<le> hs_term (hs d')" by (auto simp: less_eq_hard_state_def)
      with lone_elected [OF lone(2) i b] show ?thesis by simp
    qed
    have own: "j = i \<and> (role n = Leader \<and> current_term n = t \<and> k \<le> last_of n)"
      if "elected pl H t j" "author s t k j" for j k
    proof -
      have "j = i" using elected_unique [OF inv' grow [OF that(1)]] elec by blast
      with that(2) have au: "author s t k i" by simp
      then have "t \<le> current_term n" using d term_n by (auto simp: author_def)
      with x(1) have "current_term n = t" "role n \<in> {Leader, Candidate}"
        by (auto simp: creates_def t_def)
      with au n \<open>j = i\<close> show ?thesis by (auto simp: author_def)
    qed
    define G' where "G' = G((e_term x, e_index x) \<mapsto> e_command x)"
    have fresh: "G (e_term x, e_index x) = None"
    proof (rule ccontr)
      assume "G (e_term x, e_index x) \<noteq> None"
      from log_inv_author [OF inv this] obtain j where "elected pl H t j" "author s t (e_index x) j"
        unfolding xt(1) by blast
      from own [OF this] above show False by auto
    qed
    have sub: "insert x (recorded G) \<subseteq> recorded G'"
      unfolding G'_def by (rule recorded_grow [where x = x and G = G, OF fresh])
    have ok: "\<forall>y \<in> set all. act_ok (recorded G') y" "payload (log n') \<subseteq> recorded G'"
      using x(2) sub act_ok_mono [OF _ sub] by auto
    then have ok': "\<forall>y \<in> set acts. act_ok (recorded G') y" by (auto simp: part dest: in_set_takeD)
    have "base_run (base d) all = Some (base_of n')" using x(2) nd by simp
    moreover from base_run_take [OF this, of k] obtain b where b: "base_run (base d) acts = Some b"
      using part by blast
    ultimately have same: "a = Some n2 \<Longrightarrow> n2 = n' \<and> b = base_of n'" for n2 using a by auto
    have st: "kept d' \<and> base d' = b \<and> stored d' \<subseteq> recorded G'"
      by (rule exec_all_stored [OF ex disk(1) ok' b]) (use disk(2) sub in auto)
    have "log_inv ?H G' s'"
    proof (rule rest [OF _ _ ok'])
      fix t2 k2 assume g: "G' (t2, k2) \<noteq> None"
      show "\<exists>j. elected pl ?H t2 j \<and> author s' t2 k2 j"
      proof (cases "(t2, k2) = (e_term x, e_index x)")
        case True
        then have "author s' t2 k2 i"
          using elec a xt by (auto simp: author_def s' t_def)
        with elec True xt(1) show ?thesis by auto
      next
        case False
        with g have "G (t2, k2) \<noteq> None" by (simp add: G'_def split: if_splits)
        from log_inv_author [OF inv this] obtain j where j: "elected pl H t2 j" "author s t2 k2 j" by blast
        have "author s' t2 k2 j"
        proof (cases "j = i \<and> a \<noteq> None")
          case True
          with a have a': "a = Some n'" by auto
          have "k2 \<le> last_of n'" if "t2 = t"
            using own [of j k2] j that above xt(5) by (auto intro: order_trans less_imp_le)
          moreover have "t2 \<le> hs_term (hs d')"
            using j(2) True d term_mono by (auto simp: author_def intro: order_trans)
          ultimately show ?thesis using True a' xt(2) by (auto simp: author_def s' t_def)
        next
          case False
          with j(2) other down show ?thesis by blast
        qed
        with grow [OF j(1)] show ?thesis by blast
      qed
    qed (use sub st same ok(2) x(2) in auto)
    moreover have "G \<subseteq>\<^sub>m G'" using fresh by (auto simp: G'_def map_le_def)
    ultimately show ?thesis by (rule that)
  qed
qed

lemma log_step:
  assumes step: "cluster_step pl s s'" and dev: "debug (pl_env pl)" and inv: "log_inv H G s"
  obtains H' G' where "log_inv H' G' s'" "H \<subseteq> H'" "G \<subseteq>\<^sub>m G'"
  using step
proof cases
  case (handle i n d ev n' acts d')
  note e = log_inv_election [OF inv]
  from event_safe [OF e handle(2,4,5,6)] have C: "safe (pl_ids pl) H n (n', acts)" .
  have ni: "node_inv H i d n" using inv_node [OF e handle(2)] handle(3) by auto
  then have run: "persist_run (pl_ids pl) i (hs d) acts = Some (node_hs n')"
    using C by (simp add: node_inv_def)
  have di: "disk_inv H i d" using inv_disk [OF e handle(3)] by simp
  from exec_all_inv [OF handle(7) run subset_refl di] have hs': "hs d' = node_hs n'" by simp
  then have "node_inv (H \<union> ballots_of i acts) i d' n'"
    using C ni by (auto simp: node_inv_def)
  then have inv': "election_inv (H \<union> ballots_of i acts) s'"
    unfolding handle(1) using acted_inv [OF e handle(2,3) run subset_refl handle(7), of "Some n'"] by simp
  have "hs d \<le> hs d'" using persist_run_mono [OF run] hs' by simp
  moreover have "vote_ok (H \<union> ballots_of i acts) n'" "node_id n' = i" "peers n' = pl_peers pl i"
    using C ni by (auto simp: node_inv_def)
  moreover have "acts = take (length acts) acts" by simp
  ultimately obtain G' where "log_inv (H \<union> ballots_of i acts) G' s'" "G \<subseteq>\<^sub>m G'"
    using acted_log_inv [OF inv handle(2,3) event_effect [OF inv handle(2) dev handle(4-6)], of acts "length acts" "Some n'" d' s']
      handle(1,7) hs' inv' by auto
  then show ?thesis by (intro that) auto
next
  case (die i n d ev n' acts k d')
  note e = log_inv_election [OF inv]
  from event_safe [OF e die(2,4,5,6)] have C: "safe (pl_ids pl) H n (n', acts)" .
  have ni: "node_inv H i d n" using inv_node [OF e die(2)] die(3) by auto
  then have "persist_run (pl_ids pl) i (hs d) acts = Some (node_hs n')"
    using C by (simp add: node_inv_def)
  then obtain h where run: "persist_run (pl_ids pl) i (hs d) (take k acts) = Some h" using persist_run_take by blast
  have di: "disk_inv H i d" using inv_disk [OF e die(3)] by simp
  from exec_all_inv [OF die(7) run subset_refl di] have "hs d' = h" by simp
  with persist_run_mono [OF run] have mono: "hs d \<le> hs d'" by simp
  have inv': "election_inv (H \<union> ballots_of i (take k acts)) s'"
    unfolding die(1) using acted_inv [OF e die(2,3) run subset_refl die(7), of None] by simp
  have "vote_ok (H \<union> ballots_of i acts) n'" "node_id n' = i" "peers n' = pl_peers pl i"
    using C ni by (auto simp: node_inv_def)
  with mono inv' obtain G' where "log_inv (H \<union> ballots_of i (take k acts)) G' s'" "G \<subseteq>\<^sub>m G'"
    using acted_log_inv [OF inv die(2,3) event_effect [OF inv die(2) dev die(4-6)], of "take k acts" k None d' s']
      die(1,7) by auto
  then show ?thesis by (intro that) auto
next
  case (crash i)
  have "election_inv H s'"
    using log_inv_election [OF inv] unfolding crash by (auto simp: election_inv_def)
  moreover have au: "author s' t k j" if "author s t k j" for t k j
    using that by (auto simp: author_def crash)
  have "\<exists>j. elected pl H t j \<and> author s' t k j" if "G (t, k) \<noteq> None" for t k
    using inv that au unfolding log_inv_def by blast
  moreover have same: "disks s' = disks s" "wire s' = wire s" by (simp_all add: crash)
  have "alive s j = Some m" if "alive s' j = Some m" for j m
    using that by (auto simp: crash split: if_splits)
  then have "log_ok m \<and> payload (log m) \<subseteq> recorded G \<and> base_of m = base e"
    if "alive s' j = Some m" "disks s' j = Some e" for j m e
    using inv that unfolding log_inv_def same by blast
  ultimately have "log_inv H G s'"
    using log_inv_disk [OF inv] log_inv_wire [OF inv] unfolding log_inv_def same by blast
  then show ?thesis by (intro that) auto
next
  case (boot i d n)
  note e = log_inv_election [OF inv]
  have i: "i \<in> pl_ids pl" "disk_inv H i d" using inv_disk [OF e boot(2)] by auto
  note bt = durable.boot [OF durable_axioms i(1) _ boot(3)]
  have nn: "node_inv H i d n" "role n = Follower"
    using bt i(2) by (auto simp: node_inv_def disk_inv_def vote_ok_def)
  have e': "election_inv H s'" using e boot(1,2) nn(1) by (auto simp: election_inv_def)
  have ok: "log_ok n \<and> payload (log n) \<subseteq> recorded G \<and> base_of n = base d"
    using recover [OF _ i(1) boot(3)] log_inv_disk [OF inv boot(2)] by auto
  have au: "author s' t k j" if "author s t k j" for t k j
    using that nn(2) by (auto simp: author_def boot(1))
  have "log_inv H G s'"
    unfolding log_inv_def
  proof (intro conjI allI impI ballI)
    fix j m c assume *: "alive s' j = Some m" "disks s' j = Some c"
    have "log_ok m \<and> payload (log m) \<subseteq> recorded G \<and> base_of m = base c"
    proof (cases "j = i")
      case True
      with * ok boot(2) show ?thesis by (simp add: boot(1))
    next
      case False
      with * have "alive s j = Some m" "disks s j = Some c" by (simp_all add: boot(1))
      with inv show ?thesis unfolding log_inv_def by blast
    qed
    then show "log_ok m" "payload (log m) \<subseteq> recorded G" "base_of m = base c" by auto
  next
    fix t k assume "G (t, k) \<noteq> None"
    with inv au show "\<exists>j. elected pl H t j \<and> author s' t k j" unfolding log_inv_def by blast
  qed (use e' inv in \<open>auto simp: boot(1) log_inv_def\<close>)
  then show ?thesis by (intro that) auto
qed

lemma log_init: "log_inv {} Map.empty (cluster_init pl)"
  using election_init blank by (auto simp: log_inv_def cluster_init_def split: if_splits)

lemma log_steps:
  assumes "cluster_steps pl s s'" and dev: "debug (pl_env pl)" and "log_inv H G s"
  obtains H' G' where "log_inv H' G' s'" "H \<subseteq> H'" "G \<subseteq>\<^sub>m G'"
  using assms(1,3)
proof (induction arbitrary: thesis rule: rtranclp_induct)
  case base
  then show ?case by (intro base.prems(1) [of H G]) auto
next
  case (step s1 s2)
  from step.IH [OF _ step.prems(2)] obtain H1 G1 where 1: "log_inv H1 G1 s1" "H \<subseteq> H1" "G \<subseteq>\<^sub>m G1" by blast
  from log_step [OF step.hyps(2) dev 1(1)] obtain H2 G2 where "log_inv H2 G2 s2" "H1 \<subseteq> H2" "G1 \<subseteq>\<^sub>m G2" .
  with 1 show ?case by (intro step.prems(1) [of H2 G2]) (auto intro: map_le_trans)
qed

text \<open>Two logs of a cluster agree on the command wherever they agree on index and term.\<close>

lemma logs_agree:
  assumes "log_inv H G s" and "alive s i = Some n1" "alive s j = Some n2"
    and "x \<in> payload (log n1)" "y \<in> payload (log n2)" "e_term x = e_term y" "e_index x = e_index y"
  shows "e_command x = e_command y"
  using log_inv_node [OF assms(1,2)] log_inv_node [OF assms(1,3)] assms(4-7) recorded_same by blast

end

end
