(* ===== verification/SimCluster.thy ===== *)
theory SimCluster
  imports SimJournal LogMatching
begin

text \<open>
  The simulator implements the cluster: \<open>sim_platform\<close> is the platform whose disks are \<open>StableDisk\<close>s and
  whose recovery is \<open>spawn_node\<close>, and every public call of \<open>Simulator\<close> is a sequence of cluster steps.
  What holds of every cluster on a durable platform that keeps the log therefore holds of every simulation.
\<close>

section \<open>The platform of the simulator\<close>

definition sim_configs :: "'r sim_env \<Rightarrow> u64 \<Rightarrow> nat \<Rightarrow> config list" where
  "sim_configs e seed num_nodes =
     fst (make_configs e (node_ids num_nodes) (node_ids num_nodes) (seed_from_u64 (core e) seed))"

definition sim_platform :: "'r sim_env \<Rightarrow> config list \<Rightarrow> ('r, stable_disk) platform" where
  "sim_platform e cfgs =
     \<lparr>pl_env = core e, pl_ids = set (map cfg_id cfgs),
      pl_peers = (\<lambda>i. case find (\<lambda>c. cfg_id c = i) cfgs of None \<Rightarrow> [] | Some c \<Rightarrow> cfg_peers c),
      pl_disk = disk_new, pl_exec = exec_disk, pl_boot = boot_node e cfgs\<rparr>"

lemma sim_platform_simps [simp]:
  "pl_env (sim_platform e cfgs) = core e"
  "pl_ids (sim_platform e cfgs) = set (map cfg_id cfgs)"
  "pl_disk (sim_platform e cfgs) = disk_new"
  "pl_exec (sim_platform e cfgs) = exec_disk"
  "pl_boot (sim_platform e cfgs) = boot_node e cfgs"
  by (simp_all add: sim_platform_def)

definition disk_hs :: "stable_disk \<Rightarrow> hard_state" where
  "disk_hs d = HardState (d_term d) (d_vote d)"

lemma exec_disk_hs:
  "exec_disk a d = Some d' \<Longrightarrow> disk_hs d' = (case a of PersistHardState t v \<Rightarrow> HardState t v | _ \<Rightarrow> disk_hs d)"
  by (cases a) (auto simp: disk_hs_def write_hard_state_def disk_append_entries_def bind_eq_Some_conv
      disk_truncate_and_append_def write_snapshot_def Let_def split: if_splits)

lemma node_restore_hs:
  assumes "node_restore e c t v l commit applied = Some n"
  shows "node_id n = cfg_id c" "peers n = cfg_peers c" "node_hs n = HardState t v" "role n = Follower"
    "log n = l" "commit_index n = commit" "last_applied n = applied" "votes_received n = {}"
  using assms
  by (auto simp: node_restore_def node_new_def Let_def bind_eq_Some_conv node_hs_def split: if_splits)

lemma find_config: "find (\<lambda>c. cfg_id c = i) cfgs = Some c \<Longrightarrow> cfg_id c = i \<and> c \<in> set cfgs"
  by (auto simp: find_Some_iff)

lemma boot_nodeE:
  assumes "boot_node e cfgs i d = Some n"
  obtains c es where "find (\<lambda>c. cfg_id c = i) cfgs = Some c" "vec_from (d_entries d) 1 = Some es"
    "node_id n = i" "peers n = cfg_peers c" "node_hs n = disk_hs d" "role n = Follower"
    "log n = (case d_snapshot d of Some (meta, _) \<Rightarrow> log_restore meta es
       | None \<Rightarrow> log_restore \<lparr>last_included_index = sentinel_index, last_included_term = term_zero\<rparr> es)"
    "commit_index n = (case d_snapshot d of Some (meta, _) \<Rightarrow> last_included_index meta | None \<Rightarrow> sentinel_index)"
    "last_applied n = commit_index n"
proof -
  from assms obtain c es l j where *: "find (\<lambda>c. cfg_id c = i) cfgs = Some c" "vec_from (d_entries d) 1 = Some es"
    "l = (case d_snapshot d of Some (meta, _) \<Rightarrow> log_restore meta es
       | None \<Rightarrow> log_restore \<lparr>last_included_index = sentinel_index, last_included_term = term_zero\<rparr> es)"
    "j = (case d_snapshot d of Some (meta, _) \<Rightarrow> last_included_index meta | None \<Rightarrow> sentinel_index)"
    "node_restore (core e) c (d_term d) (d_vote d) l j j = Some n"
    by (auto simp: boot_node_def bind_eq_Some_conv Let_def)
  from node_restore_hs [OF *(5)] find_config [OF *(1)] * show ?thesis
    by (intro that) (simp_all add: disk_hs_def)
qed

lemma make_configs_ids: "map cfg_id (fst (make_configs e all ks r)) = ks"
  by (induction ks arbitrary: r) (auto split: prod.splits, metis fst_conv)

lemma make_configs_peers:
  "\<forall>c \<in> set (fst (make_configs e all ks r)). cfg_peers c = filter (\<lambda>p. p \<noteq> cfg_id c) all \<and>
    cfg_election_timeout_ticks c = 15 \<and> cfg_heartbeat_interval_ticks c = 4"
proof (induction ks arbitrary: r)
  case (Cons k ks)
  obtain x r1 where g: "gen_u64 e r = (x, r1)" by fastforce
  from Cons [of r1] show ?case by (simp add: g split: prod.splits)
qed simp

lemma sim_configs_ids [simp]: "map cfg_id (sim_configs e seed num) = node_ids num"
  by (simp add: sim_configs_def make_configs_ids)

lemma peers_enough: "card (set ks) \<le> length (filter (\<lambda>p. p \<noteq> i) ks) + 1"
proof -
  have "card (set ks) \<le> card (insert i (set (filter (\<lambda>p. p \<noteq> i) ks)))"
    by (rule card_mono) auto
  also have "\<dots> \<le> card (set (filter (\<lambda>p. p \<noteq> i) ks)) + 1"
    by (simp add: card_insert_if)
  also have "\<dots> \<le> length (filter (\<lambda>p. p \<noteq> i) ks) + 1"
    by (intro add_mono card_length) simp
  finally show ?thesis .
qed

interpretation sim: durable "sim_platform e (sim_configs e seed num)" disk_hs "\<lambda>_. True" for e seed num
proof
  fix v t d d'
  assume "pl_exec (sim_platform e (sim_configs e seed num)) (PersistHardState t v) d = Some d'"
  then show "True \<and> disk_hs d' = HardState t v" by (auto simp: disk_hs_def write_hard_state_def)
next
  fix a d d'
  assume "\<not> is_persist a" "pl_exec (sim_platform e (sim_configs e seed num)) a d = Some d'"
  then have "exec_disk a d = Some d'" "\<not> is_persist a" by simp_all
  from exec_disk_hs [OF this(1)] this(2) show "True \<and> disk_hs d' = disk_hs d" by (cases a) simp_all
next
  fix i d n
  assume "pl_boot (sim_platform e (sim_configs e seed num)) i d = Some n"
  then have "boot_node e (sim_configs e seed num) i d = Some n" by simp
  then show "node_id n = i \<and> peers n = pl_peers (sim_platform e (sim_configs e seed num)) i \<and>
      node_hs n = disk_hs d \<and> role n = Follower"
    by (elim boot_nodeE) (simp add: sim_platform_def)
next
  fix i assume "i \<in> pl_ids (sim_platform e (sim_configs e seed num))"
  then have "i \<in> cfg_id ` set (sim_configs e seed num)" by (simp del: sim_configs_ids)
  then obtain c where c: "find (\<lambda>c. cfg_id c = i) (sim_configs e seed num) = Some c"
    by (cases "find (\<lambda>c. cfg_id c = i) (sim_configs e seed num)") (auto simp: find_None_iff)
  with find_config [OF c] have "cfg_peers c = filter (\<lambda>p. p \<noteq> i) (node_ids num)"
    using make_configs_peers [of e "node_ids num" "node_ids num" "seed_from_u64 (core e) seed"]
    unfolding sim_configs_def by auto
  with c peers_enough [of "node_ids num" i]
  show "card (pl_ids (sim_platform e (sim_configs e seed num))) \<le>
      length (pl_peers (sim_platform e (sim_configs e seed num)) i) + 1"
    by (simp add: sim_platform_def flip: set_map)
qed (simp_all add: disk_hs_def disk_new_def)

interpretation simj: journal "sim_platform e (sim_configs e seed num)" disk_hs "\<lambda>_. True"
    disk_payload disk_base disk_kept for e seed num
proof
  fix d a d' S b
  assume "disk_kept d" "pl_exec (sim_platform e (sim_configs e seed num)) a d = Some d'" "act_ok S a"
    "base_run (disk_base d) [a] = Some b" "disk_payload d \<subseteq> S"
  then show "disk_kept d' \<and> disk_base d' = b \<and> disk_payload d' \<subseteq> S"
    by (intro exec_disk_keeps [of a d]) simp_all
next
  fix d i n
  assume "disk_kept d" "pl_boot (sim_platform e (sim_configs e seed num)) i d = Some n"
  then have "boot_node e (sim_configs e seed num) i d = Some n" "disk_kept d" by simp_all
  then show "log_ok n \<and> base_of n = disk_base d \<and> payload (log n) \<subseteq> disk_payload d"
    by (elim boot_nodeE) (rule recover_keeps)
qed (simp_all add: disk_new_kept)

section \<open>The simulator implements the cluster\<close>

definition sim_rel :: "config list \<Rightarrow> 'r simulator \<Rightarrow> ('r, stable_disk) cluster \<Rightarrow> bool" where
  \<comment> \<open>what is in flight is on the wire; the wire also remembers what was lost or delivered\<close>
  "sim_rel cfgs s c \<longleftrightarrow> node_configs s = cfgs \<and> alive c = sim_nodes s \<and> disks c = sim_disks s \<and>
     carried (network s) \<subseteq> wire c \<and> dom (sim_nodes s) \<subseteq> dom (sim_disks s)"

lemma process_action_effect:
  assumes "process_action e i a s = Some s'" and "sim_disks s i = Some d"
  obtains d' w r where "exec_disk a d = Some d'"
    "s' = s\<lparr>sim_disks := (sim_disks s)(i \<mapsto> d'), network := w, sim_rng := r\<rparr>"
    "carried w \<subseteq> carried (network s) \<union> sent [a]"
proof (cases "\<exists>m. a = Send m")
  case True
  then obtain m where a: "a = Send m" by blast
  with assms(1) obtain w r where "network_send e m (tick_count s) (network s, sim_rng s) = Some (w, r)"
    "s' = s\<lparr>network := w, sim_rng := r\<rparr>" by (auto simp: bind_eq_Some_conv)
  with a assms(2) network_send_carried show ?thesis
    by (intro that [where d' = d and w = w and r = r]) (fastforce simp: fun_upd_idem)+
next
  case False
  with assms obtain d' where "exec_disk a d = Some d'" "s' = s\<lparr>sim_disks := (sim_disks s)(i \<mapsto> d')\<rparr>"
    by (cases a) (auto simp: bind_eq_Some_conv fun_upd_idem)
  then show ?thesis by (intro that [where d' = d' and w = "network s" and r = "sim_rng s"]) auto
qed

lemma process_actions_effect:
  assumes "process_actions e i acts s = Some s'" and "sim_disks s i = Some d"
  obtains d' w r where "exec_all (sim_platform e cfgs) acts d = Some d'"
    "s' = s\<lparr>sim_disks := (sim_disks s)(i \<mapsto> d'), network := w, sim_rng := r\<rparr>"
    "carried w \<subseteq> carried (network s) \<union> sent acts"
  using assms
proof (induction acts arbitrary: s d thesis)
  case Nil
  then show ?case by (intro Nil.prems(1) [where d' = d and w = "network s" and r = "sim_rng s"]) (auto simp: fun_upd_idem)
next
  case (Cons a acts)
  from Cons.prems(2) obtain s1 where s1: "process_action e i a s = Some s1" "process_actions e i acts s1 = Some s'"
    by (auto simp: bind_eq_Some_conv)
  from process_action_effect [OF s1(1) Cons.prems(3)] obtain d1 w1 r1 where
    one: "exec_disk a d = Some d1" "s1 = s\<lparr>sim_disks := (sim_disks s)(i \<mapsto> d1), network := w1, sim_rng := r1\<rparr>"
    "carried w1 \<subseteq> carried (network s) \<union> sent [a]" by blast
  then have "sim_disks s1 i = Some d1" by simp
  from Cons.IH [OF _ s1(2) this] obtain d2 w2 r2 where
    rest: "exec_all (sim_platform e cfgs) acts d1 = Some d2"
    "s' = s1\<lparr>sim_disks := (sim_disks s1)(i \<mapsto> d2), network := w2, sim_rng := r2\<rparr>"
    "carried w2 \<subseteq> carried (network s1) \<union> sent acts" by blast
  have "sent (a # acts) = sent [a] \<union> sent acts" by (auto simp: sent_def)
  with one rest show ?case by (intro Cons.prems(1) [where d' = d2 and w = w2 and r = r2]) (auto simp del: fun_upd_apply)
qed

lemma on_node_cluster:
  assumes rel: "sim_rel cfgs s c" and dev: "debug (core e)"
    and f: "\<And>n. f n = run_event (core e) ev n \<or> f n = Some (n, [])" and off: "offered (wire c) i ev"
    and above: "\<And>n idx t dat. sim_nodes s i = Some n \<Longrightarrow> ev = Compact idx t dat \<Longrightarrow> base_of n \<le> idx"
    and run: "on_node e i f s = Some s'"
  obtains c' where "cluster_steps (sim_platform e cfgs) c c'" "sim_rel cfgs s' c'" "wire c \<subseteq> wire c'"
    "invariants s' = invariants s" "tick_count s' = tick_count s"
proof (cases "sim_nodes s i")
  case None
  with run have "s' = s" by (simp add: on_node_def)
  with rel show ?thesis by (intro that [of c]) auto
next
  case (Some n)
  with run obtain n' acts where f': "f n = Some (n', acts)"
    and acts: "process_actions e i acts (s\<lparr>sim_nodes := (sim_nodes s)(i \<mapsto> n')\<rparr>) = Some s'"
    by (auto simp: on_node_def bind_eq_Some_conv)
  show ?thesis
  proof (cases "f n = Some (n, [])")
    case True
    with f' acts Some have "s' = s" by (auto simp: fun_upd_idem)
    with rel show ?thesis by (intro that [of c]) auto
  next
    case False
    with f [of n] f' have run': "run_event (pl_env (sim_platform e cfgs)) ev n = Some (n', acts)" by auto
    from rel Some obtain d where d: "sim_disks s i = Some d" by (auto simp: sim_rel_def dom_def)
    then have "sim_disks (s\<lparr>sim_nodes := (sim_nodes s)(i \<mapsto> n')\<rparr>) i = Some d" by simp
    from acts this obtain d' w r where
      ex: "exec_all (sim_platform e cfgs) acts d = Some d'"
        "s' = s\<lparr>sim_nodes := (sim_nodes s)(i \<mapsto> n'), sim_disks := (sim_disks s)(i \<mapsto> d'), network := w, sim_rng := r\<rparr>"
        "carried w \<subseteq> carried (network s) \<union> sent acts"
      by (rule process_actions_effect [where cfgs = cfgs]) (rule that, simp_all)
    let ?c' = "c\<lparr>alive := (alive c)(i \<mapsto> n'), disks := (disks c)(i \<mapsto> d'), wire := wire c \<union> sent acts\<rparr>"
    have "cluster_step (sim_platform e cfgs) c ?c'"
    proof (rule cluster_step.handle [OF _ _ off _ run' ex(1)])
      show "admissible (pl_env (sim_platform e cfgs)) n ev"
        using dev above [OF Some] by (auto simp: admissible_def base_of_def)
    qed (use rel Some d in \<open>simp_all add: sim_rel_def\<close>)
    moreover have "sim_rel cfgs s' ?c'"
      using rel ex(3) d unfolding ex(2) by (auto simp: sim_rel_def)
    ultimately show ?thesis using ex(2) by (intro that [of ?c']) auto
  qed
qed

lemma deliver_all_cluster:
  assumes "sim_rel cfgs s c" and "debug (core e)" and "set ms \<subseteq> wire c" and "deliver_all e ms s = Some s'"
  obtains c' where "cluster_steps (sim_platform e cfgs) c c'" "sim_rel cfgs s' c'"
    "invariants s' = invariants s" "tick_count s' = tick_count s"
  using assms
proof (induction ms arbitrary: s c thesis)
  case Nil
  then show ?case by auto
next
  case (Cons m ms)
  from Cons.prems(5) obtain s1 where s1: "on_node e (msg_to m) (step (core e) m) s = Some s1"
    "deliver_all e ms s1 = Some s'" by (auto simp: bind_eq_Some_conv)
  have "offered (wire c) (msg_to m) (Deliver m)" using Cons.prems(4) by simp
  from on_node_cluster [OF Cons.prems(2,3) _ this _ s1(1)] obtain c1 where
    c1: "cluster_steps (sim_platform e cfgs) c c1" "sim_rel cfgs s1 c1" "wire c \<subseteq> wire c1"
      "invariants s1 = invariants s" "tick_count s1 = tick_count s" by auto
  from Cons.IH [OF _ c1(2) Cons.prems(3) _ s1(2)] c1(3) Cons.prems(4) obtain c2 where
    "cluster_steps (sim_platform e cfgs) c1 c2" "sim_rel cfgs s' c2"
      "invariants s' = invariants s1" "tick_count s' = tick_count s1" by auto
  with c1 show ?case by (intro Cons.prems(1) [of c2]) auto
qed

lemma tick_all_cluster:
  assumes "sim_rel cfgs s c" and "debug (core e)" and "tick_all e is s = Some s'"
  obtains c' where "cluster_steps (sim_platform e cfgs) c c'" "sim_rel cfgs s' c'"
    "invariants s' = invariants s" "tick_count s' = tick_count s"
  using assms
proof (induction "is" arbitrary: s c thesis)
  case Nil
  then show ?case by auto
next
  case (Cons i "is")
  from Cons.prems(4) obtain s1 where s1: "on_node e i (tick (core e)) s = Some s1"
    "tick_all e is s1 = Some s'" by (auto simp: bind_eq_Some_conv)
  have "offered (wire c) i Tick" by simp
  from on_node_cluster [OF Cons.prems(2,3) _ this _ s1(1)] obtain c1 where
    c1: "cluster_steps (sim_platform e cfgs) c c1" "sim_rel cfgs s1 c1"
      "invariants s1 = invariants s" "tick_count s1 = tick_count s" by auto
  from Cons.IH [OF _ c1(2) Cons.prems(3) s1(2)] obtain c2 where
    "cluster_steps (sim_platform e cfgs) c1 c2" "sim_rel cfgs s' c2"
      "invariants s' = invariants s1" "tick_count s' = tick_count s1" by auto
  with c1 show ?case by (intro Cons.prems(1) [of c2]) auto
qed

definition reached :: "'r sim_env \<Rightarrow> u64 \<Rightarrow> nat \<Rightarrow> ('r, stable_disk) cluster \<Rightarrow> bool" where
  "reached e seed num c \<longleftrightarrow> cluster_steps (sim_platform e (sim_configs e seed num))
     (cluster_init (sim_platform e (sim_configs e seed num))) c"

lemma reached_log_ok:
  assumes "reached e seed num c" and dev: "debug (core e)" and "alive c i = Some n"
  shows "log_ok n"
proof -
  have "debug (pl_env (sim_platform e (sim_configs e seed num)))" using dev by simp
  from simj.log_steps [OF assms(1) [unfolded reached_def] this simj.log_init] obtain H G where
    "simj.log_inv e seed num H G c" by blast
  from simj.log_inv_node [OF this assms(3)] show ?thesis by simp
qed

lemma reached_steps:
  "reached e seed num c \<Longrightarrow> cluster_steps (sim_platform e (sim_configs e seed num)) c c' \<Longrightarrow> reached e seed num c'"
  unfolding reached_def by (rule rtranclp_trans)

lemma on_node_compact:
  assumes rel: "sim_rel (sim_configs e seed num) s c" and dev: "debug (core e)" and reach: "reached e seed num c"
    and run: "on_node e i (compact_if_long (core e)) s = Some s'"
  obtains c' where "cluster_steps (sim_platform e (sim_configs e seed num)) c c'"
    "sim_rel (sim_configs e seed num) s' c'" "invariants s' = invariants s" "tick_count s' = tick_count s"
proof (cases "sim_nodes s i")
  case None
  with run have "s' = s" by (simp add: on_node_def)
  with rel show ?thesis by (intro that [of c]) auto
next
  case (Some n)
  with run obtain r where r: "compact_if_long (core e) n = Some r"
    by (auto simp: on_node_def bind_eq_Some_conv)
  then obtain t where "r = (n, []) \<or> compact_logs (commit_index n) t compaction_data n = Some r"
    by (auto simp: compact_if_long_def Let_def bind_eq_Some_conv split: if_splits)
  then have alt: "Some r = run_event (core e) (Compact (commit_index n) t compaction_data) n \<or> Some r = Some (n, [])"
    by auto
  let ?ev = "Compact (commit_index n) t compaction_data"
  let ?f = "\<lambda>m. if m = n then Some r else Some (m, [])"
  have "alive c i = Some n" using rel Some by (simp add: sim_rel_def)
  from reached_log_ok [OF reach dev this] have "base_of n \<le> commit_index n" by (simp add: log_ok_def)
  then have above: "base_of m \<le> idx" if "sim_nodes s i = Some m" "?ev = Compact idx u dat" for m idx u dat
    using that Some by simp
  have run': "on_node e i ?f s = Some s'" using run Some r by (simp add: on_node_def)
  have f: "?f m = run_event (core e) ?ev m \<or> ?f m = Some (m, [])" for m
    using alt by auto
  have off: "offered (wire c) i ?ev" by simp
  show ?thesis
    by (rule on_node_cluster [OF rel dev f off above run']) (assumption | rule that)+
qed

lemma compact_all_cluster:
  assumes "sim_rel (sim_configs e seed num) s c" and "debug (core e)" and "reached e seed num c"
    and "compact_all e is s = Some s'"
  obtains c' where "cluster_steps (sim_platform e (sim_configs e seed num)) c c'"
    "sim_rel (sim_configs e seed num) s' c'" "invariants s' = invariants s" "tick_count s' = tick_count s"
  using assms
proof (induction "is" arbitrary: s c thesis)
  case Nil
  then show ?case by auto
next
  case (Cons i "is")
  from Cons.prems(5) obtain s1 where s1: "on_node e i (compact_if_long (core e)) s = Some s1"
    "compact_all e is s1 = Some s'" by (auto simp: bind_eq_Some_conv)
  from on_node_compact [OF Cons.prems(2-4) s1(1)] obtain c1 where
    c1: "cluster_steps (sim_platform e (sim_configs e seed num)) c c1" "sim_rel (sim_configs e seed num) s1 c1"
      "invariants s1 = invariants s" "tick_count s1 = tick_count s" by auto
  from Cons.IH [OF _ c1(2) Cons.prems(3) reached_steps [OF Cons.prems(4) c1(1)] s1(2)] obtain c2 where
    "cluster_steps (sim_platform e (sim_configs e seed num)) c1 c2" "sim_rel (sim_configs e seed num) s' c2"
      "invariants s' = invariants s1" "tick_count s' = tick_count s1" by auto
  with c1 show ?case by (intro Cons.prems(1) [of c2]) auto
qed

section \<open>Simulations\<close>

datatype sim_call =
    CallStep
  | CallCrash node_id
  | CallSpawn node_id
  | CallPropose bytes
  | CallPartition node_id node_id
  | CallHeal
  | CallRates u64 u64 u64      \<comment> \<open>assignments to the public fields of the network\<close>

fun run_call :: "'r sim_env \<Rightarrow> sim_call \<Rightarrow> 'r simulator \<Rightarrow> ('r simulator \<times> (violation + unit)) option" where
  "run_call e CallStep s = simulator_step e s"
| "run_call e (CallCrash i) s = Some (crash_node i s, Inr ())"
| "run_call e (CallSpawn i) s = do { s' \<leftarrow> spawn_node e i s; Some (s', Inr ()) }"
| "run_call e (CallPropose cmd) s = do { (s', _) \<leftarrow> propose_command e cmd s; Some (s', Inr ()) }"
| "run_call e (CallPartition i j) s = Some (s\<lparr>network := partition_link i j (network s)\<rparr>, Inr ())"
| "run_call e CallHeal s = Some (s\<lparr>network := heal_all (network s)\<rparr>, Inr ())"
| "run_call e (CallRates lose dup delay) s =
     Some (s\<lparr>network := (network s)\<lparr>drop_rate := lose, duplicate_rate := dup, max_delay_ticks := delay\<rparr>\<rparr>, Inr ())"

fun run_calls :: "'r sim_env \<Rightarrow> sim_call list \<Rightarrow> 'r simulator \<Rightarrow> ('r simulator \<times> (violation + unit) list) option" where
  "run_calls e [] s = Some (s, [])"
| "run_calls e (c # cs) s = do {
     (s1, r) \<leftarrow> run_call e c s;
     (s2, rs) \<leftarrow> run_calls e cs s1;
     Some (s2, r # rs)
   }"

lemma sim_rel_frame [simp]:
  "sim_rel cfgs (s\<lparr>tick_count := t\<rparr>) c = sim_rel cfgs s c"
  "sim_rel cfgs (s\<lparr>invariants := iv\<rparr>) c = sim_rel cfgs s c"
  by (simp_all add: sim_rel_def)

lemma sim_rel_network: "sim_rel cfgs s c \<Longrightarrow> carried w \<subseteq> wire c \<Longrightarrow> sim_rel cfgs (s\<lparr>network := w\<rparr>) c"
  by (simp add: sim_rel_def)

lemma simulator_stepE:
  assumes "simulator_step e s = Some (s', r)" and "heap_ok e" and "debug (core e)"
    and "sim_rel (sim_configs e seed num) s c" and reach: "reached e seed num c"
  obtains s3 c' iv where "cluster_steps (sim_platform e (sim_configs e seed num)) c c'"
    "sim_rel (sim_configs e seed num) s3 c'"
    "invariants s3 = invariants s" "s' = s3\<lparr>invariants := iv\<rparr>"
    "verify_safety (List.map_filter (sim_nodes s3) (alive_ids e s3)) (invariants s3) = Some (iv, r)"
proof -
  let ?cfgs = "sim_configs e seed num"
  obtain t where t: "add_u64 (debug (core e)) (tick_count s) 1 = Some t"
    using assms(1) by (cases "add_u64 (debug (core e)) (tick_count s) 1") (simp_all add: simulator_step_def)
  obtain ds w where d: "drain_due e t (network s) = (ds, w)" by fastforce
  from assms(1) obtain s1 s2 s3 iv where *: "drain_due e t (network s) = (ds, w)"
    "deliver_all e ds (s\<lparr>tick_count := t, network := w\<rparr>) = Some s1"
    "tick_all e (alive_ids e s1) s1 = Some s2" "compact_all e (alive_ids e s2) s2 = Some s3"
    "verify_safety (List.map_filter (sim_nodes s3) (alive_ids e s3)) (invariants s3) = Some (iv, r)"
    "s' = s3\<lparr>invariants := iv\<rparr>"
    unfolding simulator_step_def by (auto simp: t d bind_eq_Some_conv Let_def)
  note w = drain_due_carried [OF assms(2) *(1)]
  have "carried (network s) \<subseteq> wire c" using assms(4) by (simp add: sim_rel_def)
  with w have rel: "sim_rel ?cfgs (s\<lparr>tick_count := t, network := w\<rparr>) c" and ds: "set ds \<subseteq> wire c"
    using sim_rel_network [of ?cfgs "s\<lparr>tick_count := t\<rparr>" c w] assms(4) by auto
  from deliver_all_cluster [OF rel assms(3) ds *(2)] obtain c1 where
    c1: "cluster_steps (sim_platform e ?cfgs) c c1" "sim_rel ?cfgs s1 c1" "invariants s1 = invariants s" by auto
  from tick_all_cluster [OF c1(2) assms(3) *(3)] obtain c2 where
    c2: "cluster_steps (sim_platform e ?cfgs) c1 c2" "sim_rel ?cfgs s2 c2" "invariants s2 = invariants s1" by auto
  from c1(1) c2(1) have "cluster_steps (sim_platform e ?cfgs) c c2" by (rule rtranclp_trans)
  from compact_all_cluster [OF c2(2) assms(3) reached_steps [OF reach this] *(4)] obtain c3 where
    c3: "cluster_steps (sim_platform e ?cfgs) c2 c3" "sim_rel ?cfgs s3 c3" "invariants s3 = invariants s2" by auto
  from c1 c2 c3 * show ?thesis by (intro that [of c3 s3 iv]) auto
qed

lemma propose_command_cluster:
  assumes "propose_command e cmd s = Some (s', b)" and "debug (core e)" and "sim_rel cfgs s c"
  obtains c' where "cluster_steps (sim_platform e cfgs) c c'" "sim_rel cfgs s' c'" "invariants s' = invariants s"
proof (cases "find (\<lambda>i. map_option role (sim_nodes s i) = Some Leader) (alive_ids e s)")
  case None
  with assms(1) have "s' = s" by (simp add: propose_command_def)
  with assms(3) show ?thesis by (intro that [of c]) auto
next
  case (Some i)
  with assms(1) have run: "on_node e i (propose (core e) cmd) s = Some s'"
    by (auto simp: propose_command_def bind_eq_Some_conv)
  have "offered (wire c) i (Propose cmd)" by simp
  from on_node_cluster [OF assms(3,2) _ this _ run] show ?thesis using that by auto
qed

lemma spawn_node_cluster:
  assumes "spawn_node e i s = Some s'" and "sim_rel cfgs s c"
  obtains c' where "cluster_steps (sim_platform e cfgs) c c'" "sim_rel cfgs s' c'" "invariants s' = invariants s"
proof -
  from assms obtain d n where d: "sim_disks s i = Some d" "boot_node e cfgs i d = Some n"
    "s' = s\<lparr>sim_nodes := (sim_nodes s)(i \<mapsto> n)\<rparr>"
    by (auto simp: spawn_node_def bind_eq_Some_conv sim_rel_def)
  let ?c' = "c\<lparr>alive := (alive c)(i \<mapsto> n)\<rparr>"
  have "cluster_step (sim_platform e cfgs) c ?c'"
    by (rule cluster_step.boot) (use d assms(2) in \<open>simp_all add: sim_rel_def\<close>)
  moreover have "sim_rel cfgs s' ?c'" using d assms(2) by (auto simp: sim_rel_def)
  ultimately show ?thesis using d(3) by (intro that [of ?c']) auto
qed

end
