(* ===== verification/SimSafety.thy ===== *)
theory SimSafety
  imports SimCluster
begin

text \<open>
  The safety checks of a simulation: election safety and log matching are never violated, whatever
  calls are made, because the nodes of the simulator are those of a cluster.
\<close>

section \<open>What the checks can report\<close>

fun is_election :: "violation + unit \<Rightarrow> bool" where
  "is_election (Inl (ElectionSafety _ _ _)) \<longleftrightarrow> True"
| "is_election _ \<longleftrightarrow> False"

fun is_mismatch :: "violation + unit \<Rightarrow> bool" where
  "is_mismatch (Inl (LogMatching _ _ _ _)) \<longleftrightarrow> True"
| "is_mismatch _ \<longleftrightarrow> False"

lemma not_Inr [simp]: "(r :: 'a + unit) \<noteq> Inr () \<longleftrightarrow> (\<exists>v. r = Inl v)"
  by (cases r) auto

lemma applied_scan_kind:
  "applied_scan n is iv = Some (iv', r) \<Longrightarrow>
    \<not> is_election r \<and> \<not> is_mismatch r \<and> term_leaders iv' = term_leaders iv"
proof (induction n "is" iv rule: applied_scan.induct)
  case (2 n i "is" iv)
  then obtain x where x: "entry_at (log n) i = Some x" by (auto simp: bind_eq_Some_conv)
  show ?case
  proof (cases x)
    case None
    with 2 x show ?thesis by simp
  next
    case (Some en)
    with 2 x show ?thesis by (fastforce split: if_splits option.splits)
  qed
qed auto

lemma check_state_machine_kind:
  "check_state_machine_safety ns iv = Some (iv', r) \<Longrightarrow>
    \<not> is_election r \<and> \<not> is_mismatch r \<and> term_leaders iv' = term_leaders iv"
proof (induction ns arbitrary: iv)
  case (Cons n ns)
  show ?case
  proof (cases "last_applied n = sentinel_index")
    case False
    with Cons.prems obtain iv1 q where q: "applied_scan n (range_incl 1 (last_applied n)) iv = Some (iv1, q)"
      "(case q of Inl v \<Rightarrow> Some (iv1, Inl v) | Inr _ \<Rightarrow> check_state_machine_safety ns iv1) = Some (iv', r)"
      by (auto simp: bind_eq_Some_conv)
    with applied_scan_kind [OF q(1)] Cons.IH [of iv1] show ?thesis by (cases q) auto
  qed (use Cons in simp)
qed auto

lemma verify_safety_reports:
  assumes "check_election_safety ns iv = (iv1, Inr ())" and "verify_safety ns iv = Some (iv', r)"
    and "\<forall>n \<in> set ns. log_wf (log n)" and "pairwise (\<lambda>n1 n2. entries_match (log n1) (log n2)) ns"
  shows "\<not> is_election r \<and> \<not> is_mismatch r \<and> term_leaders iv' = term_leaders iv1"
proof -
  from check_log_matching_spec [OF assms(3)] assms(4) have "check_log_matching ns = Some (Inr ())"
    by (auto elim: totalE)
  with assms(1,2) have "check_state_machine_safety ns iv1 = Some (iv', r)"
    by (simp add: verify_safety_def check_leader_append_only_def)
  then show ?thesis by (rule check_state_machine_kind)
qed

lemma lookup_payload:
  assumes "log_wf l" and "lookup l k = Some x" and "log_base l < k"
  shows "x \<in> payload l" and "unat (e_index x) = k"
proof -
  from assms(2) have j: "k - log_base l < length (entries l)" "x = entries l ! (k - log_base l)"
    by (auto simp: vec_lookup_def split: if_splits)
  from assms(3) j(1) obtain i where "k - log_base l = Suc i" "i < length (tl (entries l))"
    by (cases "k - log_base l") auto
  with j(2) show "x \<in> payload l" by (auto simp: payload_def nth_tl [symmetric] simp del: length_tl)
  show "unat (e_index x) = k" using vec_lookup_index [OF log_wf_vec [OF assms(1)] assms(2)] .
qed

lemma reached_logs_match:
  assumes "reached e seed num c" and dev: "debug (core e)" and n: "alive c i = Some n1" "alive c j = Some n2"
  shows "entries_match (log n1) (log n2)"
proof -
  have "debug (pl_env (sim_platform e (sim_configs e seed num)))" using dev by simp
  from simj.log_steps [OF assms(1) [unfolded reached_def] this simj.log_init] obtain H G where
    inv: "simj.log_inv e seed num H G c" by blast
  have wf: "log_wf (log n1)" "log_wf (log n2)"
    using simj.log_inv_node [OF inv n(1)] simj.log_inv_node [OF inv n(2)] by (simp_all add: log_ok_def)
  show ?thesis
    unfolding entries_match_def
  proof (intro allI impI)
    fix k x y
    assume l: "lookup (log n1) k = Some x" "lookup (log n2) k = Some y" "log_base (log n1) < k"
      "log_base (log n2) < k" and t: "e_term x = e_term y"
    note x = lookup_payload [OF wf(1) l(1,3)] and y = lookup_payload [OF wf(2) l(2,4)]
    then have "e_index x = e_index y" by (intro word_unat_eq_iff [THEN iffD2]) simp
    with simj.logs_agree [OF inv n x(1) y(1) t] show "e_command x = e_command y" .
  qed
qed

lemma pairwiseI: "(\<And>x y. x \<in> set xs \<Longrightarrow> y \<in> set xs \<Longrightarrow> P x y) \<Longrightarrow> pairwise P xs"
  by (induction xs) auto

section \<open>The invariant of a simulation\<close>

definition sim_inv :: "'r sim_env \<Rightarrow> u64 \<Rightarrow> nat \<Rightarrow> 'r simulator \<Rightarrow> bool" where
  \<comment> \<open>the simulator shadows a run of the cluster, and the leaders on record were elected\<close>
  "sim_inv e seed num s \<longleftrightarrow>
     (\<exists>c H. cluster_steps (sim_platform e (sim_configs e seed num)) (cluster_init (sim_platform e (sim_configs e seed num))) c \<and>
        sim.election_inv e seed num H c \<and> sim_rel (sim_configs e seed num) s c \<and>
        (\<forall>t i. term_leaders (invariants s) t = Some i \<longrightarrow> elected (sim_platform e (sim_configs e seed num)) H t i))"

lemma sim_inv_steps:
  assumes "sim_inv e seed num s"
    and sim: "\<And>c. sim_rel (sim_configs e seed num) s c \<Longrightarrow> \<exists>c'.
      cluster_steps (sim_platform e (sim_configs e seed num)) c c' \<and> sim_rel (sim_configs e seed num) s' c' \<and>
      invariants s' = invariants s"
  shows "sim_inv e seed num s'"
proof -
  let ?P = "sim_platform e (sim_configs e seed num)"
  from assms(1) obtain c H where c: "cluster_steps ?P (cluster_init ?P) c" "sim.election_inv e seed num H c"
    "sim_rel (sim_configs e seed num) s c"
    "\<forall>t i. term_leaders (invariants s) t = Some i \<longrightarrow> elected (sim_platform e (sim_configs e seed num)) H t i"
    unfolding sim_inv_def by blast
  from sim [OF c(3)] obtain c' where c': "cluster_steps ?P c c'" "sim_rel (sim_configs e seed num) s' c'"
    "invariants s' = invariants s" by blast
  from sim.election_steps [OF c'(1) c(2)] obtain H' where H': "H \<subseteq> H'" "sim.election_inv e seed num H' c'" .
  from c(1) c'(1) have "cluster_steps ?P (cluster_init ?P) c'" by (rule rtranclp_trans)
  moreover have "\<forall>t i. term_leaders (invariants s') t = Some i \<longrightarrow> elected (sim_platform e (sim_configs e seed num)) H' t i"
    using c(4) c'(3) by (auto intro: sim.elected_mono [OF _ H'(1)])
  ultimately show ?thesis using H'(2) c'(2) unfolding sim_inv_def by blast
qed

lemma simulator_step_inv:
  assumes "simulator_step e s = Some (s', r)" and "heap_ok e" and "debug (core e)" and inv: "sim_inv e seed num s"
  shows "sim_inv e seed num s' \<and> \<not> is_election r \<and> \<not> is_mismatch r"
proof -
  let ?P = "sim_platform e (sim_configs e seed num)"
  from inv obtain c H where c: "cluster_steps ?P (cluster_init ?P) c" "sim.election_inv e seed num H c"
    "sim_rel (sim_configs e seed num) s c"
    "\<forall>t i. term_leaders (invariants s) t = Some i \<longrightarrow> elected (sim_platform e (sim_configs e seed num)) H t i"
    unfolding sim_inv_def by blast
  have "reached e seed num c" using c(1) by (simp add: reached_def)
  from simulator_stepE [OF assms(1-3) c(3) this] obtain s3 c' iv where
    st: "cluster_steps ?P c c'" "sim_rel (sim_configs e seed num) s3 c'" "invariants s3 = invariants s"
      "s' = s3\<lparr>invariants := iv\<rparr>"
      "verify_safety (List.map_filter (sim_nodes s3) (alive_ids e s3)) (invariants s3) = Some (iv, r)" .
  let ?ns = "List.map_filter (sim_nodes s3) (alive_ids e s3)"
  from sim.election_steps [OF st(1) c(2)] obtain H' where H': "H \<subseteq> H'" "sim.election_inv e seed num H' c'" .
  have "\<forall>n \<in> set ?ns. role n = Leader \<longrightarrow> elected (sim_platform e (sim_configs e seed num)) H' (current_term n) (node_id n)"
  proof (intro ballI impI)
    fix n assume n: "n \<in> set ?ns" "role n = Leader"
    then obtain i where "sim_nodes s3 i = Some n" by (auto simp: List.map_filter_def)
    with st(2) have "alive c' i = Some n" by (simp add: sim_rel_def)
    with sim.leader_elected [OF H'(2) this n(2)]
    show "elected (sim_platform e (sim_configs e seed num)) H' (current_term n) (node_id n)" by simp
  qed
  moreover have "\<forall>t i. term_leaders (invariants s3) t = Some i \<longrightarrow> elected (sim_platform e (sim_configs e seed num)) H' t i"
    using c(4) st(3) by (auto intro: sim.elected_mono [OF _ H'(1)])
  moreover have "\<forall>t i j. elected (sim_platform e (sim_configs e seed num)) H' t i \<longrightarrow> elected (sim_platform e (sim_configs e seed num)) H' t j \<longrightarrow> i = j"
    by (auto intro: sim.elected_unique [OF H'(2)])
  ultimately obtain iv1 where iv1: "check_election_safety ?ns (invariants s3) = (iv1, Inr ())"
    "\<forall>t i. term_leaders iv1 t = Some i \<longrightarrow> elected (sim_platform e (sim_configs e seed num)) H' t i"
    using check_election_accepts [of ?ns "elected (sim_platform e (sim_configs e seed num)) H'" "invariants s3"] by blast
  have reach: "cluster_steps ?P (cluster_init ?P) c'" using c(1) st(1) by (rule rtranclp_trans)
  have up: "\<exists>i. alive c' i = Some n" if "n \<in> set ?ns" for n
    using that st(2) by (auto simp: List.map_filter_def sim_rel_def)
  then have "\<forall>n \<in> set ?ns. log_wf (log n)"
    using reached_log_ok [OF reach [folded reached_def] assms(3)] by (auto simp: log_ok_def)
  moreover have "pairwise (\<lambda>n1 n2. entries_match (log n1) (log n2)) ?ns"
    using up reached_logs_match [OF reach [folded reached_def] assms(3)] by (blast intro: pairwiseI)
  ultimately have v: "\<not> is_election r \<and> \<not> is_mismatch r" "term_leaders iv = term_leaders iv1"
    using verify_safety_reports [OF iv1(1) st(5)] by blast+
  have "sim_rel (sim_configs e seed num) s' c'" using st(2,4) by simp
  with reach have "sim_inv e seed num s'"
    using H'(2) iv1(2) v(2) st(4) unfolding sim_inv_def by auto
  with v(1) show ?thesis by simp
qed

lemma run_call_inv:
  assumes "run_call e call s = Some (s', r)" and "heap_ok e" and "debug (core e)" and inv: "sim_inv e seed num s"
  shows "sim_inv e seed num s' \<and> \<not> is_election r \<and> \<not> is_mismatch r"
proof (cases call)
  case CallStep
  with assms simulator_step_inv show ?thesis by simp
next
  case (CallCrash i)
  have "sim_inv e seed num (crash_node i s)"
  proof (rule sim_inv_steps [OF inv], intro exI conjI)
    fix c assume rel: "sim_rel (sim_configs e seed num) s c"
    show "cluster_steps (sim_platform e (sim_configs e seed num)) c (c\<lparr>alive := (alive c)(i := None)\<rparr>)"
      by (rule r_into_rtranclp) (rule cluster_step.crash)
    show "sim_rel (sim_configs e seed num) (crash_node i s) (c\<lparr>alive := (alive c)(i := None)\<rparr>)"
      using rel by (auto simp: sim_rel_def crash_node_def)
  qed (simp add: crash_node_def)
  with assms(1) CallCrash show ?thesis by auto
next
  case (CallSpawn i)
  with assms(1) have run: "spawn_node e i s = Some s'" "r = Inr ()" by (auto simp: bind_eq_Some_conv)
  have "sim_inv e seed num s'"
    by (rule sim_inv_steps [OF inv]) (use spawn_node_cluster [OF run(1)] in metis)
  with run show ?thesis by simp
next
  case (CallPropose cmd)
  with assms(1) obtain b where run: "propose_command e cmd s = Some (s', b)" "r = Inr ()"
    by (auto simp: bind_eq_Some_conv)
  have "sim_inv e seed num s'"
    by (rule sim_inv_steps [OF inv]) (use propose_command_cluster [OF run(1) assms(3)] in metis)
  with run show ?thesis by simp
next
  case (CallPartition i j)
  with assms(1) have run: "s' = s\<lparr>network := partition_link i j (network s)\<rparr>" "r = Inr ()" by auto
  have "sim_inv e seed num s'"
    by (rule sim_inv_steps [OF inv])
      (auto simp: run sim_rel_def partition_link_def carried_def)
  with run show ?thesis by simp
next
  case CallHeal
  with assms(1) have run: "s' = s\<lparr>network := heal_all (network s)\<rparr>" "r = Inr ()" by auto
  have "sim_inv e seed num s'"
    by (rule sim_inv_steps [OF inv]) (auto simp: run sim_rel_def heal_all_def carried_def)
  with run show ?thesis by simp
next
  case (CallRates lose dup delay)
  with assms(1) have run: "r = Inr ()"
    "s' = s\<lparr>network := (network s)\<lparr>drop_rate := lose, duplicate_rate := dup, max_delay_ticks := delay\<rparr>\<rparr>" by auto
  have "sim_inv e seed num s'"
    by (rule sim_inv_steps [OF inv]) (auto simp: run sim_rel_def carried_def)
  with run show ?thesis by simp
qed

lemma run_calls_inv:
  assumes "run_calls e calls s = Some (s', rs)" and "heap_ok e" and "debug (core e)" and "sim_inv e seed num s"
  shows "sim_inv e seed num s' \<and> (\<forall>r \<in> set rs. \<not> is_election r \<and> \<not> is_mismatch r)"
  using assms(1,4)
proof (induction calls arbitrary: s rs)
  case (Cons call calls)
  from Cons.prems(1) obtain s1 r rs1 where c: "run_call e call s = Some (s1, r)"
    "run_calls e calls s1 = Some (s', rs1)" "rs = r # rs1" by (auto simp: bind_eq_Some_conv)
  from run_call_inv [OF c(1) assms(2,3) Cons.prems(2)] have "sim_inv e seed num s1" "\<not> is_election r \<and> \<not> is_mismatch r"
    by auto
  with Cons.IH [OF c(2)] c(3) show ?case by simp
qed simp

lemma spawn_all_inv:
  "spawn_all e cfgs s = Some s' \<Longrightarrow> sim_inv e seed num s \<Longrightarrow> sim_inv e seed num s'"
proof (induction cfgs arbitrary: s)
  case (Cons c cfgs)
  then obtain s1 where s1: "spawn_node e (cfg_id c) s = Some s1" "spawn_all e cfgs s1 = Some s'"
    by (auto simp: bind_eq_Some_conv)
  have "sim_inv e seed num s1"
    by (rule sim_inv_steps [OF Cons.prems(2)]) (use spawn_node_cluster [OF s1(1)] in metis)
  with Cons.IH [OF s1(2)] show ?case .
qed simp

lemma simulator_new_inv:
  assumes "simulator_new e seed num = Some s"
  shows "sim_inv e seed num s"
proof -
  let ?ids = "node_ids num"
  obtain cfgs r where cfgs: "make_configs e ?ids ?ids (seed_from_u64 (core e) seed) = (cfgs, r)" by fastforce
  then have eq: "sim_configs e seed num = cfgs" by (simp add: sim_configs_def)
  define s0 where "s0 = \<lparr>sim_seed = seed, sim_rng = r, sim_nodes = Map.empty,
     sim_disks = (\<lambda>i. if i \<in> set ?ids then Some (disk_new i) else None),
     network = network_new, invariants = invariants_new, tick_count = 0, node_configs = cfgs\<rparr>"
  have "spawn_all e cfgs s0 = Some s"
    using assms by (simp add: simulator_new_def cfgs s0_def)
  moreover have "sim_inv e seed num s0"
  proof -
    let ?P = "sim_platform e (sim_configs e seed num)"
    have "sim_rel (sim_configs e seed num) s0 (cluster_init ?P)"
      using sim_configs_ids [of e seed num]
      by (auto simp: sim_rel_def s0_def cluster_init_def eq carried_def network_new_def simp flip: set_map)
    with sim.election_init [of e seed num] show ?thesis
      unfolding sim_inv_def by (fastforce simp: s0_def invariants_new_def)
  qed
  ultimately show ?thesis by (rule spawn_all_inv)
qed

end
