(* ===== verification/Demo.thy ===== *)
theory Demo
  imports SimSafety DemoNode
begin

text \<open>
  Concrete environments and runs for the witnesses: a random number generator that counts, a heap
  that takes the first message due, and a simulation of three nodes that elects a leader and
  replicates a command.
\<close>

fun first_due :: "scheduled_message list \<Rightarrow> nat" where
  "first_due [] = 0"
| "first_due [m] = 0"
| "first_due (m # ms) = (if delivery_tick m \<le> delivery_tick (ms ! first_due ms) then 0 else Suc (first_due ms))"

lemma first_due_ok:
  "ms \<noteq> [] \<Longrightarrow> first_due ms < length ms \<and> (\<forall>m \<in> set ms. delivery_tick (ms ! first_due ms) \<le> delivery_tick m)"
  by (induction ms rule: first_due.induct) auto

definition demo_sim :: "u64 sim_env" where
  "demo_sim = \<lparr>core = demo_env, gen_u64 = (\<lambda>r. (r, r + 1)), gen_bool = (\<lambda>r p. Some (False, r)),
     gen_range_incl = (\<lambda>r a b. (a, r)), heap_top = first_due, key_order = (\<lambda>t ks. ks)\<rparr>"

lemma demo_sim_ok: "heap_ok demo_sim" "debug (core demo_sim)" "key_order_ok demo_sim" "range_ok demo_sim"
    "rng_ok (core demo_sim)"
  using first_due_ok by (auto simp: heap_ok_def key_order_ok_def range_ok_def rng_ok_def demo_sim_def demo_env_def
      word_mod_less_divisor word_neq_0_conv)

definition demo_calls :: "sim_call list" where
  "demo_calls = replicate 20 CallStep @ [CallPropose [42], CallStep, CallCrash 3, CallStep, CallSpawn 3, CallStep]"

definition demo_start :: "u64 simulator" where
  "demo_start = the (simulator_new demo_sim 0 3)"

definition demo_end :: "u64 simulator" where
  "demo_end = fst (the (run_calls demo_sim demo_calls demo_start))"

lemma demo_starts: "simulator_new demo_sim 0 3 = Some demo_start"
proof -
  have "simulator_new demo_sim 0 3 \<noteq> None" by code_simp
  then show ?thesis by (auto simp: demo_start_def)
qed

lemma demo_runs: "run_calls demo_sim demo_calls demo_start = Some (demo_end, replicate 26 (Inr ()))"
proof -
  have "map_option snd (run_calls demo_sim demo_calls demo_start) = Some (replicate 26 (Inr ()))" by code_simp
  then show ?thesis by (auto simp: demo_end_def)
qed

end
