(* ===== verification/ReplicationSpec.thy ===== *)
theory ReplicationSpec
  imports NodeCases DemoNode
begin

text \<open>
  What replication does, on every branch: which entries an accepted \<open>AppendEntries\<close> leaves in the log,
  what a rejection tells the leader, what the leader sends and how it goes back, and the installation of
  snapshots.
\<close>

section \<open>Merging entries\<close>

lemma matched_all: "matched l es = length es \<longleftrightarrow> (\<forall>x \<in> set es. holds_entry l x)"
  unfolding matched_def by (induction es) auto

lemma matched_holds: "i < matched l es \<Longrightarrow> holds_entry l (es ! i)"
  using nth_mem [of i "takeWhile (holds_entry l) es"]
  by (auto simp: matched_def takeWhile_nth dest: set_takeWhileD)

lemma merged_lookup:
  assumes wf: "log_wf l" and es: "indexed_from b es" "unat b + length es < 2 ^ 64"
    and lo: "e_index (hd (entries l)) < b" and hi: "unat b \<le> Suc (log_last l)"
  shows "lookup (merged b es l) j =
    (if matched l es = length es \<or> j < unat b + matched l es then lookup l j
     else if j < unat b + length es then Some (es ! (j - unat b)) else None)"
proof (cases "matched l es < length es")
  case True
  define k where "k = matched l es"
  have k: "k < length es" using True by (simp add: k_def)
  have u: "unat (b + of_nat k) = unat b + k" using es(2) k by (intro unat_plus_no_wrap) simp
  have "e_index (hd (entries l)) < b + of_nat k" using lo u by (simp add: word_less_nat_alt)
  moreover have "unat (b + of_nat k) \<le> Suc (log_last l)"
    using matched_le_end [OF wf es hi] u by (simp add: k_def)
  ultimately have "lookup (merged b es l) j = (if j < unat b + k then lookup l j
      else if j < unat b + k + length (drop k es) then Some (drop k es ! (j - (unat b + k))) else None)"
    using spec_truncate_lookup [OF log_wf_vec [OF wf], of "b + of_nat k" "drop k es" j] True
    by (simp add: merged_def k_def [symmetric] u)
  with k show ?thesis by (simp add: k_def [symmetric])
qed (use matched_le [of l es] in \<open>simp add: merged_def\<close>)

lemma merged_holds:
  assumes wf: "log_wf l" and es: "indexed_from b es" "unat b + length es < 2 ^ 64"
    and lo: "e_index (hd (entries l)) < b" and hi: "unat b \<le> Suc (log_last l)"
  shows "\<forall>x \<in> set es. holds_entry (merged b es l) x"
proof -
  have "holds_entry (merged b es l) (es ! i)" if "i < length es" for i
  proof -
    have u: "unat (e_index (es ! i)) = unat b + i" using indexed_from_unat [OF es(1) that] .
    show ?thesis
      using matched_holds [of i l es] that by (auto simp: merged_lookup [OF wf es lo hi] u not_less)
  qed
  then show ?thesis by (auto simp: in_set_conv_nth)
qed

definition merge_new :: "log_entry list \<Rightarrow> 'r raft_node \<Rightarrow> 'r outcome" where
  \<comment> \<open>the reference: skip the entries that are there, cut the log at the first other one and add the rest\<close>
  "merge_new es n =
     (case dropWhile (holds_entry (log n)) es of
        [] \<Rightarrow> (n, [])
      | x # xs \<Rightarrow>
          (n\<lparr>log := log n\<lparr>entries := filter (\<lambda>y. e_index y < e_index x) (entries (log n)) @ x # xs\<rparr>\<rparr>,
           [TruncateAndAppend (e_index x) (x # xs)]))"

lemma merge_new_merged:
  assumes "indexed_from b es"
  shows "merge_new es n = (n\<lparr>log := merged b es (log n)\<rparr>,
    if matched (log n) es < length es
    then [TruncateAndAppend (b + of_nat (matched (log n) es)) (drop (matched (log n) es) es)] else [])"
proof -
  have d: "dropWhile (holds_entry (log n)) es = drop (matched (log n) es) es"
    by (simp add: matched_def dropWhile_eq_drop)
  show ?thesis
  proof (cases "matched (log n) es < length es")
    case True
    then have "drop (matched (log n) es) es = es ! matched (log n) es # drop (Suc (matched (log n) es)) es"
      by (simp add: Cons_nth_drop_Suc)
    moreover have "e_index (es ! matched (log n) es) = b + of_nat (matched (log n) es)"
      using indexed_from_nth [OF assms True] .
    ultimately show ?thesis
      using True unfolding merge_new_def d by (simp add: merged_def spec_truncate_def)
  next
    case False
    then show ?thesis unfolding merge_new_def d by (simp add: merged_def)
  qed
qed

text \<open>C13: New entries are merged, not written over. The scan and the cut at an offset are the reference
  merge: the entries the log already has (same index and term) are skipped; at the first other one the
  log is cut, exactly the rest of the message is added, commands included, and the same cut and entries
  go to the disk. So afterwards the log holds every entry of the message, below the message nothing
  changed, and a message whose entries are all there, such as a delayed or repeated one, changes nothing.\<close>

theorem append_new_entries_merges:
  assumes wf: "log_wf (log n)" and es: "indexed_from b es" "unat b + length es < 2 ^ 64"
    and lo: "e_index (hd (entries (log n))) < b" and hi: "unat b \<le> Suc (log_last (log n))"
  shows "append_new_entries e es n = Some (merge_new es n) \<and>
    (let l = log (fst (merge_new es n)) in log_wf l \<and>
      (\<forall>x \<in> set es. holds_entry l x) \<and> (\<forall>j < unat b. lookup l j = lookup (log n) j) \<and>
      (if \<forall>x \<in> set es. holds_entry (log n) x then merge_new es n = (n, [])
       else log_last l = unat b + length es - 1 \<and> es \<noteq> []))"
proof -
  let ?l = "merged b es (log n)"
  note look = merged_lookup [OF wf es lo hi]
  have ends: "log_last ?l = unat b + length es - 1" "es \<noteq> []" if "matched (log n) es < length es"
  proof -
    let ?k = "matched (log n) es"
    have u: "unat (b + of_nat ?k) = unat b + ?k" using es(2) that by (intro unat_plus_no_wrap) simp
    have lo': "e_index (hd (entries (log n))) < b + of_nat ?k" using lo u by (simp add: word_less_nat_alt)
    have m: "entries ?l = take (unat (b + of_nat ?k - e_index (hd (entries (log n))))) (entries (log n)) @ drop ?k es"
      using that spec_truncate_take [OF log_wf_vec [OF wf], of "b + of_nat ?k" "drop ?k es"] lo'
      by (simp add: merged_def)
    have "unat b + ?k \<le> Suc (log_last (log n))" using matched_le_end [OF wf es hi] .
    moreover have w: "unat (b + of_nat ?k - e_index (hd (entries (log n)))) = unat b + ?k - log_base (log n)"
      "log_base (log n) < unat b + ?k"
      using unat_offset [OF less_imp_le [OF lo']] lo' u by (simp_all add: vec_base_def word_less_nat_alt)
    moreover have "0 < length (entries (log n))" using wf by simp
    ultimately have "length (entries ?l) = unat b + ?k - log_base (log n) + (length es - ?k)"
      unfolding m w by (auto simp: vec_end_def min_def)
    then show "log_last ?l = unat b + length es - 1"
      using that w(2) merged_wf(2) [OF wf es lo hi] by (simp add: vec_end_def)
    show "es \<noteq> []" using that by auto
  qed
  have all: "\<forall>x \<in> set es. holds_entry ?l x"
    using merged_holds [OF wf es lo hi] .
  have below: "\<forall>j < unat b. lookup ?l j = lookup (log n) j"
    by (simp add: look)
  have eq: "append_new_entries e es n = Some (merge_new es n)"
    using append_new_entries_eq [OF wf es lo, of e] by (simp add: merge_new_merged [OF es(1)])
  show ?thesis
  proof (cases "matched (log n) es < length es")
    case True
    then have "\<not> (\<forall>x \<in> set es. holds_entry (log n) x)" using matched_all [of "log n" es] by simp
    with True eq merged_wf(1) [OF wf es lo hi] all below ends show ?thesis
      by (simp add: merge_new_merged [OF es(1)] Let_def)
  next
    case False
    then have m: "matched (log n) es = length es" using matched_le [of "log n" es] by simp
    then have "?l = log n" "\<forall>x \<in> set es. holds_entry (log n) x"
      using matched_all [of "log n" es] by (simp_all add: merged_def)
    with m eq wf show ?thesis by (simp add: merge_new_merged [OF es(1)])
  qed
qed

theorem append_new_entries_merges_witness:
  "append_new_entries demo_env [demo_entry 2 1 [7]] demo_follower = Some (demo_follower, []) \<and>
   append_new_entries demo_env [demo_entry 2 1 [7], demo_entry 3 3 [8]] demo_follower =
     Some (demo_follower\<lparr>log := \<lparr>entries = take 3 (entries demo_log) @ [demo_entry 3 3 [8]]\<rparr>\<rparr>,
       [TruncateAndAppend 3 [demo_entry 3 3 [8]]])"
proof -
  have d: "log_wf (log demo_follower)" "log_last (log demo_follower) = 3" "hd (entries (log demo_follower)) = demo_entry 0 0 []"
    "lookup (log demo_follower) 2 = Some (demo_entry 2 1 [7])" "lookup (log demo_follower) 3 = Some (demo_entry 3 2 [])"
    using demo_log_wf
    by (simp_all add: demo_follower_def demo_log_def vec_end_def vec_base_def vec_lookup_def demo_entry_def)
  have i: "indexed_from 2 [demo_entry 2 1 [7]]" "indexed_from 2 [demo_entry 2 1 [7], demo_entry 3 3 [8]]"
    by (simp_all add: indexed_from_Cons demo_entry_def)
  have "merge_new [demo_entry 2 1 [7]] demo_follower = (demo_follower, [])"
    "merge_new [demo_entry 2 1 [7], demo_entry 3 3 [8]] demo_follower =
      (demo_follower\<lparr>log := \<lparr>entries = take 3 (entries demo_log) @ [demo_entry 3 3 [8]]\<rparr>\<rparr>,
       [TruncateAndAppend 3 [demo_entry 3 3 [8]]])"
    using d(4,5)
    by (simp_all add: merge_new_def demo_entry_def) (simp_all add: demo_follower_def demo_log_def demo_entry_def word_less_nat_alt)
  then show ?thesis
    using append_new_entries_merges [OF d(1) i(1), of demo_env] append_new_entries_merges [OF d(1) i(2), of demo_env] d(2,3)
    by (simp add: demo_entry_def)
qed

section \<open>Applying\<close>

definition unapplied :: "'r raft_node \<Rightarrow> log_index \<Rightarrow> log_entry list" where
  \<comment> \<open>the entries of the log after the last applied one, up to an index\<close>
  "unapplied n c = filter (\<lambda>x. last_applied n < e_index x \<and> e_index x \<le> c) (tl (entries (log n)))"

lemma takeWhile_sorted:
  "sorted (map f xs) \<Longrightarrow> takeWhile (\<lambda>x. f x \<le> (c :: 'a :: linorder)) xs = filter (\<lambda>x. f x \<le> c) xs"
proof (induction xs)
  case (Cons x xs)
  have "filter (\<lambda>x. f x \<le> c) xs = []" if "\<not> f x \<le> c"
    using that Cons.prems by (auto simp: filter_empty_conv dest: order_trans)
  with Cons show ?case by simp
qed simp

lemma log_sorted:
  assumes "log_wf l"
  shows "sorted (map e_index (tl (entries l)))"
proof -
  have "e_index (entries l ! i) \<le> e_index (entries l ! j)" if "i \<le> j" "j < length (entries l)" for i j
    using that vec_wf_unat [OF log_wf_vec [OF assms]] by (simp add: word_le_nat_alt)
  then have "sorted (map e_index (entries l))" by (auto simp: sorted_iff_nth_mono)
  then show ?thesis by (simp add: map_tl sorted_tl)
qed

lemma apply_result:
  assumes wf: "node_wf n"
  shows "apply_committed_entries e n = Some
    (let es = unapplied n (commit_index n)
     in if es = [] then (n, []) else (n\<lparr>last_applied := e_index (last es)\<rparr>, [Apply es]))"
proof (cases "last_applied n < commit_index n")
  case True
  then have ne: "last_applied n \<noteq> -1" by auto
  have le: "last_applied n + 1 \<le> k \<longleftrightarrow> last_applied n < k" for k
    using ne unat_plus_no_wrap [of "last_applied n" 1]
    by (auto simp: not_max_iff word_less_nat_alt word_le_nat_alt)
  have "takeWhile (\<lambda>x. e_index x \<le> commit_index n) (filter (\<lambda>x. last_applied n < e_index x) (tl (entries (log n))))
      = unapplied n (commit_index n)"
    using sorted_filter [OF log_sorted [of "log n"]] wf
    by (simp add: unapplied_def takeWhile_sorted conj_commute)
  with True ne wf show ?thesis
    by (simp add: apply_committed_entries_def entries_from_filter le Let_def)
next
  case False
  then have "unapplied n (commit_index n) = []" by (auto simp: unapplied_def filter_empty_conv)
  with False show ?thesis by (simp add: apply_committed_entries_def)
qed

section \<open>Answers to AppendEntries\<close>

lemma term_at_log [simp]: "log_wf l \<Longrightarrow> term_at l i = Some (map_option e_term (lookup l (unat i)))"
  by (simp add: term_at_lookup)

text \<open>C29: When the follower has no entry of the leader's previous index and term, its log and its commit
  index stay and the answer says where to go back to: just past its last entry when it has nothing at
  that index, or else the conflicting term together with the first index of the run of that term which
  reaches up to the previous index.\<close>

theorem append_entries_rejected:
  assumes rng: "rng_ok e" and wf: "node_wf n" and room: "log_room n" and t: "current_term n \<le> t"
    and miss: "map_option e_term (lookup (log n) (unat prev)) \<noteq> Some pt"
  shows "returns (handle_append_entries e from t prev pt es lc n) (\<lambda>(n', acts).
    log n' = log n \<and> commit_index n' = commit_index n \<and> last_applied n' = last_applied n \<and>
    current_term n' = t \<and> role n' = Follower \<and> leader_id n' = Some from \<and>
    (\<exists>ct ci. acts = (if current_term n < t then [PersistHardState t None] else []) @
        [reply n' from (AppendEntriesResponse False ct (Some ci))] \<and>
      (case lookup (log n) (unat prev) of
         None \<Rightarrow> ct = None \<and> unat ci = Suc (log_last (log n))
       | Some x \<Rightarrow> ct = Some (e_term x) \<and> unat ci \<le> unat prev \<and>
           (\<forall>j. unat ci \<le> j \<and> j \<le> unat prev \<longrightarrow> map_option e_term (lookup (log n) j) = Some (e_term x)) \<and>
           (unat ci \<le> log_base (log n) \<or> map_option e_term (lookup (log n) (unat ci - 1)) \<noteq> Some (e_term x)))))"
proof -
  from become_follower_returns [OF rng wf, of t "Some from"] obtain n1 acts1 where
    bf: "become_follower e t (Some from) n = Some (n1, acts1)" by (auto simp: returns_iff)
  then have n1: "log n1 = log n" "commit_index n1 = commit_index n" "last_applied n1 = last_applied n"
    "current_term n1 = t" "role n1 = Follower" "leader_id n1 = Some from"
    "acts1 = (if current_term n < t then [PersistHardState t None] else [])"
    by (auto elim!: become_followerE)
  have wf': "log_wf (log n)" using wf by simp
  show ?thesis
  proof (cases "lookup (log n) (unat prev)")
    case None
    have "e_index (last (entries (log n))) \<noteq> -1" using log_room_last [OF room wf'] .
    moreover from this have "unat (e_index (last (entries (log n))) + 1) = Suc (log_last (log n))"
      using unat_plus_no_wrap [of "e_index (last (entries (log n)))" 1] wf'
      by (simp add: not_max_iff vec_wf_end log_wf_vec)
    ultimately show ?thesis
      using None t bf n1 wf' by (auto simp: handle_append_entries_def log_simps)
  next
    case (Some x)
    with miss have ne: "e_term x \<noteq> pt" by simp
    from conflict_scan_returns [OF wf', of "e_term x" prev] obtain ci where
      ci: "conflict_scan (log n) (e_term x) prev = Some ci" "term_run (log n) (e_term x) (unat ci) (unat prev)"
      by (auto simp: returns_iff)
    then have run: "map_option e_term (lookup (log n) j) = Some (e_term x)" if "unat ci \<le> j" "j \<le> unat prev" for j
      using that Some by (cases "j = unat prev") (auto simp: term_run_def)
    have "handle_append_entries e from t prev pt es lc n =
        Some (n1, acts1 @ [reply n1 from (AppendEntriesResponse False (Some (e_term x)) (Some ci))])"
      using Some ne t bf n1(1) wf' ci(1) by (auto simp: handle_append_entries_def)
    with n1 Some ci(2) run show ?thesis by (auto simp: term_run_def)
  qed
qed

theorem append_entries_rejected_witness:
  "\<exists>n' ct ci. handle_append_entries demo_env 1 2 9 2 [] 0 demo_follower =
      Some (n', [reply n' 1 (AppendEntriesResponse False ct (Some ci))]) \<and> unat ci = 4 \<and> log n' = demo_log"
proof -
  have d: "log_room demo_follower" "current_term demo_follower \<le> 2" "current_term demo_follower = 2"
    "log_last (log demo_follower) = 3" "log demo_follower = demo_log"
    using demo_nodes_room(1)
    by (simp_all add: demo_follower_def demo_log_def vec_end_def vec_base_def demo_entry_def)
  have l: "lookup (log demo_follower) (unat (9 :: u64)) = None"
    by (simp add: demo_follower_def demo_log_def vec_base_def vec_lookup_def demo_entry_def)
  then have "map_option e_term (lookup (log demo_follower) (unat (9 :: u64))) \<noteq> Some 2" by simp
  from append_entries_rejected [OF demo_env_ok(2) demo_nodes_wf(1) d(1,2) this, of 1 "[]" 0]
  show ?thesis using l d by (auto simp: returns_iff)
qed

definition accepts :: "'r raft_node \<Rightarrow> message_kind \<Rightarrow> bool" where
  \<comment> \<open>the follower holds the entry the message follows on\<close>
  "accepts n k \<longleftrightarrow> map_option e_term (lookup (log n) (unat (ae_prev_index k))) = Some (ae_prev_term k)"

definition newly_applied :: "'r raft_node \<Rightarrow> log_index \<Rightarrow> log_entry list" where
  \<comment> \<open>what reaches the state machine when the commit index is raised to an index, if it is\<close>
  "newly_applied n c = (if commit_index n < c then unapplied n c else [])"

lemma follow_commit_result:
  assumes wf: "node_wf n" and c_def: "c = max (commit_index n) (min lc (e_index (last (entries (log n)))))"
  shows "follow_commit e lc n = Some
    (n\<lparr>commit_index := c, last_applied := (if newly_applied n c = [] then last_applied n else e_index (last (newly_applied n c)))\<rparr>,
     if newly_applied n c = [] then [] else [Apply (newly_applied n c)])"
proof (cases "commit_index n < c")
  case True
  then have c: "c = min lc (e_index (last (entries (log n))))" "commit_index n < lc"
    by (auto simp: c_def max_def min_def split: if_splits)
  have "node_wf (n\<lparr>commit_index := c\<rparr>)"
    using True wf by (auto simp: node_wf_def word_less_nat_alt word_le_nat_alt)
  from apply_result [OF this, of e] True c wf show ?thesis
    by (auto simp: follow_commit_def log_simps Let_def newly_applied_def unapplied_def)
next
  case False
  then have c: "c = commit_index n" by (auto simp: c_def max_def split: if_splits)
  with False have "\<not> (commit_index n < lc \<and> commit_index n < min lc (e_index (last (entries (log n)))))"
    by (metis c_def max.strict_coboundedI2)
  with c wf show ?thesis by (auto simp: follow_commit_def log_simps Let_def newly_applied_def min_def split: if_splits)
qed

text \<open>C9: When the follower holds the previous entry, it merges the new entries into its log, raises its
  commit index to the leader's as far as its own log reaches, never lowers it, and applies exactly the
  entries this commits, in order. Its actions are, in this order: the new term to disk (if it is one),
  what the merge writes to disk (if anything), the entries for the state machine (if there are any) and a
  success answer in the message's term. The log stays well formed and holds every entry of the message.\<close>

theorem append_entries_accepted:
  assumes rng: "rng_ok e" and wf: "node_wf n" and msg: "kind_wf (AppendEntries prev pt es lc)"
    and t: "current_term n \<le> t" and ok: "accepts n (AppendEntries prev pt es lc)"
  shows "returns (handle_append_entries e from t prev pt es lc n) (\<lambda>(n', acts).
    log n' = log (fst (merge_new es n)) \<and> log_wf (log n') \<and> (\<forall>x \<in> set es. holds_entry (log n') x) \<and>
    commit_index n' = max (commit_index n) (min lc (e_index (last (entries (log n'))))) \<and>
    current_term n' = t \<and> role n' = Follower \<and> leader_id n' = Some from \<and>
    (let new = newly_applied (n\<lparr>log := log n'\<rparr>) (commit_index n')
     in last_applied n' = (if new = [] then last_applied n else e_index (last new)) \<and>
       acts = (if current_term n < t then [PersistHardState t None] else []) @ snd (merge_new es n)
         @ (if new = [] then [] else [Apply new]) @ [reply n' from (AppendEntriesResponse True None None)]))"
proof -
  from become_follower_returns [OF rng wf, of t "Some from"] obtain n1 acts1 where
    bf: "become_follower e t (Some from) n = Some (n1, acts1)" and n1: "node_wf n1" by (auto simp: returns_iff)
  from bf have same: "log n1 = log n" "commit_index n1 = commit_index n" "current_term n1 = t"
    "role n1 = Follower" "leader_id n1 = Some from" "node_id n1 = node_id n" "last_applied n1 = last_applied n"
    "acts1 = (if current_term n < t then [PersistHardState t None] else [])" by (auto elim!: become_followerE)
  define b where "b = prev + 1"
  have es: "indexed_from b es" "unat b + length es < 2 ^ 64" "unat b = unat prev + 1"
    using msg unat_plus_no_wrap [of prev 1] by (auto simp: b_def not_max_iff)
  have wf1: "log_wf (log n1)" using n1 by simp
  have lo: "e_index (hd (entries (log n1))) < b" and hi: "unat b \<le> Suc (log_last (log n1))"
    using ok es(3) same by (auto simp: accepts_def vec_lookup_def vec_base_def vec_end_def word_less_nat_alt split: if_splits)
  define n2 where "n2 = n1\<lparr>log := merged b es (log n1)\<rparr>"
  note eq = append_new_entries_eq [OF wf1 es(1,2) lo, of e] and mwf = merged_wf [OF wf1 es(1,2) lo hi]
  note holds = merged_holds [OF wf1 es(1,2) lo hi] and m = merge_new_merged [OF es(1), of n]
  have wf2: "node_wf n2" using n1 mwf by (simp add: n2_def node_wf_def)
  have "map_option e_term (lookup (log n) (unat prev)) = Some pt" using ok by (simp add: accepts_def)
  then have lt: "term_at (log n1) prev = Some (Some pt)" using wf1 same(1) by simp
  have an: "append_new_entries e es n1 = Some (n2, snd (merge_new es n))"
    using eq same(1) by (simp add: n2_def m)
  have new: "newly_applied n2 c = newly_applied (n\<lparr>log := merged b es (log n)\<rparr>) c" for c
    using same by (simp add: newly_applied_def unapplied_def n2_def)
  have "\<not> t < current_term n" using t by simp
  then show ?thesis
    using bf lt an follow_commit_result [OF wf2 refl, of e lc] same mwf holds new
    by (simp add: handle_append_entries_def m Let_def) (simp add: n2_def reply_def)
qed

theorem append_entries_accepted_witness:
  "\<exists>n'. handle_append_entries demo_env 1 2 2 1 [demo_entry 3 2 [], demo_entry 4 2 [9]] 9 demo_follower =
      Some (n', [TruncateAndAppend 4 [demo_entry 4 2 [9]], Apply [demo_entry 3 2 [], demo_entry 4 2 [9]],
        reply n' 1 (AppendEntriesResponse True None None)]) \<and> last_applied n' = 4"
proof -
  let ?es = "[demo_entry 3 2 [], demo_entry 4 2 [9]]"
  have *: "kind_wf (AppendEntries 2 1 ?es 9)" "current_term demo_follower \<le> 2"
    "accepts demo_follower (AppendEntries 2 1 ?es 9)"
    by (simp_all add: indexed_from_Cons demo_entry_def demo_follower_def accepts_def demo_log_def vec_lookup_def vec_base_def)
  have m: "merge_new ?es demo_follower = (demo_follower\<lparr>log := \<lparr>entries = entries demo_log @ [demo_entry 4 2 [9]]\<rparr>\<rparr>,
      [TruncateAndAppend 4 [demo_entry 4 2 [9]]])"
    by (simp add: merge_new_def demo_follower_def demo_log_def vec_lookup_def vec_base_def demo_entry_def word_less_nat_alt)
  have n: "newly_applied (demo_follower\<lparr>log := \<lparr>entries = entries demo_log @ [demo_entry 4 2 [9]]\<rparr>\<rparr>) 4
      = [demo_entry 3 2 [], demo_entry 4 2 [9]]" "max (commit_index demo_follower) 4 = 4"
    "\<not> current_term demo_follower < 2"
    by (simp_all add: newly_applied_def unapplied_def demo_follower_def demo_log_def demo_entry_def word_less_nat_alt
        word_le_nat_alt max_def min_def)
  have "e_index (last (entries demo_log @ [demo_entry 4 2 [9]])) = 4" by (simp add: demo_entry_def)
  with append_entries_accepted [OF demo_env_ok(2) demo_nodes_wf(1) *, of 1] show ?thesis
    unfolding m by (auto simp: returns_iff Let_def n simp del: log_query_simps)
qed

section \<open>What the leader sends\<close>

definition next_for :: "'r raft_node \<Rightarrow> node_id \<Rightarrow> log_index" where
  "next_for n p = (case next_index n p of None \<Rightarrow> 1 | Some i \<Rightarrow> i)"

definition update_for :: "'r raft_node \<Rightarrow> node_id \<Rightarrow> message_kind" where
  \<comment> \<open>what a peer is sent next\<close>
  "update_for n p =
    (if next_for n p \<le> e_index (hd (entries (log n)))
     then InstallSnapshot (e_index (hd (entries (log n))))
       (if e_index (hd (entries (log n))) = sentinel_index then term_zero else e_term (hd (entries (log n))))
       0 snapshot_bytes True
     else AppendEntries (next_for n p - 1)
       (case lookup (log n) (unat (next_for n p - 1)) of None \<Rightarrow> term_zero | Some x \<Rightarrow> e_term x)
       (filter (\<lambda>x. next_for n p \<le> e_index x) (tl (entries (log n)))) (commit_index n))"

lemma replicate_to_peer_result:
  assumes wf: "log_wf (log n)"
  shows "replicate_to_peer n p = Some (reply n p (update_for n p))"
proof -
  let ?b = "e_index (hd (entries (log n)))"
  have ne: "entries (log n) \<noteq> []" using wf by simp
  show ?thesis
  proof (cases "next_for n p \<le> ?b")
    case True
    with ne show ?thesis
      by (auto simp: replicate_to_peer_def update_for_def next_for_def [symmetric] log_simps log_snapshot_meta_def Let_def)
  next
    case False
    then have "index_prev (next_for n p) = next_for n p - 1"
      by (auto simp: index_prev_def saturating_sub_def word_le_nat_alt word_less_nat_alt)
    with False ne show ?thesis
      by (auto simp: replicate_to_peer_def update_for_def next_for_def [symmetric] log_simps entries_from_filter [OF wf] Let_def
          split: option.split)
  qed
qed

text \<open>C31: To a peer the leader sends one message of its term: when it still has the entry before the
  peer's next index, everything from the next index on, with that entry's index and term and the
  leader's commit index; when compaction has removed it, a snapshot at the base of its log.\<close>

theorem replicate_to_peer_spec:
  assumes wf: "log_wf (log n)"
  shows "replicate_to_peer n p = Some (reply n p
    (if next_for n p \<le> e_index (hd (entries (log n)))
     then InstallSnapshot (e_index (hd (entries (log n))))
       (if e_index (hd (entries (log n))) = sentinel_index then term_zero else e_term (hd (entries (log n))))
       0 snapshot_bytes True
     else AppendEntries (next_for n p - 1)
       (case lookup (log n) (unat (next_for n p - 1)) of None \<Rightarrow> term_zero | Some x \<Rightarrow> e_term x)
       (filter (\<lambda>x. next_for n p \<le> e_index x) (tl (entries (log n)))) (commit_index n)))"
  using replicate_to_peer_result [OF wf, of p] by (simp add: update_for_def)

theorem replicate_to_peer_spec_witness:
  "replicate_to_peer demo_leader 1 = Some (reply demo_leader 1 (AppendEntries 1 1 [demo_entry 2 1 [7], demo_entry 3 2 []] 2))"
proof -
  have "log_wf (log demo_leader)" using demo_nodes_wf(2) by simp
  from replicate_to_peer_spec [OF this, of 1] show ?thesis
    by (simp add: next_for_def demo_leader_def demo_follower_def demo_log_def vec_lookup_def vec_base_def
        demo_entry_def word_le_nat_alt)
qed

definition last_of_term :: "raft_log \<Rightarrow> raft_term \<Rightarrow> log_index option" where
  \<comment> \<open>the greatest index at which the log has an entry of a term\<close>
  "last_of_term l t = map_option e_index (find (\<lambda>x. e_term x = t) (rev (entries l)))"

definition go_back :: "'r raft_node \<Rightarrow> node_id \<Rightarrow> raft_term option \<Rightarrow> log_index option \<Rightarrow> log_index" where
  \<comment> \<open>the index a rejected leader goes back to\<close>
  "go_back n p ct ci =
     (case ct of
        Some t \<Rightarrow> (case last_of_term (log n) t of
            Some i \<Rightarrow> i + 1 | None \<Rightarrow> (case ci of None \<Rightarrow> 1 | Some i \<Rightarrow> i))
      | None \<Rightarrow> (case ci of Some i \<Rightarrow> i | None \<Rightarrow> (if next_for n p = 0 then 0 else next_for n p - 1)))"

lemma range_incl_indices:
  assumes "log_wf l"
  shows "range_incl (e_index (hd (entries l))) (e_index (last (entries l))) = map e_index (entries l)"
proof (rule nth_equalityI)
  have len: "unat (e_index (last (entries l))) = log_base l + length (entries l) - 1"
    using vec_wf_end [OF log_wf_vec [OF assms]] by (simp add: vec_end_def)
  have pos: "0 < length (entries l)" using assms by simp
  then show eq: "length (range_incl (e_index (hd (entries l))) (e_index (last (entries l)))) = length (map e_index (entries l))"
    using len by (simp add: range_incl_def vec_base_def del: upt_Suc)
  fix i assume "i < length (range_incl (e_index (hd (entries l))) (e_index (last (entries l))))"
  then have i: "i < length (entries l)" using eq by simp
  have "unat (e_index (hd (entries l))) + i < Suc (unat (e_index (last (entries l))))"
    using len i pos by (simp add: vec_base_def)
  then show "range_incl (e_index (hd (entries l))) (e_index (last (entries l))) ! i = map e_index (entries l) ! i"
    using i indexed_from_nth [OF vec_wf_indexed [OF log_wf_vec [OF assms]] i]
    by (simp add: range_incl_def del: upt_Suc)
qed

lemma find_map: "find P (map f xs) = map_option f (find (P \<circ> f) xs)"
  by (induction xs) auto

lemma one_le_u64: "(1 :: u64) \<le> x \<longleftrightarrow> x \<noteq> 0"
proof -
  have "unat x = 0 \<longleftrightarrow> x = 0" by (simp add: unat_eq_0)
  then show ?thesis by (cases "unat x") (simp_all add: word_le_nat_alt)
qed

lemma backtrack_result:
  assumes wf: "log_wf (log n)" and room: "log_room n"
  shows "backtrack_next e p ct ci n = Some (go_back n p ct ci)"
proof (cases ct)
  case None
  have "index_prev i = (if i = 0 then 0 else i - 1)" for i
    by (simp add: index_prev_def saturating_sub_def one_le_u64)
  with None show ?thesis
    by (simp add: backtrack_next_def go_back_def next_for_def [symmetric] split: option.split)
next
  case (Some t)
  have ne: "entries (log n) \<noteq> []" using wf by simp
  let ?P = "\<lambda>i. map_option e_term (lookup (log n) (unat i)) = Some t"
  have at: "?P (e_index x) \<longleftrightarrow> e_term x = t" if "x \<in> set (entries (log n))" for x
    using that vec_lookup_mem [OF log_wf_vec [OF wf], of x] by auto
  have "find_term_back (log n) t (rev (range_incl (e_index (hd (entries (log n)))) (e_index (last (entries (log n))))))
      = Some (map_option e_index (find (?P \<circ> e_index) (rev (entries (log n)))))"
    using find_term_back_returns [OF wf, of t "rev (map e_index (entries (log n)))"]
    by (auto simp: range_incl_indices [OF wf] rev_map find_map returns_iff)
  also have "find (?P \<circ> e_index) (rev (entries (log n))) = find (\<lambda>x. e_term x = t) (rev (entries (log n)))"
    using at by (intro find_cong) auto
  finally have found: "find_term_back (log n) t
      (rev (range_incl (e_index (hd (entries (log n)))) (e_index (last (entries (log n)))))) = Some (last_of_term (log n) t)"
    by (simp add: last_of_term_def)
  have "index_next (debug e) i = Some (i + 1)" if "last_of_term (log n) t = Some i" for i
  proof -
    from that obtain x where x: "x \<in> set (entries (log n))" "i = e_index x"
      by (auto simp: last_of_term_def find_Some_iff in_set_conv_nth rev_nth) (metis diff_less length_greater_0_conv nth_mem empty_iff empty_set zero_less_Suc)
    then obtain j where "j < length (entries (log n))" "i = e_index (entries (log n) ! j)"
      by (auto simp: in_set_conv_nth)
    with vec_wf_unat [OF log_wf_vec [OF wf]] have "unat i \<le> log_last (log n)" by (auto simp: vec_end_def)
    with room have "i \<noteq> -1" by (auto simp: log_room_def not_max_iff)
    then show ?thesis by simp
  qed
  with Some found ne show ?thesis
    by (auto simp: backtrack_next_def go_back_def log_simps split: option.split)
qed

text \<open>C30: A rejection makes the leader go back and retry at once: its next index for the peer becomes the
  one after its own last entry of the conflicting term if it has one, otherwise the conflict index (or
  one less than before when the peer gave no hint), at least 1, and it sends the peer exactly one message,
  the entries (or the snapshot) from there; log, commit index and acknowledgements stay.\<close>

theorem rejection_goes_back:
  assumes wf: "node_wf n" and room: "log_room n" and "role n = Leader" and "t = current_term n"
  shows "handle_append_entries_response e p t False ct ci n =
    (let n' = n\<lparr>next_index := (next_index n)(p \<mapsto> max 1 (go_back n p ct ci))\<rparr>
     in Some (n', [reply n p (update_for n' p)]))"
proof -
  let ?nxt = "go_back n p ct ci"
  let ?n1 = "n\<lparr>next_index := (next_index n)(p \<mapsto> max 1 ?nxt)\<rparr>"
  have m: "(if ?nxt = 0 then 1 else ?nxt) = max 1 ?nxt"
    by (simp add: max_def one_le_u64)
  have "log_wf (log ?n1)" using wf by simp
  from replicate_to_peer_result [OF this, of p]
  have "replicate_to_peer ?n1 p = Some (reply n p (update_for ?n1 p))" by (simp add: reply_def)
  moreover have "backtrack_next e p ct ci n = Some ?nxt" using backtrack_result [of n] wf room by simp
  ultimately show ?thesis
    using assms(3,4) unfolding handle_append_entries_response_def Let_def by (auto simp: m simp del: fun_upd_apply)
qed

theorem rejection_goes_back_witness:
  "handle_append_entries_response demo_env 3 2 False (Some 1) (Some 1) demo_leader =
     Some (demo_leader\<lparr>next_index := (next_index demo_leader)(3 \<mapsto> 3)\<rparr>,
       [reply demo_leader 3 (AppendEntries 2 1 [demo_entry 3 2 []] 2)])"
proof -
  have *: "log_room demo_leader" "role demo_leader = Leader" "2 = current_term demo_leader"
    using demo_nodes_room(2) by (simp_all add: demo_leader_def demo_follower_def)
  have "go_back demo_leader 3 (Some 1) (Some 1) = 3" "max 1 (3 :: u64) = 3"
    by (simp_all add: go_back_def last_of_term_def demo_leader_def demo_follower_def demo_log_def demo_entry_def max_def word_le_nat_alt)
  moreover have "update_for (demo_leader\<lparr>next_index := (next_index demo_leader)(3 \<mapsto> 3)\<rparr>) 3
      = AppendEntries 2 1 [demo_entry 3 2 []] 2"
    by (simp add: update_for_def next_for_def demo_leader_def demo_follower_def demo_log_def vec_lookup_def vec_base_def
        demo_entry_def word_le_nat_alt)
  ultimately show ?thesis
    using rejection_goes_back [OF demo_nodes_wf(2) *, of demo_env 3 "Some 1" "Some 1"] by (simp add: Let_def)
qed

section \<open>Snapshots\<close>

text \<open>A snapshot of the current or a later term makes the receiver a follower of the sender. Complete
  and beyond its commit index, it replaces the whole log by the snapshot position, which is then
  committed and applied, and is handed to the disk before the answer; otherwise log and commit index
  stay as they are. It is answered in both cases.\<close>

theorem install_snapshot_spec:
  assumes rng: "rng_ok e" and wf: "node_wf n" and t: "current_term n \<le> t"
  shows "returns (handle_install_snapshot e from t idx idx_term dat done n) (\<lambda>(n', acts).
    current_term n' = t \<and> role n' = Follower \<and> leader_id n' = Some from \<and>
    (let persist = (if current_term n < t then [PersistHardState t None] else []);
         answer = [reply n' from InstallSnapshotResponse]
     in if commit_index n < idx \<and> done
        then entries (log n') = [sentinel_entry idx idx_term] \<and> commit_index n' = idx \<and> last_applied n' = idx \<and>
          acts = persist @ [PersistSnapshot idx idx_term dat] @ answer
        else log n' = log n \<and> commit_index n' = commit_index n \<and> last_applied n' = last_applied n \<and>
          acts = persist @ answer))"
proof -
  from become_follower_returns [OF rng wf, of t "Some from"] obtain n1 acts1 where
    bf: "become_follower e t (Some from) n = Some (n1, acts1)" by (auto simp: returns_iff)
  then have n1: "log n1 = log n" "commit_index n1 = commit_index n" "last_applied n1 = last_applied n"
    "current_term n1 = t" "role n1 = Follower" "leader_id n1 = Some from"
    "acts1 = (if current_term n < t then [PersistHardState t None] else [])"
    by (auto elim!: become_followerE)
  have "\<not> t < current_term n" using t by simp
  with bf n1 show ?thesis
    by (cases "commit_index n < idx \<and> done")
      (auto simp: handle_install_snapshot_def Let_def log_install_snapshot_def reply_def not_less)
qed

theorem install_snapshot_spec_witness:
  "\<exists>n'. handle_install_snapshot demo_env 1 2 7 2 [5] True demo_follower =
      Some (n', [PersistSnapshot 7 2 [5], reply n' 1 InstallSnapshotResponse]) \<and> commit_index n' = 7"
proof -
  have t: "current_term demo_follower \<le> 2" by (simp add: demo_follower_def)
  have "commit_index demo_follower < 7" "\<not> current_term demo_follower < 2"
    by (simp_all add: demo_follower_def word_less_nat_alt)
  with install_snapshot_spec [OF demo_env_ok(2) demo_nodes_wf(1) t, of 1 7 2 "[5]" True] show ?thesis
    by (auto simp: returns_iff Let_def)
qed

end
