(* ===== verification/ElectionSpec.thy ===== *)
theory ElectionSpec
  imports ReplicationSpec
begin

text \<open>
  What each message and timer of an election does, on every branch: the order in which candidates are
  compared, when a vote and a pre-vote are granted and what is written before the answer leaves, how
  leadership is won, and when a silent cluster starts an election.
\<close>

section \<open>The order of logs\<close>

text \<open>Candidates are compared by the term, then the index of their last entry.\<close>

datatype log_pos = LogPos (pos_term: raft_term) (pos_index: log_index)

instantiation log_pos :: linorder
begin

definition less_eq_log_pos :: "log_pos \<Rightarrow> log_pos \<Rightarrow> bool" where
  "less_eq_log_pos p q \<longleftrightarrow> pos_term p < pos_term q \<or> pos_term p = pos_term q \<and> pos_index p \<le> pos_index q"

definition less_log_pos :: "log_pos \<Rightarrow> log_pos \<Rightarrow> bool" where
  "less_log_pos p q \<longleftrightarrow> pos_term p < pos_term q \<or> pos_term p = pos_term q \<and> pos_index p < pos_index q"

instance
  by standard (auto simp: less_eq_log_pos_def less_log_pos_def log_pos.expand)

end

definition log_end :: "'r raft_node \<Rightarrow> log_pos" where
  "log_end n = LogPos (e_term (last (entries (log n)))) (e_index (last (entries (log n))))"

section \<open>Votes\<close>

definition grants_vote :: "'r raft_node \<Rightarrow> message \<Rightarrow> bool" where
  \<comment> \<open>when a \<open>RequestVote\<close> of the current or a higher term is granted\<close>
  "grants_vote n m \<longleftrightarrow>
     log_end n \<le> LogPos (rv_last_log_term (msg_kind m)) (rv_last_log_index (msg_kind m)) \<and>
     (current_term n < msg_term m \<or> (voted_for n = None \<or> voted_for n = Some (msg_from m)) \<and> \<not> leader_lease_active n)"

lemma request_vote_result:
  assumes "entries (log n) \<noteq> []"
  shows "handle_request_vote from lli llt n = Some
    (if (voted_for n = None \<or> voted_for n = Some from) \<and> log_end n \<le> LogPos llt lli \<and> \<not> leader_lease_active n
     then (n\<lparr>voted_for := Some from, election_elapsed := 0\<rparr>,
           [PersistHardState (current_term n) (Some from), reply n from (RequestVoteResponse True)])
     else (n, [reply n from (RequestVoteResponse False)]))"
  using assms by (auto simp: handle_request_vote_def up_to_date_eq Let_def is_log_up_to_date_def log_simps
      log_end_def less_eq_log_pos_def reply_def)

lemma become_follower_result:
  assumes "become_follower e t l n = Some (n', acts)"
  shows "current_term n' = t" "role n' = Follower" "leader_id n' = l" "log n' = log n" "node_id n' = node_id n"
    "voted_for n' = (if current_term n < t then None else voted_for n)" "election_elapsed n' = 0"
    "commit_index n' = commit_index n" "last_applied n' = last_applied n" "peers n' = peers n"
    "next_index n' = next_index n" "match_index n' = match_index n"
    "acts = (if current_term n < t then [PersistHardState t None] else [])"
  using assms by (auto elim!: become_followerE)

text \<open>C8: A \<open>RequestVote\<close> of a lower term is dropped without an answer. Otherwise the node ends in the
  message's term and answers; a higher term makes it a follower that knows no leader, whatever it was,
  and the current term leaves its role alone. It grants exactly when the candidate's log is up to date
  and either the term is new or the vote of the term is free (or already the candidate's) and no leader
  was heard of within the base timeout; the adopted term and the vote are written to disk before the
  answer, and either restarts its election timer. For a new term the leader lease plays no role:
  adopting the term has already forgotten the leader. Log, commit index and progress of peers stay.\<close>

theorem step_request_vote:
  assumes rng: "rng_ok e" and wf: "node_wf n" and m: "msg_kind m = RequestVote lli llt"
  shows "returns (step e m n) (\<lambda>(n', acts).
    if msg_term m < current_term n then n' = n \<and> acts = []
    else current_term n' = msg_term m \<and>
      role n' = (if current_term n < msg_term m then Follower else role n) \<and>
      leader_id n' = (if current_term n < msg_term m then None else leader_id n) \<and>
      election_elapsed n' = (if current_term n < msg_term m \<or> grants_vote n m then 0 else election_elapsed n) \<and>
      log n' = log n \<and> commit_index n' = commit_index n \<and> last_applied n' = last_applied n \<and>
      next_index n' = next_index n \<and> match_index n' = match_index n \<and>
      voted_for n' = (if grants_vote n m then Some (msg_from m)
        else if current_term n < msg_term m then None else voted_for n) \<and>
      acts = (if current_term n < msg_term m then [PersistHardState (msg_term m) None] else [])
        @ (if grants_vote n m then [PersistHardState (msg_term m) (Some (msg_from m))] else [])
        @ [reply n' (msg_from m) (RequestVoteResponse (grants_vote n m))])"
proof (cases "current_term n < msg_term m")
  case True
  from become_follower_returns [OF rng wf, of "msg_term m" None] obtain n1 acts1 where
    bf: "become_follower e (msg_term m) None n = Some (n1, acts1)" by (auto simp: returns_iff)
  note n1 = become_follower_result [OF bf]
  have ne: "entries (log n1) \<noteq> []" using n1 wf by simp
  have "log_end n1 = log_end n" "\<not> leader_lease_active n1"
    using n1 by (simp_all add: log_end_def leader_lease_active_def)
  with True m bf n1 request_vote_result [OF ne, of "msg_from m" lli llt] show ?thesis
    by (auto simp: step_def dispatch_def grants_vote_def reply_def)
next
  case False
  have "entries (log n) \<noteq> []" using wf by simp
  from False m request_vote_result [OF this, of "msg_from m" lli llt] show ?thesis
    by (auto simp: step_def dispatch_def grants_vote_def reply_def)
qed

theorem step_request_vote_witness:
  "\<exists>n'. step demo_env \<lparr>msg_from = 3, msg_to = 2, msg_term = 3, msg_kind = RequestVote 3 2\<rparr> demo_follower =
      Some (n', [PersistHardState 3 None, PersistHardState 3 (Some 3), reply n' 3 (RequestVoteResponse True)]) \<and>
    voted_for n' = Some 3 \<and> role n' = Follower"
proof -
  let ?m = "\<lparr>msg_from = 3, msg_to = 2, msg_term = 3, msg_kind = RequestVote 3 2\<rparr>"
  have "msg_kind ?m = RequestVote 3 2" by simp
  from step_request_vote [OF demo_env_ok(2) demo_nodes_wf(1) this]
  show ?thesis
    by (auto simp: returns_iff grants_vote_def log_end_def less_eq_log_pos_def demo_follower_def demo_log_def
        demo_entry_def)
qed

text \<open>C34: A pre-vote changes nothing in the node that answers it, whatever the terms: it grants exactly
  when the proposed term is not behind its own, the candidate's log is up to date and no leader was
  heard of within the base timeout.\<close>

theorem step_pre_vote:
  assumes "entries (log n) \<noteq> []" and "msg_kind m = PreVote lli llt"
  shows "step e m n = Some (n, [reply n (msg_from m) (PreVoteResponse
    (current_term n \<le> msg_term m \<and> log_end n \<le> LogPos llt lli \<and> \<not> leader_lease_active n))])"
  using assms
  by (auto simp: step_def dispatch_def handle_pre_vote_def is_log_up_to_date_def log_simps log_end_def
      less_eq_log_pos_def reply_def)

theorem step_pre_vote_witness:
  "step demo_env \<lparr>msg_from = 3, msg_to = 2, msg_term = 3, msg_kind = PreVote 3 2\<rparr> demo_follower =
     Some (demo_follower, [reply demo_follower 3 (PreVoteResponse True)])"
proof -
  have "entries (log demo_follower) \<noteq> []" by (simp add: demo_follower_def demo_log_def)
  from step_pre_vote [OF this, of "\<lparr>msg_from = 3, msg_to = 2, msg_term = 3, msg_kind = PreVote 3 2\<rparr>" 3 2 demo_env]
  show ?thesis
    by (simp add: log_end_def less_eq_log_pos_def leader_lease_active_def demo_follower_def demo_log_def demo_entry_def)
qed

section \<open>Winning\<close>

definition wins :: "'r raft_node \<Rightarrow> node_id \<Rightarrow> raft_term \<Rightarrow> bool \<Rightarrow> bool" where
  \<comment> \<open>the answer completes a majority for a candidate of its term\<close>
  "wins n from t granted \<longleftrightarrow> role n = Candidate \<and> t = current_term n \<and> granted \<and>
     majority n \<le> card (insert from (votes_received n))"

lemma those_length: "those (map f xs) = Some ys \<Longrightarrow> length ys = length xs"
  by (induction xs arbitrary: ys) (auto split: option.splits)

lemma those_nth: "those (map f xs) = Some ys \<Longrightarrow> i < length xs \<Longrightarrow> f (xs ! i) = Some (ys ! i)"
proof (induction xs arbitrary: ys i)
  case (Cons x xs)
  then show ?case by (cases i) (auto split: option.splits)
qed simp

lemma map_of_const [simp]: "p \<in> set ps \<Longrightarrow> map_of (map (\<lambda>p. (p, c)) ps) p = Some c"
  by (induction ps) auto

definition first_entry :: "'r raft_node \<Rightarrow> log_entry" where
  \<comment> \<open>the empty entry a new leader adds to its log\<close>
  "first_entry n = \<lparr>e_index = e_index (last (entries (log n))) + 1, e_term = current_term n, e_command = []\<rparr>"

lemma broadcast_result:
  "log_wf (log n) \<Longrightarrow> those (map (replicate_to_peer n) ps) = Some (map (\<lambda>p. reply n p (update_for n p)) ps)"
  by (induction ps) (simp_all add: replicate_to_peer_result)

lemma update_for_last:
  \<comment> \<open>a peer that lacks only the last entry is sent that entry\<close>
  assumes wf: "log_wf l" and x: "e_index x = e_index (last (entries l)) + 1" "e_index (last (entries l)) \<noteq> -1"
    and n: "entries (log n) = entries l @ [x]" "log_wf (log n)" "next_for n p = e_index x"
  shows "update_for n p = AppendEntries (e_index (last (entries l))) (e_term (last (entries l))) [x] (commit_index n)"
proof -
  let ?es = "entries l" and ?i = "e_index (last (entries l))"
  have ne: "?es \<noteq> []" using wf by simp
  then have mem: "last ?es \<in> set (entries (log n))" "hd ?es \<in> set ?es" by (simp_all add: n(1))
  have below: "e_index y \<le> ?i" if "y \<in> set ?es" for y
    using log_wf_vec [OF wf] that vec_wf_unat vec_wf_end by (auto simp: in_set_conv_nth word_le_nat_alt vec_end_def)
  have lt: "?i < e_index x" using plus_one_greater [OF x(2)] x(1) by simp
  then have "filter (\<lambda>y. e_index x \<le> e_index y) (tl ?es) = []"
    using below by (auto simp: filter_empty_conv dest!: list.set_sel(2) [OF ne]) (meson leD order_trans)
  then have "filter (\<lambda>y. e_index x \<le> e_index y) (tl (entries (log n))) = [x]"
    using ne by (simp add: n(1) tl_append2)
  moreover have "lookup (log n) (unat ?i) = Some (last ?es)"
    using vec_lookup_mem [OF log_wf_vec [OF n(2)], of "last ?es"] mem(1) by simp
  moreover have "\<not> e_index x \<le> e_index (hd (entries (log n)))"
    using below [OF mem(2)] lt ne by (auto simp: n(1))
  ultimately show ?thesis using x(1) by (simp add: update_for_def n(3))
qed

lemma become_leader_result:
  assumes bl: "become_leader e n = Some (n', acts)" and wf: "node_wf n" and room: "log_room n"
  shows "n' = as_leader n (e_index (first_entry n)) (first_entry n)"
    "acts = AppendToLog [first_entry n] # map (\<lambda>p. reply n' p (AppendEntries (pos_index (log_end n))
      (pos_term (log_end n)) [first_entry n] (commit_index n))) (peers n)"
proof -
  from bl obtain sends where sends: "n' = as_leader n (e_index (first_entry n)) (first_entry n)"
    "those (map (replicate_to_peer n') (peers n)) = Some sends" "acts = AppendToLog [first_entry n] # sends"
    by (auto elim!: become_leaderE simp: first_entry_def)
  then show "n' = as_leader n (e_index (first_entry n)) (first_entry n)" by simp
  have "node_wf (n\<lparr>log := log n\<lparr>entries := entries (log n) @ [first_entry n]\<rparr>\<rparr>)"
    using node_wf_append [OF wf append_one_returns(2) [OF wf room, of "current_term n" "[]"]]
    by (simp add: first_entry_def)
  then have wf': "log_wf (log n')" by (simp add: sends(1) as_leader_def node_wf_def)
  have wfn: "log_wf (log n)" using wf by simp
  have "update_for n' p = AppendEntries (pos_index (log_end n)) (pos_term (log_end n)) [first_entry n] (commit_index n)"
    if "p \<in> set (peers n)" for p
    using update_for_last [OF wfn _ log_room_last [OF room wfn] _ wf', of "first_entry n" p] that
    by (simp add: sends(1) as_leader_def first_entry_def log_end_def next_for_def)
  then show "acts = AppendToLog [first_entry n] # map (\<lambda>p. reply n' p (AppendEntries (pos_index (log_end n))
      (pos_term (log_end n)) [first_entry n] (commit_index n))) (peers n)"
    using sends(2,3) broadcast_result [OF wf', of "peers n"] by (auto cong: map_cong)
qed

text \<open>C33: An answer to a vote request makes a node leader exactly when it is a candidate of that term and
  the answer is the vote that completes a majority, itself included. The new leader appends one empty
  entry of its term right after its log and writes it to disk first; then it sends each of its peers that
  entry, with the position of the entry before it, so that a peer which lacks more can refuse. It assumes
  that every peer lacks only that entry and that none has acknowledged anything. Any other answer leaves
  the log alone and sends nothing.\<close>

theorem vote_response_outcome:
  assumes wf: "node_wf n" and room: "log_room n"
  shows "returns (handle_request_vote_response e from t granted n) (\<lambda>(n', acts).
    (role n' = Leader \<longleftrightarrow> role n = Leader \<or> wins n from t granted) \<and> current_term n' = current_term n \<and>
    (if wins n from t granted
     then entries (log n') = entries (log n) @ [first_entry n] \<and> leader_id n' = Some (node_id n) \<and>
       (\<forall>p \<in> set (peers n). next_index n' p = Some (e_index (first_entry n)) \<and> match_index n' p = Some sentinel_index) \<and>
       acts = AppendToLog [first_entry n] # map (\<lambda>p. reply n' p (AppendEntries (pos_index (log_end n))
         (pos_term (log_end n)) [first_entry n] (commit_index n))) (peers n)
     else log n' = log n \<and> acts = []))"
proof (cases "wins n from t granted")
  case True
  let ?n1 = "n\<lparr>votes_received := insert from (votes_received n)\<rparr>"
  have n1: "node_wf ?n1" "log_room ?n1" using wf room by (simp_all add: node_wf_def log_room_def)
  from become_leader_returns [OF this, of e] obtain n' acts where bl: "become_leader e ?n1 = Some (n', acts)"
    by (auto simp: returns_iff)
  have "handle_request_vote_response e from t granted n = Some (n', acts)"
    using True bl by (simp add: handle_request_vote_response_def wins_def majority_def)
  moreover have "first_entry ?n1 = first_entry n" "log_end ?n1 = log_end n"
    by (simp_all add: first_entry_def log_end_def)
  ultimately show ?thesis
    using True become_leader_result [OF bl n1] by (simp add: as_leader_def wins_def)
next
  case False
  then show ?thesis
    by (auto simp: handle_request_vote_response_def wins_def majority_def Let_def)
qed

theorem vote_response_outcome_witness:
  "\<exists>n'. handle_request_vote_response demo_env 3 2 True demo_candidate = Some (n',
       [AppendToLog [demo_entry 4 2 []], reply n' 1 (AppendEntries 3 2 [demo_entry 4 2 []] 2),
        reply n' 3 (AppendEntries 3 2 [demo_entry 4 2 []] 2)]) \<and> role n' = Leader"
proof -
  have won: "wins demo_candidate 3 2 True"
    by (simp add: wins_def demo_candidate_def demo_follower_def majority_def)
  have "log_room demo_candidate" using demo_nodes_room(3) by simp
  moreover have "first_entry demo_candidate = demo_entry 4 2 []" "log_end demo_candidate = LogPos 2 3"
    "commit_index demo_candidate = 2" "peers demo_candidate = [1, 3]"
    by (simp_all add: first_entry_def log_end_def demo_candidate_def demo_follower_def demo_log_def demo_entry_def)
  ultimately show ?thesis
    using vote_response_outcome [OF demo_nodes_wf(3), of demo_env 3 2 True] won by (auto simp: returns_iff)
qed

section \<open>Timers\<close>

fun tick_n :: "'r env \<Rightarrow> nat \<Rightarrow> 'r raft_node \<Rightarrow> 'r outcome option" where
  \<comment> \<open>the clock ticks \<open>k\<close> times and nothing else happens\<close>
  "tick_n e 0 n = Some (n, [])"
| "tick_n e (Suc k) n = do {
     (n1, acts1) \<leftarrow> tick e n;
     (n2, acts2) \<leftarrow> tick_n e k n1;
     Some (n2, acts1 @ acts2)
   }"

lemma plus_one_unat: "unat (a :: u64) + 1 < 2 ^ 64 \<Longrightarrow> add_u64 chk a 1 = Some (a + 1) \<and> unat (a + 1) = unat a + 1"
  using unat_plus_no_wrap [of a 1] word_no_wrap [of a 1] by (simp add: add_u64_def)

lemma quiet_ticks:
  "role n \<noteq> Leader \<Longrightarrow> unat (election_elapsed n) + j < unat (election_timeout n) \<Longrightarrow>
    tick_n e j n = Some (n\<lparr>election_elapsed := election_elapsed n + of_nat j\<rparr>, [])"
proof (induction j arbitrary: n)
  case (Suc j)
  let ?n1 = "n\<lparr>election_elapsed := election_elapsed n + 1\<rparr>"
  have el: "add_u64 (debug e) (election_elapsed n) 1 = Some (election_elapsed n + 1)"
    "unat (election_elapsed n + 1) = unat (election_elapsed n) + 1" "\<not> election_timeout n \<le> election_elapsed n + 1"
    using plus_one_unat [of "election_elapsed n" "debug e"] Suc.prems(2) unat_u64_less [of "election_timeout n"]
    by (auto simp: word_le_nat_alt)
  then have "tick e n = Some (?n1, [])" using Suc.prems(1) by (cases "role n") (auto simp: tick_def)
  moreover have "tick_n e j ?n1 = Some (?n1\<lparr>election_elapsed := election_elapsed ?n1 + of_nat j\<rparr>, [])"
    using Suc.prems el(2) by (intro Suc.IH) simp_all
  ultimately show ?case by (simp add: add.assoc)
qed simp

lemma tick_n_last:
  "tick_n e j n = Some (n1, []) \<Longrightarrow> tick_n e (Suc j) n = tick e n1"
proof (induction j arbitrary: n)
  case 0
  then show ?case by (cases "tick e n") auto
next
  case (Suc j)
  then obtain n2 where n2: "tick e n = Some (n2, [])" "tick_n e j n2 = Some (n1, [])"
    by (auto simp: bind_eq_Some_conv simp del: tick_n.simps(2) simp: tick_n.simps(2) [of _ j])
  from Suc.IH [OF n2(2)] n2(1) show ?case
    by (cases "tick e n1") (simp_all add: tick_n.simps(2) [of e "Suc j"] del: tick_n.simps(2))
qed

lemma start_pre_vote_asks:
  assumes "rng_ok e" "node_wf n" "current_term n \<noteq> -1" "peers n \<noteq> []"
  shows "returns (start_pre_vote e n) (\<lambda>(n', acts). role n' = PreCandidate \<and> current_term n' = current_term n \<and>
    voted_for n' = voted_for n \<and>
    acts = map (\<lambda>p. Send \<lparr>msg_from = node_id n, msg_to = p, msg_term = current_term n + 1,
      msg_kind = PreVote (pos_index (log_end n)) (pos_term (log_end n))\<rparr>) (peers n))"
proof -
  obtain timeout r where
    "randomize_election_timeout e (election_timeout_base n) (rng n) = Some (timeout, r)"
    using randomize_node [OF assms(1,2), of "rng n"] by (auto simp: returns_iff)
  then show ?thesis
    using assms by (simp add: start_pre_vote_def Let_def log_simps log_end_def)
qed

text \<open>C35: Without a leader an election starts, and not before its time: a node that is not leader, has
  peers and hears nothing only counts ticks, without sending anything, until its randomised timeout has
  passed; at exactly that tick, which is less than twice the base timeout away, it asks every peer for a
  pre-vote, in the term after its own and with its last position. Its term and its vote are unchanged, so
  a partitioned node does not inflate its term.\<close>

theorem silence_starts_pre_vote:
  assumes rng: "rng_ok e" and wf: "node_wf n" and "role n \<noteq> Leader" and "peers n \<noteq> []" and "current_term n \<noteq> -1"
    and late: "election_elapsed n < election_timeout n"
    and k_def: "k = unat (election_timeout n) - unat (election_elapsed n)"
  shows "k < 2 * unat (election_timeout_base n) \<and>
    (\<forall>j < k. tick_n e j n = Some (n\<lparr>election_elapsed := election_elapsed n + of_nat j\<rparr>, [])) \<and>
    returns (tick_n e k n) (\<lambda>(n', acts).
      role n' = PreCandidate \<and> current_term n' = current_term n \<and> voted_for n' = voted_for n \<and>
      acts = map (\<lambda>p. Send \<lparr>msg_from = node_id n, msg_to = p, msg_term = current_term n + 1,
        msg_kind = PreVote (pos_index (log_end n)) (pos_term (log_end n))\<rparr>) (peers n))"
proof -
  let ?asks = "\<lambda>(n', acts). role n' = PreCandidate \<and> current_term n' = current_term n \<and>
    voted_for n' = voted_for n \<and>
    acts = map (\<lambda>p. Send \<lparr>msg_from = node_id n, msg_to = p, msg_term = current_term n + 1,
      msg_kind = PreVote (pos_index (log_end n)) (pos_term (log_end n))\<rparr>) (peers n)"
  have k: "0 < k" "unat (election_elapsed n) + k = unat (election_timeout n)"
    using late by (auto simp: k_def word_less_nat_alt)
  have waits: "tick_n e j n = Some (n\<lparr>election_elapsed := election_elapsed n + of_nat j\<rparr>, [])" if "j < k" for j
    using quiet_ticks [of n j e] that k assms(3) by simp
  define n1 where "n1 = n\<lparr>election_elapsed := election_elapsed n + of_nat (k - 1)\<rparr>"
  have el: "unat (election_elapsed n1) + 1 = unat (election_timeout n)"
    using k unat_plus_no_wrap [of "election_elapsed n" "k - 1"] unat_u64_less [of "election_timeout n"]
    by (simp add: n1_def)
  then have "add_u64 (debug e) (election_elapsed n1) 1 = Some (election_elapsed n1 + 1)"
    "election_timeout n \<le> election_elapsed n1 + 1"
    using plus_one_unat [of "election_elapsed n1" "debug e"] unat_u64_less [of "election_timeout n"]
    by (auto simp: word_le_nat_alt)
  moreover have "node_wf (n1\<lparr>election_elapsed := 0\<rparr>)" using wf by (simp add: node_wf_def n1_def)
  from start_pre_vote_asks [OF rng this] assms(4,5) have "returns (start_pre_vote e (n1\<lparr>election_elapsed := 0\<rparr>)) ?asks"
    by (simp add: n1_def log_end_def)
  ultimately have "returns (tick e n1) ?asks"
    using assms(3) by (cases "role n") (auto simp: tick_def n1_def)
  moreover have "tick_n e (k - 1) n = Some (n1, [])" using waits [of "k - 1"] k(1) by (simp add: n1_def)
  then have "tick_n e k n = tick e n1" using tick_n_last [of e "k - 1" n n1] k(1) by simp
  moreover have "unat (election_timeout n) < 2 * unat (election_timeout_base n)" using wf by (simp add: node_wf_def)
  then have "k < 2 * unat (election_timeout_base n)" unfolding k_def by linarith
  ultimately show ?thesis using waits by simp
qed

theorem silence_starts_pre_vote_witness:
  "tick_n demo_env 1 demo_follower = Some (demo_follower\<lparr>election_elapsed := 16\<rparr>, []) \<and>
   returns (tick_n demo_env 2 demo_follower) (\<lambda>(n', acts). role n' = PreCandidate \<and> length acts = 2)"
proof -
  have *: "role demo_follower \<noteq> Leader" "peers demo_follower \<noteq> []" "current_term demo_follower \<noteq> -1"
    "election_elapsed demo_follower < election_timeout demo_follower"
    "2 = unat (election_timeout demo_follower) - unat (election_elapsed demo_follower)"
    by (simp_all add: demo_follower_def)
  have "length (peers demo_follower) = 2" "election_elapsed demo_follower + 1 = 16" by (simp_all add: demo_follower_def)
  with silence_starts_pre_vote [OF demo_env_ok(2) demo_nodes_wf(1) *] show ?thesis
    by (auto simp: returns_iff simp del: tick_n.simps)
qed

lemma replicate_sends:
  "replicate_to_peer n p = Some a \<Longrightarrow> \<exists>k. a = reply n p k"
  by (auto simp: replicate_to_peer_def Let_def bind_eq_Some_conv split: if_splits)

lemma broadcast_sends:
  assumes "those (map (replicate_to_peer n) ps) = Some acts"
  shows "\<exists>ks. acts = map (\<lambda>(p, k). reply n p k) (zip ps ks) \<and> length ks = length ps"
  using assms
proof (induction ps arbitrary: acts)
  case (Cons p ps)
  then obtain a rest where a: "replicate_to_peer n p = Some a" "those (map (replicate_to_peer n) ps) = Some rest"
    "acts = a # rest" by (auto split: option.splits)
  with replicate_sends [OF a(1)] Cons.IH [OF a(2)] obtain k ks where
    "a = reply n p k" "rest = map (\<lambda>(p, k). reply n p k) (zip ps ks)" "length ks = length ps" by blast
  with a(3) show ?case by (intro exI [of _ "k # ks"]) simp
qed simp

text \<open>A leader never stays silent: left alone it sends, within its heartbeat interval, one message of
  its current term to each of its peers, and stays the leader of its term with its log unchanged.\<close>

theorem leader_heartbeats:
  assumes "node_wf n" and "role n = Leader" and "heartbeat_elapsed n < heartbeat_interval n"
  shows "\<exists>k \<le> unat (heartbeat_interval n). returns (tick_n e k n) (\<lambda>(n', acts).
    role n' = Leader \<and> current_term n' = current_term n \<and> log n' = log n \<and>
    (\<exists>ks. acts = map (\<lambda>(p, k). reply n p k) (zip (peers n) ks) \<and> length ks = length (peers n)))"
proof -
  let ?beats = "\<lambda>n (n', acts). role n' = Leader \<and> current_term n' = current_term n \<and> log n' = log n \<and>
    (\<exists>ks. acts = map (\<lambda>(p, k). reply n p k) (zip (peers n) ks) \<and> length ks = length (peers n))"
  have "returns (tick_n e (Suc j) n) (?beats n)"
    if "j + unat (heartbeat_elapsed n) + 1 = unat (heartbeat_interval n)" "log_wf (log n)" "role n = Leader"
    for j and n :: "'a raft_node"
    using that
  proof (induction j arbitrary: n)
    case 0
    let ?n1 = "n\<lparr>heartbeat_elapsed := 0\<rparr>"
    have el: "add_u64 (debug e) (heartbeat_elapsed n) 1 = Some (heartbeat_elapsed n + 1)"
      "heartbeat_interval n \<le> heartbeat_elapsed n + 1"
      using plus_one_unat [of "heartbeat_elapsed n" "debug e"] "0.prems"(1) unat_u64_less [of "heartbeat_interval n"]
      by (auto simp: word_le_nat_alt)
    from broadcast_returns [of ?n1 "peers n"] "0.prems" obtain acts where
      acts: "those (map (replicate_to_peer ?n1) (peers n)) = Some acts" by (auto simp: returns_iff)
    with broadcast_sends [OF acts] el "0.prems"(3) show ?case
      by (auto simp: tick_def broadcast_heartbeats_def reply_def)
  next
    case (Suc j)
    let ?n1 = "n\<lparr>heartbeat_elapsed := heartbeat_elapsed n + 1\<rparr>"
    have el: "add_u64 (debug e) (heartbeat_elapsed n) 1 = Some (heartbeat_elapsed n + 1)"
      "unat (heartbeat_elapsed n + 1) = unat (heartbeat_elapsed n) + 1" "\<not> heartbeat_interval n \<le> heartbeat_elapsed n + 1"
      using plus_one_unat [of "heartbeat_elapsed n" "debug e"] Suc.prems(1) unat_u64_less [of "heartbeat_interval n"]
      by (auto simp: word_le_nat_alt)
    then have "tick e n = Some (?n1, [])" using Suc.prems(3) by (auto simp: tick_def)
    moreover have "returns (tick_n e (Suc j) ?n1) (?beats ?n1)"
      using Suc.prems el(2) by (intro Suc.IH) auto
    ultimately show ?case
      by (auto simp: returns_iff reply_def simp del: tick_n.simps(2) simp: tick_n.simps(2) [of _ "Suc j"])
  qed
  from this [of "unat (heartbeat_interval n) - unat (heartbeat_elapsed n) - 1" n] assms
  show ?thesis
    by (intro exI [of _ "Suc (unat (heartbeat_interval n) - unat (heartbeat_elapsed n) - 1)"])
      (auto simp: word_less_nat_alt)
qed

theorem leader_heartbeats_witness:
  "\<exists>k \<le> 4. returns (tick_n demo_env k demo_leader) (\<lambda>(n', acts). role n' = Leader \<and> length acts = 2)"
proof -
  have *: "role demo_leader = Leader" "heartbeat_elapsed demo_leader < heartbeat_interval demo_leader"
    by (simp_all add: demo_leader_def demo_follower_def)
  from leader_heartbeats [OF demo_nodes_wf(2) *, of demo_env] obtain k where
    "k \<le> unat (heartbeat_interval demo_leader)"
    "returns (tick_n demo_env k demo_leader) (\<lambda>(n', acts). role n' = Leader \<and> length acts = length (peers demo_leader))"
    by (auto simp: returns_iff)
  moreover have "length (peers demo_leader) = 2" "unat (heartbeat_interval demo_leader) = 4"
    by (simp_all add: demo_leader_def demo_follower_def)
  ultimately show ?thesis by (intro exI [of _ k]) simp
qed

section \<open>Construction\<close>

lemma node_new_returns:
  assumes rng: "rng_ok e" and et: "2 * unat (cfg_election_timeout_ticks c) \<le> 2 ^ 64"
    and hb: "cfg_heartbeat_interval_ticks c < cfg_election_timeout_ticks c"
  shows "returns (node_new e c) (\<lambda>n. node_wf n \<and> log n = log_new \<and> node_id n = cfg_id c \<and> peers n = cfg_peers c \<and>
    role n = Follower \<and> current_term n = term_zero \<and> voted_for n = None \<and> leader_id n = None \<and>
    cfg_election_timeout_ticks c \<le> election_timeout n \<and>
    unat (election_timeout n) < 2 * unat (cfg_election_timeout_ticks c))"
proof -
  have "0 < unat (cfg_election_timeout_ticks c)" using hb by (simp add: word_less_nat_alt)
  from randomize_returns [OF rng this et, of "seed_from_u64 e (cfg_rng_seed c)"] obtain t r where
    "randomize_election_timeout e (cfg_election_timeout_ticks c) (seed_from_u64 e (cfg_rng_seed c)) = Some (t, r)"
    "cfg_election_timeout_ticks c \<le> t" "unat t < 2 * unat (cfg_election_timeout_ticks c)" by (auto simp: returns_iff)
  moreover have "log_base log_new = 0" by (simp add: log_new_def vec_base_def sentinel_index_def)
  ultimately show ?thesis using hb et
    by (auto simp: node_new_def Let_def node_wf_def sentinel_index_def)
qed

text \<open>\<open>RaftNode::new\<close> panics exactly when the heartbeat interval is not below the election timeout;
  otherwise it returns a well-formed follower of term 0 without a vote or a leader, with an empty log,
  whose randomised timeout lies between the configured timeout and twice that.\<close>

theorem node_new_spec:
  assumes "rng_ok e" and "2 * unat (cfg_election_timeout_ticks c) \<le> 2 ^ 64"
  shows "if cfg_heartbeat_interval_ticks c < cfg_election_timeout_ticks c
    then \<exists>n. node_new e c = Some n \<and> node_wf n \<and> node_id n = cfg_id c \<and> peers n = cfg_peers c \<and>
      role n = Follower \<and> current_term n = term_zero \<and> voted_for n = None \<and> leader_id n = None \<and> log n = log_new \<and>
      cfg_election_timeout_ticks c \<le> election_timeout n \<and>
      unat (election_timeout n) < 2 * unat (cfg_election_timeout_ticks c)
    else node_new e c = None"
  using node_new_returns [OF assms] by (auto simp: returns_iff node_new_def Let_def)

theorem node_new_spec_witness:
  "\<exists>n. node_new demo_env \<lparr>cfg_id = 1, cfg_peers = [2, 3], cfg_election_timeout_ticks = 15,
     cfg_heartbeat_interval_ticks = 4, cfg_rng_seed = 7\<rparr> = Some n \<and> node_wf n"
proof -
  let ?c = "\<lparr>cfg_id = 1, cfg_peers = [2, 3], cfg_election_timeout_ticks = 15,
     cfg_heartbeat_interval_ticks = 4, cfg_rng_seed = 7\<rparr>"
  have "2 * unat (cfg_election_timeout_ticks ?c) \<le> 2 ^ 64" by simp
  from node_new_spec [OF demo_env_ok(2) this] show ?thesis by auto
qed

end
