(* ===== verification/CommitSpec.thy ===== *)
theory CommitSpec
  imports ReplicationSpec ElectionSpec
begin

text \<open>
  When entries commit and what reaches the state machine: the leader's commit rule, the follower's
  commit index, the entries applied, and what a client is told.
\<close>

section \<open>Commitment and the state machine\<close>

text \<open>C27: Applying hands the state machine exactly the entries after the last applied one up to the commit
  index, once and in the order of the log, and records the last of them.\<close>

theorem apply_is_exact:
  assumes wf: "node_wf n"
  shows "apply_committed_entries e n = Some
    (let es = unapplied n (commit_index n)
     in if es = [] then (n, []) else (n\<lparr>last_applied := e_index (last es)\<rparr>, [Apply es]))"
  using wf by (rule apply_result)

theorem apply_is_exact_witness:
  "apply_committed_entries demo_env (demo_follower\<lparr>commit_index := 3\<rparr>) =
     Some (demo_follower\<lparr>commit_index := 3, last_applied := 3\<rparr>, [Apply [demo_entry 3 2 []]])"
proof -
  have "node_wf (demo_follower\<lparr>commit_index := 3\<rparr>)"
    using demo_nodes_wf(1) by (simp add: node_wf_def demo_follower_def demo_log_def vec_base_def demo_entry_def)
  from apply_is_exact [OF this, of demo_env] show ?thesis
    by (simp add: unapplied_def demo_follower_def demo_log_def demo_entry_def word_less_nat_alt Let_def)
qed

section \<open>The commit rule\<close>

definition committable :: "'r raft_node \<Rightarrow> log_index \<Rightarrow> bool" where
  \<comment> \<open>an entry of the leader's own term that a majority is known to hold\<close>
  "committable n i \<longleftrightarrow> map_option e_term (lookup (log n) (unat i)) = Some (current_term n) \<and>
     majority n \<le> replica_count n i"

lemma commit_scan_last:
  assumes "log_wf (log n)"
  shows "commit_scan n is c = Some (if filter (committable n) is = [] then c else last (filter (committable n) is))"
proof (induction "is" arbitrary: c)
  case (Cons i "is")
  then show ?case
    using assms by (auto simp: committable_def [of n i])
qed simp

lemma range_incl_sorted: "sorted (range_incl a b)"
proof -
  have "(of_nat (unat a + i) :: u64) \<le> of_nat (unat a + j)" if "i \<le> j" "unat a + j < Suc (unat b)" for i j
    using that unat_u64_less [of b] by (simp only: word_le_nat_alt unat_of_nat) simp
  then show ?thesis by (auto simp: range_incl_def sorted_iff_nth_mono simp del: upt_Suc of_nat_add)
qed

lemma sorted_last: "sorted xs \<Longrightarrow> x \<in> set xs \<Longrightarrow> x \<le> last xs"
  by (induction xs) auto

text \<open>C6: The leader's commit index moves to the greatest index beyond it that holds an entry of the
  leader's own term and is acknowledged by a majority, itself included, and stays when there is none; an
  entry of an earlier term is never committed by counting replicas, only below one of the current term.\<close>

theorem commit_rule:
  assumes wf: "node_wf n" and room: "commit_index n \<noteq> -1"
  shows "returns (maybe_advance_commit_index e n) (\<lambda>(n', acts).
    (commit_index n' = commit_index n \<or> commit_index n < commit_index n' \<and> committable n (commit_index n')) \<and>
    (\<forall>i. commit_index n' < i \<longrightarrow> \<not> committable n i) \<and>
    acts = (if unapplied n (commit_index n') = [] \<or> commit_index n' = commit_index n then []
            else [Apply (unapplied n (commit_index n'))]))"
proof -
  let ?lst = "e_index (last (entries (log n)))"
  let ?ks = "filter (committable n) (range_incl (commit_index n + 1) ?lst)"
  define c where "c = (if ?ks = [] then commit_index n else last ?ks)"
  have le: "commit_index n + 1 \<le> k \<longleftrightarrow> commit_index n < k" for k
    using room unat_plus_no_wrap [of "commit_index n" 1]
    by (auto simp: not_max_iff word_less_nat_alt word_le_nat_alt)
  have ks: "i \<in> set ?ks \<longleftrightarrow> committable n i \<and> commit_index n < i" for i
  proof -
    have "i \<le> ?lst" if "committable n i"
      using that wf vec_wf_end [OF log_wf_vec [of "log n"]]
      by (auto simp: committable_def vec_lookup_def vec_end_def word_le_nat_alt split: if_splits)
    then show ?thesis by (auto simp: range_incl_mem le)
  qed
  have c: "c = commit_index n \<or> commit_index n < c \<and> committable n c"
    using ks [of "last ?ks"] last_in_set [of ?ks] unfolding c_def by (cases "?ks = []") (simp_all only: if_True if_False simp_thms)
  have top: "\<not> committable n i" if "c < i" for i
  proof
    assume i: "committable n i"
    from c that have "commit_index n < i" by auto
    with i ks have mem: "i \<in> set ?ks" by simp
    then have "c = last ?ks" unfolding c_def by (metis empty_iff empty_set)
    moreover have "sorted ?ks" using range_incl_sorted [of "commit_index n + 1" ?lst] by (simp add: sorted_wrt_filter)
    then have "i \<le> last ?ks" using mem by (rule sorted_last)
    ultimately show False using that by simp
  qed
  have scan: "add_u64 (debug e) (commit_index n) 1 = Some (commit_index n + 1)"
    "commit_scan n (range_incl (commit_index n + 1) ?lst) (commit_index n) = Some c"
    using plus_one_greater [OF room] wf by (auto simp: add_u64_def c_def commit_scan_last)
  show ?thesis
  proof (cases "commit_index n < c")
    case True
    have "node_wf (n\<lparr>commit_index := c\<rparr>)"
      using True wf by (auto simp: node_wf_def word_less_nat_alt word_le_nat_alt)
    from apply_result [OF this] True scan wf c top show ?thesis
      by (auto simp: maybe_advance_commit_index_def log_simps Let_def unapplied_def)
  next
    case False
    with scan wf c top show ?thesis by (auto simp: maybe_advance_commit_index_def log_simps)
  qed
qed

theorem commit_rule_witness:
  "\<exists>n'. maybe_advance_commit_index demo_env demo_leader = Some (n', [Apply [demo_entry 3 2 []]]) \<and> commit_index n' = 3"
proof -
  have k: "committable demo_leader 3" "commit_index demo_leader \<noteq> -1" "commit_index demo_leader = 2"
    by (simp_all add: committable_def demo_leader_def demo_follower_def demo_log_def vec_lookup_def vec_base_def
        demo_entry_def majority_def replica_count_def word_le_nat_alt sentinel_index_def)
  have above: "\<not> committable demo_leader i" if "3 < i" for i
    using that by (auto simp: committable_def demo_leader_def demo_follower_def demo_log_def vec_lookup_def
        vec_base_def demo_entry_def word_less_nat_alt)
  from commit_rule [OF demo_nodes_wf(2) k(2), of demo_env] obtain n' acts where
    n': "maybe_advance_commit_index demo_env demo_leader = Some (n', acts)"
    "\<forall>i. commit_index n' < i \<longrightarrow> \<not> committable demo_leader i"
    "commit_index n' = 2 \<or> committable demo_leader (commit_index n')"
    "acts = (if unapplied demo_leader (commit_index n') = [] \<or> commit_index n' = 2 then []
       else [Apply (unapplied demo_leader (commit_index n'))])" using k(3) by (auto simp: returns_iff)
  have "commit_index n' = 3"
  proof (cases rule: linorder_cases [of "commit_index n'" 3])
    case less
    with n'(2) k(1) show ?thesis by blast
  next
    case greater
    with above have "\<not> committable demo_leader (commit_index n')" by blast
    with n'(3) have "commit_index n' = 2" by blast
    with greater show ?thesis by simp
  qed
  moreover have "unapplied demo_leader 3 = [demo_entry 3 2 []]"
    by (simp add: unapplied_def demo_leader_def demo_follower_def demo_log_def demo_entry_def word_less_nat_alt word_le_nat_alt)
  ultimately show ?thesis using n'(1,4) by auto
qed

section \<open>Clients\<close>

definition own_entry :: "'r raft_node \<Rightarrow> bytes \<Rightarrow> log_entry" where
  \<comment> \<open>the next entry of a leader's log, in its own term\<close>
  "own_entry n cmd = \<lparr>e_index = e_index (last (entries (log n))) + 1, e_term = current_term n, e_command = cmd\<rparr>"

lemma reply_log [simp]: "reply (n\<lparr>log := l\<rparr>) = reply n"
  by (intro ext) (simp add: reply_def)

definition proposed :: "'r raft_node \<Rightarrow> bytes \<Rightarrow> 'r raft_node" where
  \<comment> \<open>the leader with the command appended, and nothing else changed\<close>
  "proposed n cmd = n\<lparr>log := log n\<lparr>entries := entries (log n) @ [own_entry n cmd]\<rparr>\<rparr>"

lemma propose_result:
  assumes wf: "node_wf n" and room: "headroom n" and lead: "role n = Leader" and "peers n \<noteq> []"
  shows "propose e cmd n = Some (proposed n cmd,
    AppendToLog [own_entry n cmd] # map (\<lambda>p. reply n p (update_for (proposed n cmd) p)) (peers n))"
proof -
  from propose_returns [OF wf room, of e cmd] obtain n' acts where run: "propose e cmd n = Some (n', acts)"
    by (auto simp: returns_iff)
  then show ?thesis
  proof (cases rule: proposeE)
    case refused
    with lead show ?thesis by simp
  next
    case (appended y n1 sends adv)
    have n1: "n1 = proposed n cmd" "y = own_entry n cmd"
      using appended(3,5) by (simp_all add: own_entry_def proposed_def)
    have lr: "log_room n" using room by (simp add: headroom_def)
    have "node_wf n1"
      using node_wf_append [OF wf append_one_returns(2) [OF wf lr, of "current_term n" cmd]] appended(3,5) by simp
    then have "log_wf (log n1)" by simp
    from broadcast_result [OF this, of "peers n"] appended(6)
    have "sends = map (\<lambda>p. reply n p (update_for n1 p)) (peers n)" by (simp add: n1(1) proposed_def)
    moreover have "n' = n1" "adv = []" using appended(7) assms(4) by simp_all
    ultimately show ?thesis using run appended(8) by (simp add: n1)
  qed
qed

text \<open>A client's command at the leader is appended after its last entry in the leader's term, written
  to disk, and sent to each peer together with what else the peer lacks; the answer, success with the
  leader's name, leaves in the same call: nothing but the log has changed, so success means accepted and
  not committed. Any other node changes nothing and answers with the leader it knows of.\<close>

theorem client_request_outcome:
  assumes wf: "node_wf n" and room: "headroom n" and "peers n \<noteq> []" and m: "msg_kind m = ClientRequest cmd"
  shows "step e m n = Some (if role n = Leader
    then (proposed n cmd, AppendToLog [own_entry n cmd] # map (\<lambda>p. reply n p (update_for (proposed n cmd) p)) (peers n)
        @ [reply n (msg_from m) (ClientResponse True (Some (node_id n)))])
    else (n, [reply n (msg_from m) (ClientResponse False (leader_id n))]))"
proof (cases "role n = Leader")
  case True
  from propose_result [OF wf room True assms(3), of e cmd] True m show ?thesis
    by (auto simp: step_def dispatch_def handle_client_request_def) (simp_all add: proposed_def)
next
  case False
  with m show ?thesis by (simp add: step_def dispatch_def handle_client_request_def)
qed

theorem client_request_outcome_witness:
  "step demo_env \<lparr>msg_from = 999, msg_to = 0, msg_term = 0, msg_kind = ClientRequest [1]\<rparr> demo_follower =
     Some (demo_follower, [reply demo_follower 999 (ClientResponse False (Some 1))]) \<and>
   (\<exists>n' acts. step demo_env \<lparr>msg_from = 999, msg_to = 0, msg_term = 0, msg_kind = ClientRequest [1]\<rparr> demo_leader =
     Some (n', acts) \<and> commit_index n' = 2)"
proof -
  let ?m = "\<lparr>msg_from = 999, msg_to = 0, msg_term = 0, msg_kind = ClientRequest [1]\<rparr>"
  have *: "peers demo_follower \<noteq> []" "peers demo_leader \<noteq> []" "msg_kind ?m = ClientRequest [1]"
    "role demo_follower \<noteq> Leader" "leader_id demo_follower = Some 1" "role demo_leader = Leader" "commit_index demo_leader = 2"
    by (simp_all add: demo_leader_def demo_follower_def)
  from client_request_outcome [OF demo_nodes_wf(1) demo_nodes_room(1) *(1,3), of demo_env]
    client_request_outcome [OF demo_nodes_wf(2) demo_nodes_room(2) *(2,3), of demo_env] *
  show ?thesis by (simp add: proposed_def)
qed

section \<open>Acknowledgements\<close>

definition credited :: "'r raft_node \<Rightarrow> node_id \<Rightarrow> 'r raft_node" where
  \<comment> \<open>the leader's record when it takes a peer to hold its whole log\<close>
  "credited n p = n\<lparr>next_index := (next_index n)(p \<mapsto> e_index (last (entries (log n))) + 1),
    match_index := (match_index n)(p \<mapsto> e_index (last (entries (log n))))\<rparr>"

text \<open>C21: A success answer of the leader's term is credited with the leader's whole log: whatever the
  message it answers contained, the leader records that the peer holds everything up to the leader's own
  last index, and then applies the commit rule to that record.\<close>

theorem success_credits_whole_log:
  assumes wf: "node_wf n" and room: "headroom n" and lead: "role n = Leader"
  shows "handle_append_entries_response e p (current_term n) True ct ci n = maybe_advance_commit_index e (credited n p) \<and>
    returns (maybe_advance_commit_index e (credited n p)) (\<lambda>(n', acts). match_index n' p = Some (e_index (last (entries (log n)))) \<and>
      log n' = log n \<and> commit_index n \<le> commit_index n')"
proof -
  have ne: "entries (log n) \<noteq> []" "e_index (last (entries (log n))) \<noteq> -1"
    using wf log_room_last [of n] room by simp_all
  have "node_wf (credited n p)" "commit_index (credited n p) \<noteq> -1" using wf room by (simp_all add: credited_def node_wf_def headroom_def)
  from advance_returns [OF this, of e] ne lead show ?thesis
    by (auto simp: handle_append_entries_response_def log_simps credited_def returns_iff)
qed

theorem success_credits_whole_log_witness:
  "\<exists>n' acts. handle_append_entries_response demo_env 1 2 True None None demo_leader = Some (n', acts) \<and>
     match_index n' 1 = Some 3"
proof -
  have *: "role demo_leader = Leader" "current_term demo_leader = 2" "e_index (last (entries (log demo_leader))) = 3"
    by (simp_all add: demo_leader_def demo_follower_def demo_log_def demo_entry_def)
  from success_credits_whole_log [OF demo_nodes_wf(2) demo_nodes_room(2) *(1), of demo_env 1 None None] *
  show ?thesis by (auto simp: returns_iff)
qed

end
