(* ===== verification/EventSpec.thy ===== *)
theory EventSpec
  imports Cluster CommitSpec
begin

text \<open>
  What every event of a node keeps, whichever message, timer or call it is: panic freedom, the order in
  which the hard state is written, the append-only log of a leader and the commit index.
\<close>

section \<open>No panic\<close>

definition deliverable :: "event \<Rightarrow> bool" where
  \<comment> \<open>the messages nodes send to each other below the 64-bit limit\<close>
  "deliverable ev \<longleftrightarrow> (\<forall>m. ev = Deliver m \<longrightarrow> kind_wf (msg_kind m) \<and> msg_term m \<noteq> -1)"



text \<open>The hypothesis on messages is needed: an entry at the base of the log makes a well-formed node panic.\<close>

lemma malformed_message_panics:
  "step demo_env \<lparr>msg_from = 1, msg_to = 2, msg_term = 2,
     msg_kind = AppendEntries 0 0 [demo_entry 0 5 []] 0\<rparr> demo_follower = None"
  by code_simp

section \<open>The hard state\<close>

lemma any_event_safe:
  assumes run: "run_event e ev n = Some (n', acts)"
    and low: "debug e \<or> current_term n \<noteq> -1 \<and> (\<forall>m. ev = Deliver m \<longrightarrow> msg_term m \<noteq> -1)"
    and mine: "\<forall>m. ev = Deliver m \<longrightarrow> msg_to m = node_id n \<or> is_client_msg (msg_kind m)"
    and votes: "role n = Leader \<longrightarrow> majority n \<le> card (votes_received n)"
  shows "persist_run UNIV (node_id n) (node_hs n) acts = Some (node_hs n')" and "vote_ok UNIV n'"
proof -
  have ok: "vote_ok UNIV n" using votes by (simp add: vote_ok_def)
  have "safe UNIV UNIV n (n', acts)"
  proof (cases ev)
    case Tick
    with run low show ?thesis by (intro tick_safe [OF _ ok]) auto
  next
    case (Deliver m)
    with run low mine show ?thesis by (intro step_safe [OF _ ok]) (auto simp: backed_def)
  next
    case (Propose cmd)
    with run show ?thesis by (intro propose_safe [OF _ ok]) simp
  next
    case (Compact i t dat)
    with run show ?thesis by (intro compact_logs_safe [OF _ ok]) simp
  qed
  then show "persist_run UNIV (node_id n) (node_hs n) acts = Some (node_hs n')" "vote_ok UNIV n'"
    by simp_all
qed

fun writes :: "action \<Rightarrow> bool" where
  \<comment> \<open>everything but a message\<close>
  "writes (Send _) \<longleftrightarrow> False"
| "writes _ \<longleftrightarrow> True"

fun speaks_for :: "'r raft_node \<Rightarrow> action \<Rightarrow> bool" where
  \<comment> \<open>messages that say no more than the node's hard state, and nothing that changes a disk\<close>
  "speaks_for n (Send m) \<longleftrightarrow> msg_from m = node_id n \<and>
     (case msg_kind m of
        PreVote _ _ \<Rightarrow> msg_term m = current_term n + 1
      | RequestVote _ _ \<Rightarrow> msg_term m = current_term n \<and> voted_for n = Some (node_id n)
      | RequestVoteResponse granted \<Rightarrow> msg_term m = current_term n \<and> (granted \<longrightarrow> voted_for n = Some (msg_to m))
      | _ \<Rightarrow> msg_term m = current_term n)"
| "speaks_for n (Apply _) \<longleftrightarrow> True"
| "speaks_for n _ \<longleftrightarrow> False"

definition writes_first :: "'r raft_node \<Rightarrow> action list \<Rightarrow> bool" where
  "writes_first n acts \<longleftrightarrow>
     (\<exists>ws ss. acts = ws @ ss \<and> (\<forall>a \<in> set ws. writes a) \<and> (\<forall>a \<in> set ss. speaks_for n a))"

lemma writes_firstI: "\<forall>a \<in> set ws. writes a \<Longrightarrow> \<forall>a \<in> set ss. speaks_for n a \<Longrightarrow> writes_first n (ws @ ss)"
  unfolding writes_first_def by blast

lemma writes_first_write: "\<forall>a \<in> set ws. writes a \<Longrightarrow> writes_first n ss \<Longrightarrow> writes_first n (ws @ ss)"
  unfolding writes_first_def by (metis UnE append_assoc set_append)

lemma writes_first_speak: "\<forall>a \<in> set ss. speaks_for n a \<Longrightarrow> writes_first n ss"
  using writes_firstI [of "[]" ss n] by simp

lemma speaks_for_same: "node_id n' = node_id n \<Longrightarrow> node_hs n' = node_hs n \<Longrightarrow> speaks_for n' = speaks_for n"
proof (rule ext)
  fix a assume "node_id n' = node_id n" "node_hs n' = node_hs n"
  then show "speaks_for n' a = speaks_for n a" by (cases a) (auto simp: node_hs_def split: message_kind.split)
qed

lemma replicate_speaks: "replicate_to_peer n p = Some a \<Longrightarrow> speaks_for n a"
  by (auto simp: replicate_to_peer_def reply_def Let_def bind_eq_Some_conv split: if_splits)

lemma broadcast_speaks: "those (map (replicate_to_peer n) ps) = Some acts \<Longrightarrow> \<forall>a \<in> set acts. speaks_for n a"
  by (induction ps arbitrary: acts) (auto split: option.splits dest: replicate_speaks)

lemma applies_speak: "\<forall>x \<in> set acts. \<exists>ap. x = Apply ap \<Longrightarrow> \<forall>a \<in> set acts. speaks_for n a"
  by auto

lemma applies_write: "\<forall>x \<in> set acts. \<exists>ap. x = Apply ap \<Longrightarrow> \<forall>a \<in> set acts. writes a"
  by auto

lemma advance_speaks: "maybe_advance_commit_index e n = Some (n', acts) \<Longrightarrow> \<forall>a \<in> set acts. speaks_for m a"
  by (erule advance_frame) (rule applies_speak)

lemma become_follower_writes: "become_follower e t l n = Some (n', acts) \<Longrightarrow> \<forall>a \<in> set acts. writes a"
  by (auto elim!: become_followerE)

lemma become_leader_writes_first: "become_leader e n = Some (n', acts) \<Longrightarrow> writes_first n' acts"
  using writes_firstI [of "[AppendToLog [x]]" _ n' for x] by (auto elim!: become_leaderE dest!: broadcast_speaks)

lemma start_real_election_writes_first:
  assumes "start_real_election e n = Some (n', acts)"
  shows "writes_first n' acts"
  using assms
proof (cases rule: start_real_electionE)
  case (campaign timeout r lli llt)
  then show ?thesis
    using writes_firstI [of "[PersistHardState (current_term n + 1) (Some (node_id n))]"
        "map (\<lambda>p. reply n' p (RequestVote lli llt)) (peers n)" n']
    by (auto simp: reply_def as_candidate_def)
next
  case (alone timeout r lead)
  from writes_first_write [OF _ become_leader_writes_first [OF alone(3)],
      of "[PersistHardState (current_term n + 1) (Some (node_id n))]"]
  show ?thesis by (simp add: alone(4))
qed

lemma start_pre_vote_writes_first:
  assumes "start_pre_vote e n = Some (n', acts)"
  shows "writes_first n' acts"
proof (cases "peers n = []")
  case True
  with assms show ?thesis by (auto elim!: start_pre_voteE intro: start_real_election_writes_first)
next
  case False
  from assms obtain t where t: "term_next (debug e) (current_term n) = Some t"
    "\<forall>a \<in> set acts. \<exists>m lli llt. a = Send m \<and> msg_from m = node_id n \<and> msg_term m = t \<and> msg_kind m = PreVote lli llt"
    using False by (fastforce simp: start_pre_vote_def Let_def bind_eq_Some_conv)
  have "node_id n' = node_id n" "current_term n' = current_term n"
    using assms False by (auto elim!: start_pre_voteE simp: as_pre_candidate_def)
  with t term_next_result [OF t(1)] show ?thesis by (intro writes_first_speak) fastforce
qed

lemma propose_writes_first:
  assumes "propose e cmd n = Some (n', acts)"
  shows "writes_first n' acts" and "node_id n' = node_id n" and "node_hs n' = node_hs n"
proof -
  have "writes_first n' acts \<and> node_id n' = node_id n \<and> node_hs n' = node_hs n"
    using assms
  proof (cases rule: proposeE)
    case refused
    then show ?thesis using writes_first_speak [of "[]"] by simp
  next
    case (appended x n1 sends adv)
    have adv: "node_id n' = node_id n1 \<and> node_hs n' = node_hs n1 \<and> (\<forall>a \<in> set adv. speaks_for n' a)"
    proof (cases "peers n = []")
      case True
      with appended(7) have run: "maybe_advance_commit_index e n1 = Some (n', adv)" by simp
      with advance_speaks [OF run, of n'] show ?thesis by (auto elim!: advance_frame simp: node_hs_def)
    next
      case False
      with appended(7) show ?thesis by auto
    qed
    with broadcast_speaks [OF appended(6)] speaks_for_same [of n' n1]
    have "\<forall>a \<in> set (sends @ adv). speaks_for n' a" by auto
    from writes_firstI [OF _ this, of "[AppendToLog [x]]"] adv show ?thesis
      by (simp add: appended(5,8) node_hs_def)
  qed
  then show "writes_first n' acts" "node_id n' = node_id n" "node_hs n' = node_hs n" by simp_all
qed

lemma writes_then_reply:
  "\<forall>a \<in> set ws. writes a \<Longrightarrow> speaks_for n' (reply m p k) \<Longrightarrow> writes_first n' (ws @ [reply m p k])"
  using writes_firstI [of ws "[reply m p k]" n'] by simp

lemma only_reply: "speaks_for n (reply n p k) \<Longrightarrow> writes_first n [reply n p k]"
  using writes_then_reply [of "[]"] by simp

lemma dispatch_writes_first:
  assumes "dispatch e m n = Some (n', acts)"
  shows "writes_first n' acts"
proof (cases "msg_kind m")
  case (ClientRequest cmd)
  show ?thesis
  proof (cases "role n = Leader")
    case True
    with assms ClientRequest obtain as where "propose e cmd n = Some (n', as)"
      and as: "acts = as @ [reply n' (msg_from m) (ClientResponse True (Some (node_id n')))]"
      by (auto simp: dispatch_def handle_client_request_def bind_eq_Some_conv)
    from propose_writes_first(1) [OF this(1)] obtain ws ss where
      "as = ws @ ss" "\<forall>a \<in> set ws. writes a" "\<forall>a \<in> set ss. speaks_for n' a" unfolding writes_first_def by blast
    with as writes_firstI [of ws "ss @ [reply n' (msg_from m) (ClientResponse True (Some (node_id n')))]" n']
    show ?thesis by (simp add: reply_def ball_Un)
  next
    case False
    with assms ClientRequest show ?thesis
      using only_reply [of n "msg_from m" "ClientResponse False (leader_id n)"]
      by (auto simp: dispatch_def handle_client_request_def) (simp add: reply_def)
  qed
next
  case (RequestVote lli llt)
  with assms have "handle_request_vote (msg_from m) lli llt n = Some (n', acts)" by (simp add: dispatch_def)
  then show ?thesis
  proof (cases rule: handle_request_voteE)
    case granted
    then show ?thesis
      using writes_then_reply [of "[PersistHardState (current_term n) (Some (msg_from m))]" n' n "msg_from m" "RequestVoteResponse True"]
      by (simp add: reply_def)
  next
    case refused
    then show ?thesis using only_reply [of n'] by (auto simp: reply_def)
  qed
next
  case (AppendEntries prev pt es lc)
  with assms have "handle_append_entries e (msg_from m) (msg_term m) prev pt es lc n = Some (n', acts)"
    by (simp add: dispatch_def)
  then show ?thesis
  proof (cases rule: handle_append_entriesE)
    case stale
    then show ?thesis using only_reply [of n'] by (auto simp: reply_def)
  next
    case (rejected ct ci acts1)
    then show ?thesis
      using writes_then_reply [OF become_follower_writes [OF rejected(2)], of n' n'] by (simp add: reply_def)
  next
    case (accepted n1 acts1 n2 acts2 acts3)
    have "\<forall>a \<in> set acts2. writes a" using accepted(4) by (cases rule: append_new_entriesE) simp_all
    moreover have "\<forall>a \<in> set acts3. writes a" using accepted(5) by (elim follow_commit_frame) (rule applies_write)
    ultimately have "\<forall>a \<in> set (acts1 @ acts2 @ acts3). writes a" using become_follower_writes [OF accepted(2)] by auto
    from writes_then_reply [OF this, of n' n'] show ?thesis by (simp add: accepted(6) reply_def)
  qed
next
  case (InstallSnapshot idx t off dat fin)
  with assms have "handle_install_snapshot e (msg_from m) (msg_term m) idx t dat fin n = Some (n', acts)"
    by (simp add: dispatch_def)
  then show ?thesis
  proof (cases rule: handle_install_snapshotE)
    case stale
    then show ?thesis using only_reply [of n'] by (auto simp: reply_def)
  next
    case (skipped acts1)
    then show ?thesis
      using writes_then_reply [OF become_follower_writes [OF skipped(2)], of n' n'] by (simp add: reply_def)
  next
    case (installed n1 acts1)
    have "\<forall>a \<in> set (acts1 @ [PersistSnapshot idx t dat]). writes a"
      using become_follower_writes [OF installed(2)] by auto
    from writes_then_reply [OF this, of n' n'] show ?thesis by (simp add: installed(5) reply_def)
  qed
next
  case (RequestVoteResponse g)
  then have "handle_request_vote_response e (msg_from m) (msg_term m) g n = Some (n', acts)"
    using assms by (simp add: dispatch_def)
  then show ?thesis
    by (cases rule: handle_request_vote_responseE)
      (auto intro: become_leader_writes_first writes_first_speak)
next
  case (PreVoteResponse g)
  then have "handle_pre_vote_response e (msg_from m) (msg_term m) g n = Some (n', acts)"
    using assms by (simp add: dispatch_def)
  then show ?thesis
    by (cases rule: handle_pre_vote_responseE)
      (auto intro: start_real_election_writes_first writes_first_speak)
next
  case (AppendEntriesResponse s ct ci)
  then have "handle_append_entries_response e (msg_from m) (msg_term m) s ct ci n = Some (n', acts)"
    using assms by (simp add: dispatch_def)
  then show ?thesis
    by (cases rule: handle_append_entries_responseE)
      (auto intro!: writes_first_speak simp: replicate_speaks dest: advance_speaks)
next
  case InstallSnapshotResponse
  then have "handle_install_snapshot_response e (msg_from m) (msg_term m) n = Some (n', acts)"
    using assms by (simp add: dispatch_def)
  then show ?thesis
    by (cases rule: handle_install_snapshot_responseE) (auto intro!: writes_first_speak dest: advance_speaks)
next
  case (PreVote lli llt)
  with assms obtain g where "n' = n" "acts = [reply n (msg_from m) (PreVoteResponse g)]"
    by (auto simp: dispatch_def elim!: handle_pre_voteE)
  moreover have "speaks_for n (reply n (msg_from m) (PreVoteResponse g))" by (simp add: reply_def)
  ultimately show ?thesis by (simp only: only_reply)
next
  case (ClientResponse ok hint)
  with assms writes_first_speak [of "[]" n'] show ?thesis by (simp add: dispatch_def)
qed

lemma event_writes_first:
  assumes "run_event e ev n = Some (n', acts)"
  shows "writes_first n' acts"
proof (cases ev)
  case Tick
  with assms have "tick e n = Some (n', acts)" by simp
  then show ?thesis
  proof (cases rule: tickE)
    case heartbeat
    show ?thesis by (rule writes_first_speak [OF broadcast_speaks [OF heartbeat(3)]])
  qed (auto intro: writes_first_speak start_pre_vote_writes_first)
next
  case (Deliver m)
  with assms have "step e m n = Some (n', acts)" by simp
  then show ?thesis
  proof (cases rule: stepE)
    case (newer n1 acts1 acts2)
    with writes_first_write [OF become_follower_writes [OF newer(4)] dispatch_writes_first [OF newer(5)]]
    show ?thesis by simp
  qed (auto intro: dispatch_writes_first writes_first_speak)
next
  case (Propose cmd)
  with assms propose_writes_first(1) show ?thesis by auto
next
  case (Compact i t dat)
  with assms have "compact_logs i t dat n = Some (n', acts)" by simp
  then show ?thesis
    using writes_firstI [of "[PersistSnapshot i t dat]" "[]" n'] writes_first_speak [of "[]" n']
    by (cases rule: compact_logsE) simp_all
qed

text \<open>C7: Term and vote are written before they are used. The actions of any event are disk writes and
  applications first, messages last. Replaying the writes against the hard state on disk, each moves it
  forward (a higher term, or a first vote in the same term), and before the first message leaves the disk
  holds exactly the term and the vote the node has in memory. Every message carries the node's name and
  that term, a pre-vote the next one; a vote is asked only with the own vote, and granted only with the
  vote for the receiver, on disk. A leader always counts the votes of a majority.\<close>

theorem event_persistence:
  assumes run: "run_event e ev n = Some (n', acts)"
    and low: "debug e \<or> current_term n \<noteq> -1 \<and> (\<forall>m. ev = Deliver m \<longrightarrow> msg_term m \<noteq> -1)"
    and mine: "\<forall>m. ev = Deliver m \<longrightarrow> msg_to m = node_id n \<or> is_client_msg (msg_kind m)"
    and votes: "role n = Leader \<longrightarrow> majority n \<le> card (votes_received n)"
  shows "(\<exists>ws ss. acts = ws @ ss \<and> (\<forall>a \<in> set ws. writes a) \<and> (\<forall>a \<in> set ss. speaks_for n' a) \<and>
      persist_run UNIV (node_id n) (node_hs n) ws = Some (node_hs n')) \<and>
    persist_run UNIV (node_id n) (node_hs n) acts = Some (node_hs n') \<and> node_hs n \<le> node_hs n' \<and>
    (role n' = Leader \<longrightarrow> majority n' \<le> card (votes_received n'))"
proof -
  from event_writes_first [OF run] obtain ws ss where
    acts: "acts = ws @ ss" "\<forall>a \<in> set ws. writes a" "\<forall>a \<in> set ss. speaks_for n' a" unfolding writes_first_def by blast
  have same: "persist_run C i h ss = Some h'' \<Longrightarrow> h'' = h" for C i h h''
    using acts(3) by (induction C i h ss rule: persist_run.induct) (auto split: if_splits)
  note run_ok = any_event_safe [OF assms]
  have "persist_run UNIV (node_id n) (node_hs n) ws = Some (node_hs n')"
    using run_ok(1) same unfolding acts(1) persist_run_append by (auto simp: bind_eq_Some_conv)
  with acts run_ok persist_run_mono [OF run_ok(1)] show ?thesis unfolding vote_ok_def by blast
qed

theorem event_persistence_witness:
  "\<exists>n' ws ss. run_event demo_env (Deliver \<lparr>msg_from = 3, msg_to = 2, msg_term = 3, msg_kind = RequestVote 3 2\<rparr>)
      demo_follower = Some (n', ws @ ss) \<and> ss \<noteq> [] \<and> (\<forall>a \<in> set ss. speaks_for n' a) \<and>
    persist_run UNIV 2 (HardState 2 None) ws = Some (HardState 3 (Some 3))"
proof -
  let ?ev = "Deliver \<lparr>msg_from = 3, msg_to = 2, msg_term = 3, msg_kind = RequestVote 3 2\<rparr>"
  have "case run_event demo_env ?ev demo_follower of None \<Rightarrow> False
      | Some (n', acts) \<Rightarrow> acts \<noteq> [] \<and> \<not> writes (last acts) \<and> node_hs n' = HardState 3 (Some 3)"
    by code_simp
  then obtain n' acts where run: "run_event demo_env ?ev demo_follower = Some (n', acts)"
    and acts: "acts \<noteq> []" "\<not> writes (last acts)" "node_hs n' = HardState 3 (Some 3)"
    by (auto split: option.splits)
  have *: "debug demo_env \<or> current_term demo_follower \<noteq> -1 \<and> (\<forall>m. ?ev = Deliver m \<longrightarrow> msg_term m \<noteq> -1)"
    "\<forall>m. ?ev = Deliver m \<longrightarrow> msg_to m = node_id demo_follower \<or> is_client_msg (msg_kind m)"
    "role demo_follower = Leader \<longrightarrow> majority demo_follower \<le> card (votes_received demo_follower)"
    "node_id demo_follower = 2" "node_hs demo_follower = HardState 2 None"
    by (simp_all add: demo_env_ok demo_follower_def node_hs_def)
  from event_persistence [OF run *(1,2,3)] obtain ws ss where
    ws: "acts = ws @ ss" "\<forall>a \<in> set ws. writes a" "\<forall>a \<in> set ss. speaks_for n' a"
      "persist_run UNIV 2 (HardState 2 None) ws = Some (HardState 3 (Some 3))" using acts(3) *(4,5) by auto
  moreover have "ss \<noteq> []" using ws(1,2) acts(1,2) by (cases ss rule: rev_cases) auto
  ultimately show ?thesis using run by blast
qed

section \<open>Logs and commit indices\<close>

definition grows :: "'r raft_node \<Rightarrow> 'r raft_node \<Rightarrow> bool" where
  \<comment> \<open>the commit index does not go back, and a leader's log is only extended\<close>
  "grows n n' \<longleftrightarrow> commit_index n \<le> commit_index n' \<and>
     (role n = Leader \<longrightarrow> role n' = Leader \<longrightarrow> (\<exists>ys. entries (log n') = entries (log n) @ ys)) \<and>
     (role n = Follower \<longrightarrow> role n' \<noteq> Leader)"

lemma advance_grows:
  "maybe_advance_commit_index e n = Some (n', acts) \<Longrightarrow> commit_index n0 = commit_index n \<Longrightarrow> role n0 = role n \<Longrightarrow>
    role n \<noteq> Follower \<Longrightarrow> entries (log n) = entries (log n0) @ ys \<Longrightarrow> grows n0 n'"
  by (erule advance_frame) (auto simp: grows_def)

lemma propose_grows:
  assumes "propose e cmd n = Some (n', acts)"
  shows "grows n n'"
  using assms
proof (cases rule: proposeE)
  case refused
  then show ?thesis by (simp add: grows_def)
next
  case (appended x n1 sends adv)
  show ?thesis
  proof (cases "peers n = []")
    case True
    with appended(7) have "maybe_advance_commit_index e n1 = Some (n', adv)" by simp
    then show ?thesis by (rule advance_grows [where ys = "[x]"]) (use appended in auto)
  next
    case False
    with appended show ?thesis by (auto simp: grows_def)
  qed
qed

lemma become_leader_grows:
  "become_leader e n = Some (n', acts) \<Longrightarrow> commit_index n' = commit_index n"
  by (erule become_leaderE) (simp add: as_leader_def)

lemma start_real_election_grows:
  "start_real_election e n = Some (n', acts) \<Longrightarrow> commit_index n' = commit_index n"
  by (erule start_real_electionE) (auto simp: as_candidate_def dest: become_leader_grows)

lemma start_pre_vote_grows:
  "start_pre_vote e n = Some (n', acts) \<Longrightarrow> commit_index n' = commit_index n"
  by (erule start_pre_voteE) (auto simp: as_pre_candidate_def dest: start_real_election_grows)

lemma become_follower_grows:
  "become_follower e t l n = Some (n', acts) \<Longrightarrow> commit_index n' = commit_index n \<and> role n' = Follower"
  by (erule become_followerE) simp

lemma append_new_grows:
  "append_new_entries e es n = Some (n', acts) \<Longrightarrow> commit_index n' = commit_index n \<and> role n' = role n"
  by (erule append_new_entriesE) auto

lemma handle_append_entries_grows:
  assumes "handle_append_entries e from t prev pt es lc n = Some (n', acts)"
  shows "grows n n'"
  using assms
proof (cases rule: handle_append_entriesE)
  case stale
  then show ?thesis by (simp add: grows_def)
next
  case (rejected ct ci acts1)
  with become_follower_grows [OF rejected(2)] show ?thesis by (simp add: grows_def)
next
  case (accepted n1 acts1 n2 acts2 acts3)
  from accepted(5) obtain a c where "n' = n2\<lparr>commit_index := c, last_applied := a\<rparr>" "commit_index n2 \<le> c"
    by (rule follow_commit_frame)
  with become_follower_grows [OF accepted(2)] append_new_grows [OF accepted(4)] show ?thesis
    by (simp add: grows_def)
qed

lemma dispatch_grows:
  assumes run: "dispatch e m n = Some (n', acts)"
  shows "grows n n'"
proof (cases "msg_kind m")
  case (ClientRequest cmd)
  with run show ?thesis
    by (auto simp: dispatch_def handle_client_request_def bind_eq_Some_conv grows_def split: if_splits
        dest!: propose_grows [unfolded grows_def])
next
  case (ClientResponse s h)
  with run show ?thesis by (simp add: dispatch_def grows_def)
next
  case (PreVote lli llt)
  with run show ?thesis by (auto simp: dispatch_def grows_def elim: handle_pre_voteE)
next
  case (PreVoteResponse g)
  with run have "handle_pre_vote_response e (msg_from m) (msg_term m) g n = Some (n', acts)"
    by (simp add: dispatch_def)
  then show ?thesis
    by (rule handle_pre_vote_responseE) (auto simp: grows_def dest: start_real_election_grows)
next
  case (RequestVote lli llt)
  with run show ?thesis by (auto simp: dispatch_def grows_def elim!: handle_request_voteE)
next
  case (RequestVoteResponse g)
  with run have "handle_request_vote_response e (msg_from m) (msg_term m) g n = Some (n', acts)"
    by (simp add: dispatch_def)
  then show ?thesis
    by (rule handle_request_vote_responseE) (auto simp: grows_def dest: become_leader_grows)
next
  case (AppendEntries prev pt es lc)
  with run handle_append_entries_grows show ?thesis by (auto simp: dispatch_def)
next
  case (AppendEntriesResponse s ct ci)
  with run have "handle_append_entries_response e (msg_from m) (msg_term m) s ct ci n = Some (n', acts)"
    by (simp add: dispatch_def)
  then show ?thesis
  proof (cases rule: handle_append_entries_responseE)
    case (success mi nxt)
    from success(5) show ?thesis by (rule advance_grows [where ys = "[]"]) (use success in auto)
  qed (auto simp: grows_def)
next
  case (InstallSnapshot idx t off dat don)
  with run have "handle_install_snapshot e (msg_from m) (msg_term m) idx t dat don n = Some (n', acts)"
    by (simp add: dispatch_def)
  then show ?thesis
    by (rule handle_install_snapshotE) (auto simp: grows_def dest: become_follower_grows)
next
  case InstallSnapshotResponse
  with run have "handle_install_snapshot_response e (msg_from m) (msg_term m) n = Some (n', acts)"
    by (simp add: dispatch_def)
  then show ?thesis
  proof (cases rule: handle_install_snapshot_responseE)
    case (counted mi nxt)
    from counted(3) show ?thesis by (rule advance_grows [where ys = "[]"]) (use counted in auto)
  qed (auto simp: grows_def)
qed

text \<open>C14: A leader never rewrites its log: whatever happens to it apart from a compaction, if it is leader
  afterwards its log is the old one with entries added at the end.\<close>

theorem leader_append_only:
  assumes run: "run_event e ev n = Some (n', acts)" and "role n = Leader" "role n' = Leader"
    and "\<And>i t dat. ev \<noteq> Compact i t dat"
  shows "\<exists>ys. entries (log n') = entries (log n) @ ys"
proof (cases ev)
  case Tick
  with run have "tick e n = Some (n', acts)" by simp
  then show ?thesis by (rule tickE) (use assms in auto)
next
  case (Deliver m)
  with run have "step e m n = Some (n', acts)" by simp
  then show ?thesis
  proof (cases rule: stepE)
    case (newer n1 acts1 acts2)
    from become_follower_grows [OF newer(4)] dispatch_grows [OF newer(5)] assms(3) show ?thesis
      by (simp add: grows_def)
  next
    case current
    from dispatch_grows [OF current(2)] assms(2,3) show ?thesis by (simp add: grows_def)
  qed simp
next
  case (Propose cmd)
  with run assms(2,3) propose_grows [of e cmd n n' acts] show ?thesis by (simp add: grows_def)
qed (use assms(4) in simp)

theorem leader_append_only_witness:
  "\<exists>n' acts ys. run_event demo_env (Propose [9]) demo_leader = Some (n', acts) \<and> role n' = Leader \<and>
     entries (log n') = entries (log demo_leader) @ ys"
proof -
  have "case run_event demo_env (Propose [9]) demo_leader of None \<Rightarrow> False | Some (n', acts) \<Rightarrow> role n' = Leader"
    by code_simp
  then obtain n' acts where run: "run_event demo_env (Propose [9]) demo_leader = Some (n', acts)" "role n' = Leader"
    by (auto split: option.splits)
  have "role demo_leader = Leader" by (simp add: demo_leader_def)
  from leader_append_only [OF run(1) this run(2)] run show ?thesis by auto
qed

text \<open>C28: The commit index of a node never goes back, whatever event it handles.\<close>

theorem commit_never_regresses:
  assumes run: "run_event e ev n = Some (n', acts)"
  shows "commit_index n \<le> commit_index n'"
proof (cases ev)
  case Tick
  with run have "tick e n = Some (n', acts)" by simp
  then show ?thesis by (rule tickE) (auto dest: start_pre_vote_grows)
next
  case (Deliver m)
  with run have "step e m n = Some (n', acts)" by simp
  then show ?thesis
  proof (cases rule: stepE)
    case (newer n1 acts1 acts2)
    from become_follower_grows [OF newer(4)] dispatch_grows [OF newer(5)] show ?thesis by (simp add: grows_def)
  next
    case current
    from dispatch_grows [OF current(2)] show ?thesis by (simp add: grows_def)
  qed simp
next
  case (Propose cmd)
  with run propose_grows [of e cmd n n' acts] show ?thesis by (simp add: grows_def)
next
  case (Compact i t dat)
  with run have "compact_logs i t dat n = Some (n', acts)" by simp
  then show ?thesis by (rule compact_logsE) simp_all
qed

theorem commit_never_regresses_witness:
  "\<exists>n' acts. run_event demo_env Tick demo_leader = Some (n', acts) \<and> 2 \<le> commit_index n'"
proof -
  have "run_event demo_env Tick demo_leader \<noteq> None" by code_simp
  then obtain n' acts where run: "run_event demo_env Tick demo_leader = Some (n', acts)" by auto
  have "commit_index demo_leader = 2" by (simp add: demo_leader_def demo_follower_def)
  with commit_never_regresses [OF run] run show ?thesis by auto
qed

end
