(* ===== verification/DiskMirror.thy ===== *)
theory DiskMirror
  imports Demo EventSpec
begin

text \<open>
  The disk of a simulated node mirrors the node: when the actions of an event have been performed, the
  entries on disk are the entries of the log and term and vote are those in memory, so that recovery
  after a crash gives back the log, the term and the vote. The one exception is the installation of a
  snapshot, after which the disk may keep entries that the node has dropped.
\<close>

section \<open>Disks and logs\<close>

fun disk_run :: "action list \<Rightarrow> stable_disk \<Rightarrow> stable_disk option" where
  \<comment> \<open>the disk operations of a list of actions\<close>
  "disk_run [] d = Some d"
| "disk_run (a # as) d = do { d' \<leftarrow> exec_disk a d; disk_run as d' }"

lemma disk_run_append: "disk_run (as @ bs) d = Option.bind (disk_run as d) (disk_run bs)"
  by (induction "as" arbitrary: d) (auto split: Option.bind_split)

lemma exec_all_disk_run: "exec_all (sim_platform e cfgs) acts d = disk_run acts d"
  by (induction acts arbitrary: d) (auto split: Option.bind_split)

definition base_kept :: "stable_disk \<Rightarrow> bool" where
  \<comment> \<open>the first entry on disk is the sentinel that recovery will rebuild from the snapshot\<close>
  "base_kept d \<longleftrightarrow> d_entries d \<noteq> [] \<and> hd (d_entries d) =
     (case d_snapshot d of None \<Rightarrow> sentinel_entry sentinel_index term_zero
      | Some (meta, _) \<Rightarrow> sentinel_entry (last_included_index meta) (last_included_term meta))"

definition mirrored :: "'r raft_node \<Rightarrow> stable_disk \<Rightarrow> bool" where
  "mirrored n d \<longleftrightarrow> d_entries d = entries (log n) \<and> disk_hs d = node_hs n \<and> base_kept d"

definition mirrors :: "action list \<Rightarrow> raft_log \<Rightarrow> raft_log \<Rightarrow> bool" where
  \<comment> \<open>performing the actions on a disk that holds the first log makes it hold the second\<close>
  "mirrors acts l l' \<longleftrightarrow> (\<forall>d. d_entries d = entries l \<longrightarrow> base_kept d \<longrightarrow>
     (\<exists>d'. disk_run acts d = Some d' \<and> d_entries d' = entries l' \<and> base_kept d'))"

lemma mirrors_append: "mirrors as l l1 \<Longrightarrow> mirrors bs l1 l2 \<Longrightarrow> mirrors (as @ bs) l l2"
  unfolding mirrors_def disk_run_append by fastforce

fun off_log :: "action \<Rightarrow> bool" where
  \<comment> \<open>actions that leave the entries on disk alone\<close>
  "off_log (AppendToLog _) \<longleftrightarrow> False"
| "off_log (TruncateAndAppend _ _) \<longleftrightarrow> False"
| "off_log (PersistSnapshot _ _ _) \<longleftrightarrow> False"
| "off_log _ \<longleftrightarrow> True"

lemma off_log_reply [simp]: "off_log (reply n p k)"
  by (simp add: reply_def)

lemma mirrors_off: "\<forall>a \<in> set as. off_log a \<Longrightarrow> mirrors as l l"
proof (induction "as")
  case (Cons a "as")
  have "mirrors [a] l l"
    using Cons.prems by (cases a) (auto simp: mirrors_def base_kept_def write_hard_state_def)
  from mirrors_append [OF this Cons.IH] Cons.prems show ?case by simp
qed (simp add: mirrors_def)

lemma mirrors_append_one:
  assumes wf: "log_wf l" and "e_index x = e_index (last (entries l)) + 1" and "e_index (last (entries l)) \<noteq> -1"
  shows "mirrors [AppendToLog [x]] l (l\<lparr>entries := entries l @ [x]\<rparr>)"
proof -
  have u: "unat (e_index x) = Suc (log_last l)"
    using assms unat_plus_no_wrap [of "e_index (last (entries l))" 1] by (simp add: not_max_iff vec_wf_end log_wf_vec)
  have "indexed_from (e_index x) [x]" using unat_u64_less [of "e_index x"] by (simp add: indexed_from_def)
  then have "disk_append_entries [x] d = Some (d\<lparr>d_entries := d_entries d @ [x]\<rparr>)" if "d_entries d = entries l" for d
    using that wf u by (intro disk_append_next) (auto simp: disk_wf_def log_wf_def)
  with wf show ?thesis by (auto simp: mirrors_def base_kept_def)
qed

lemma mirrors_truncate:
  assumes wf: "log_wf l" and lo: "e_index (hd (entries l)) < i" and hi: "unat i \<le> Suc (log_last l)" and es: "indexed_from i es"
  shows "mirrors [TruncateAndAppend i es] l (l\<lparr>entries := spec_truncate i es (entries l)\<rparr>)"
  unfolding mirrors_def
proof (intro allI impI)
  fix d assume d: "d_entries d = entries l" "base_kept d"
  have "disk_truncate_and_append i es d = Some (d\<lparr>d_entries := spec_truncate i es (d_entries d)\<rparr>)"
    by (rule disk_truncate_eq) (use wf lo hi es d in \<open>simp_all add: disk_wf_def log_wf_def\<close>)
  moreover have "hd (spec_truncate i es (entries l)) = hd (entries l)" "spec_truncate i es (entries l) \<noteq> []"
    using spec_truncate_hd [OF log_wf_vec [OF wf] lo] spec_truncate_wf [OF log_wf_vec [OF wf] lo hi es] by auto
  ultimately show "\<exists>d'. disk_run [TruncateAndAppend i es] d = Some d' \<and>
      d_entries d' = entries (l\<lparr>entries := spec_truncate i es (entries l)\<rparr>) \<and> base_kept d'"
    using d by (auto simp: base_kept_def)
qed

lemma mirrors_compact:
  assumes wf: "log_wf l" and lo: "e_index (hd (entries l)) \<le> i"
    and same: "i = e_index (hd (entries l)) \<Longrightarrow> t = e_term (hd (entries l))"
  shows "mirrors [PersistSnapshot i t dat] l (l\<lparr>entries := spec_compact i t (entries l)\<rparr>)"
  unfolding mirrors_def
proof (intro allI impI)
  fix d assume d: "d_entries d = entries l" "base_kept d"
  have "write_snapshot i t dat d = Some (d\<lparr>d_entries := spec_compact i t (d_entries d),
      d_snapshot := Some (\<lparr>last_included_index = i, last_included_term = t\<rparr>, dat)\<rparr>)"
    by (rule write_snapshot_eq) (use wf d in \<open>simp add: disk_wf_def log_wf_def\<close>)
  moreover have "hd (spec_compact i t (entries l)) = sentinel_entry i t"
  proof (cases "i = e_index (hd (entries l))")
    case True
    with d same have "hd (entries l) = sentinel_entry i t"
      by (auto simp: base_kept_def split: option.splits)
    with True show ?thesis by (simp add: spec_compact_def)
  next
    case False
    with lo show ?thesis by (simp add: spec_compact_def not_le)
  qed
  moreover have "spec_compact i t (entries l) \<noteq> []" using spec_compact_wf [OF log_wf_vec [OF wf]] by auto
  ultimately show "\<exists>d'. disk_run [PersistSnapshot i t dat] d = Some d' \<and>
      d_entries d' = entries (l\<lparr>entries := spec_compact i t (entries l)\<rparr>) \<and> base_kept d'"
    using d by (auto simp: base_kept_def)
qed

section \<open>Every event but a snapshot is mirrored\<close>

lemma broadcast_off_log: "those (map (replicate_to_peer n) ps) = Some acts \<Longrightarrow> \<forall>a \<in> set acts. off_log a"
  using broadcast_sends by fastforce

lemma advance_off_log:
  "maybe_advance_commit_index e n = Some (n', acts) \<Longrightarrow> log n' = log n \<and> (\<forall>a \<in> set acts. off_log a)"
  by (erule advance_frame) auto

lemma mirrors_off_after: "mirrors as l l' \<Longrightarrow> \<forall>a \<in> set bs. off_log a \<Longrightarrow> mirrors (as @ bs) l l'"
  using mirrors_append mirrors_off by blast

lemma become_leader_mirrors:
  assumes "become_leader e n = Some (n', acts)" and wf: "log_wf (log n)" and room: "log_room n"
  shows "mirrors acts (log n) (log n')"
  using assms(1)
proof (rule become_leaderE)
  fix noop sends
  assume *: "noop = \<lparr>e_index = e_index (last (entries (log n))) + 1, e_term = current_term n, e_command = []\<rparr>"
    "n' = as_leader n (e_index noop) noop" "acts = AppendToLog [noop] # sends"
    "those (map (replicate_to_peer n') (peers n)) = Some sends"
  have "mirrors [AppendToLog [noop]] (log n) (log n')"
    using mirrors_append_one [OF wf, of noop] log_room_last [OF room wf] *(1,2) by (simp add: as_leader_def)
  from mirrors_off_after [OF this broadcast_off_log [OF *(4)]] show ?thesis by (simp add: *(3))
qed

lemma start_real_election_mirrors:
  assumes "start_real_election e n = Some (n', acts)" and wf: "log_wf (log n)" and room: "log_room n"
  shows "mirrors acts (log n) (log n')"
  using assms(1)
proof (cases rule: start_real_electionE)
  case (campaign timeout r lli llt)
  have "log n' = log n" "\<forall>a \<in> set acts. off_log a" using campaign by (auto simp: as_candidate_def)
  then show ?thesis by (simp add: mirrors_off)
next
  case (alone timeout r lead)
  have "mirrors lead (log (as_candidate n timeout r)) (log n')"
    using wf room by (intro become_leader_mirrors [OF alone(3)]) (auto simp: as_candidate_def log_room_def)
  then have "mirrors ([PersistHardState (current_term n + 1) (Some (node_id n))] @ lead) (log n) (log n')"
    by (intro mirrors_append [OF mirrors_off]) (auto simp: as_candidate_def)
  with alone(4) show ?thesis by simp
qed

lemma start_pre_vote_mirrors:
  assumes "start_pre_vote e n = Some (n', acts)" and wf: "log_wf (log n)" and room: "log_room n"
  shows "mirrors acts (log n) (log n')"
  using assms(1)
proof (cases rule: start_pre_voteE)
  case (ask timeout r t lli llt)
  have "log n' = log n" "\<forall>a \<in> set acts. off_log a" using ask by (auto simp: as_pre_candidate_def)
  then show ?thesis by (simp add: mirrors_off)
next
  case (alone timeout r)
  have "mirrors acts (log (as_pre_candidate n timeout r)) (log n')"
    using wf room by (intro start_real_election_mirrors [OF alone(2)]) (auto simp: as_pre_candidate_def log_room_def)
  then show ?thesis by (simp add: as_pre_candidate_def)
qed

lemma propose_mirrors:
  assumes "propose e cmd n = Some (n', acts)" and wf: "log_wf (log n)" and room: "log_room n"
  shows "mirrors acts (log n) (log n')"
  using assms(1)
proof (cases rule: proposeE)
  case (appended x n1 sends adv)
  have "mirrors [AppendToLog [x]] (log n) (log n1)"
    using mirrors_append_one [OF wf, of x] log_room_last [OF room wf] appended(3,5) by simp
  then have "mirrors ([AppendToLog [x]] @ sends) (log n) (log n1)"
    using broadcast_off_log [OF appended(6)] by (rule mirrors_off_after)
  moreover have "log n' = log n1 \<and> (\<forall>a \<in> set adv. off_log a)"
    using appended(7) advance_off_log by (cases "peers n = []") auto
  ultimately show ?thesis
    using mirrors_off_after [of "[AppendToLog [x]] @ sends" "log n" "log n1" adv] appended(8) by simp
qed (simp add: mirrors_off)

lemma handle_append_entries_mirrors:
  assumes run: "handle_append_entries e from t prev pt es lc n = Some (n', acts)"
    and rng: "rng_ok e" and wf: "node_wf n" and msg: "kind_wf (AppendEntries prev pt es lc)"
  shows "mirrors acts (log n) (log n')"
  using run
proof (cases rule: handle_append_entriesE)
  case stale
  then show ?thesis by (simp add: mirrors_off)
next
  case (rejected ct ci acts1)
  from rejected(2) have "log n' = log n" "\<forall>a \<in> set acts1. off_log a" by (auto elim!: become_followerE)
  with rejected(3) show ?thesis by (auto intro!: mirrors_off)
next
  case (accepted n1 acts1 n2 acts2 acts3)
  from accepted(2) have n1: "log n1 = log n" "\<forall>a \<in> set acts1. off_log a" by (auto elim!: become_followerE)
  define b where "b = prev + 1"
  have es: "indexed_from b es" "unat b + length es < 2 ^ 64" "unat b = unat prev + 1"
    using msg unat_plus_no_wrap [of prev 1] by (auto simp: b_def not_max_iff)
  have wf1: "log_wf (log n1)" using wf n1 by simp
  have "map_option e_term (lookup (log n1) (unat prev)) = Some pt" using accepted(3) wf1 by (simp add: term_at_lookup)
  then have lo: "e_index (hd (entries (log n1))) < b" and hi: "unat b \<le> Suc (log_last (log n1))"
    using es(3) by (auto simp: vec_lookup_def vec_base_def vec_end_def word_less_nat_alt split: if_splits)
  let ?k = "matched (log n1) es"
  note eq = append_new_entries_eq [OF wf1 es(1,2) lo, of e]
  have "mirrors acts2 (log n1) (log n2)"
  proof (cases "?k < length es")
    case True
    have u: "unat (b + of_nat ?k) = unat b + ?k" using es(2) True by (intro unat_plus_no_wrap) simp
    have "mirrors [TruncateAndAppend (b + of_nat ?k) (drop ?k es)] (log n1)
      ((log n1)\<lparr>entries := spec_truncate (b + of_nat ?k) (drop ?k es) (entries (log n1))\<rparr>)"
      by (rule mirrors_truncate [OF wf1])
        (use lo u matched_le_end [OF wf1 es(1,2) hi] indexed_from_drop [OF es(1), of ?k] True in
          \<open>simp_all add: word_less_nat_alt\<close>)
    moreover have "log n2 = (log n1)\<lparr>entries := spec_truncate (b + of_nat ?k) (drop ?k es) (entries (log n1))\<rparr>"
      "acts2 = [TruncateAndAppend (b + of_nat ?k) (drop ?k es)]"
      using accepted(4) eq True by (auto simp: merged_def)
    ultimately show ?thesis by simp
  next
    case False
    with accepted(4) eq have "n2 = n1" "acts2 = []" by (simp_all add: merged_def)
    then show ?thesis by (simp add: mirrors_off)
  qed
  moreover have "log n' = log n2" "\<forall>a \<in> set acts3. off_log a"
    using accepted(5) by (auto elim!: follow_commit_frame)
  ultimately have "mirrors (acts2 @ acts3 @ [reply n' from (AppendEntriesResponse True None None)]) (log n) (log n')"
    using mirrors_off_after [of acts2 "log n1" "log n2" "acts3 @ [reply n' from (AppendEntriesResponse True None None)]"] n1(1)
    by auto
  from mirrors_append [OF mirrors_off [OF n1(2)] this] accepted(6) show ?thesis by simp
qed

lemma dispatch_mirrors:
  assumes run: "dispatch e m n = Some (n', acts)" and rng: "rng_ok e" and wf: "node_wf n" and room: "headroom n"
    and msg: "kind_wf (msg_kind m)" and no_snap: "\<And>i t off dat don. msg_kind m \<noteq> InstallSnapshot i t off dat don"
  shows "mirrors acts (log n) (log n')"
proof -
  have l: "log_wf (log n)" "log_room n" using wf room by simp_all
  show ?thesis
  proof (cases "msg_kind m")
    case (ClientRequest cmd)
    show ?thesis
    proof (cases "role n = Leader")
      case True
      with run ClientRequest obtain as where "propose e cmd n = Some (n', as)"
        "acts = as @ [reply n' (msg_from m) (ClientResponse True (Some (node_id n')))]"
        by (auto simp: dispatch_def handle_client_request_def bind_eq_Some_conv)
      with propose_mirrors [OF _ l] show ?thesis by (auto intro: mirrors_off_after)
    next
      case False
      with run ClientRequest have "n' = n" "\<forall>a \<in> set acts. off_log a"
        by (auto simp: dispatch_def handle_client_request_def)
      then show ?thesis by (simp add: mirrors_off)
    qed
  next
    case (PreVoteResponse g)
    with run have "handle_pre_vote_response e (msg_from m) (msg_term m) g n = Some (n', acts)"
      by (simp add: dispatch_def)
    then show ?thesis
    proof (cases rule: handle_pre_vote_responseE)
      case elected
      have "mirrors acts (log (n\<lparr>pre_votes_received := insert (msg_from m) (pre_votes_received n)\<rparr>)) (log n')"
        using l by (intro start_real_election_mirrors [OF elected(5)]) (auto simp: log_room_def)
      then show ?thesis by simp
    qed (auto intro!: mirrors_off)
  next
    case (RequestVoteResponse g)
    with run have "handle_request_vote_response e (msg_from m) (msg_term m) g n = Some (n', acts)"
      by (simp add: dispatch_def)
    then show ?thesis
    proof (cases rule: handle_request_vote_responseE)
      case won
      have "mirrors acts (log (n\<lparr>votes_received := insert (msg_from m) (votes_received n)\<rparr>)) (log n')"
        using l by (intro become_leader_mirrors [OF won(5)]) (auto simp: log_room_def)
      then show ?thesis by simp
    qed (auto intro!: mirrors_off)
  next
    case (AppendEntries prev pt es lc)
    with run msg handle_append_entries_mirrors [OF _ rng wf] show ?thesis by (simp add: dispatch_def)
  next
    case (AppendEntriesResponse s ct ci)
    with run have "handle_append_entries_response e (msg_from m) (msg_term m) s ct ci n = Some (n', acts)"
      by (simp add: dispatch_def)
    then have "log n' = log n \<and> (\<forall>a \<in> set acts. off_log a)"
    proof (cases rule: handle_append_entries_responseE)
      case (success mi nxt)
      from advance_off_log [OF success(5)] show ?thesis by simp
    next
      case (retry nxt a)
      with replicate_sends [OF retry(5)] show ?thesis by auto
    qed auto
    then show ?thesis by (simp add: mirrors_off)
  next
    case InstallSnapshotResponse
    with run have "handle_install_snapshot_response e (msg_from m) (msg_term m) n = Some (n', acts)"
      by (simp add: dispatch_def)
    then have "log n' = log n \<and> (\<forall>a \<in> set acts. off_log a)"
    proof (cases rule: handle_install_snapshot_responseE)
      case (counted mi nxt)
      from advance_off_log [OF counted(3)] show ?thesis by simp
    qed auto
    then show ?thesis by (simp add: mirrors_off)
  next
    case (PreVote lli llt)
    with run show ?thesis by (auto simp: dispatch_def elim!: handle_pre_voteE intro!: mirrors_off)
  next
    case (RequestVote lli llt)
    with run show ?thesis by (auto simp: dispatch_def elim!: handle_request_voteE intro!: mirrors_off)
  qed (use run no_snap in \<open>auto simp: dispatch_def intro!: mirrors_off\<close>)
qed


lemma become_follower_room:
  assumes bf: "become_follower e t l n = Some (n1, acts1)" and t: "t \<noteq> -1"
    and rng: "rng_ok e" and wf: "node_wf n" and room: "headroom n"
  shows "node_wf n1 \<and> headroom n1 \<and> log n1 = log n \<and> (\<forall>a \<in> set acts1. off_log a)"
proof -
  have "node_wf n1" "log n1 = log n" "current_term n1 = t" "election_elapsed n1 = 0"
    "commit_index n1 = commit_index n" "heartbeat_elapsed n1 = heartbeat_elapsed n"
    using become_follower_returns [OF rng wf, of t l] bf by (auto simp: returns_iff)
  moreover have "\<forall>a \<in> set acts1. off_log a" using bf by (auto elim!: become_followerE)
  ultimately show ?thesis using room t by (simp add: headroom_def log_room_def)
qed

fun keeps_base :: "raft_log \<Rightarrow> event \<Rightarrow> bool" where
  \<comment> \<open>no snapshot is installed, and a compaction is not below the base of the log\<close>
  "keeps_base l (Deliver m) \<longleftrightarrow> (\<forall>i t off dat don. msg_kind m \<noteq> InstallSnapshot i t off dat don)"
| "keeps_base l (Compact i t dat) \<longleftrightarrow> e_index (hd (entries l)) \<le> i \<and>
     (i = e_index (hd (entries l)) \<longrightarrow> t = e_term (hd (entries l)))"
| "keeps_base l _ \<longleftrightarrow> True"

lemma event_mirrors:
  assumes run: "run_event e ev n = Some (n', acts)"
    and rng: "rng_ok e" and wf: "node_wf n" and room: "headroom n" and ev: "deliverable ev"
    and base: "keeps_base (log n) ev"
  shows "mirrors acts (log n) (log n')"
proof -
  have l: "log_wf (log n)" "log_room n" using wf room by simp_all
  show ?thesis
  proof (cases ev)
    case Tick
    with run have "tick e n = Some (n', acts)" by simp
    then show ?thesis
    proof (cases rule: tickE)
      case heartbeat
      then show ?thesis by (simp add: mirrors_off broadcast_off_log)
    next
      case timeout
      have "mirrors acts (log (n\<lparr>election_elapsed := 0\<rparr>)) (log n')"
        using l by (intro start_pre_vote_mirrors [OF timeout(2)]) (auto simp: log_room_def)
      then show ?thesis by simp
    qed (simp add: mirrors_off)
  next
    case (Deliver m)
    with run ev base have *: "step e m n = Some (n', acts)" "kind_wf (msg_kind m)" "msg_term m \<noteq> -1"
      "\<And>i t off dat don. msg_kind m \<noteq> InstallSnapshot i t off dat don" by (auto simp: deliverable_def)
    from *(1) show ?thesis
    proof (cases rule: stepE)
      case (newer n1 acts1 acts2)
      note n1 = become_follower_room [OF newer(4) *(3) rng wf room]
      have "mirrors acts2 (log n1) (log n')"
        by (rule dispatch_mirrors [OF newer(5) rng _ _ *(2,4)]) (use n1 in simp_all)
      with mirrors_append [OF mirrors_off] n1 newer(6) show ?thesis by metis
    next
      case current
      from dispatch_mirrors [OF current(2) rng wf room *(2,4)] show ?thesis .
    qed (simp add: mirrors_off)
  next
    case (Propose cmd)
    with run propose_mirrors [OF _ l] show ?thesis by simp
  next
    case (Compact i t dat)
    with run have "compact_logs i t dat n = Some (n', acts)" by simp
    then show ?thesis
    proof (cases rule: compact_logsE)
      case (compacted l')
      with compact_eq [OF l(1), of i t] mirrors_compact [OF l(1), of i t dat] base Compact show ?thesis by auto
    qed (simp add: mirrors_off)
  qed
qed

lemma disk_run_hs:
  "disk_run acts d = Some d' \<Longrightarrow> persist_run C i (disk_hs d) acts = Some h \<Longrightarrow> disk_hs d' = h"
proof (induction acts arbitrary: d)
  case (Cons a acts)
  from Cons.prems(1) obtain d1 where d1: "exec_disk a d = Some d1" "disk_run acts d1 = Some d'"
    by (auto simp: bind_eq_Some_conv)
  note hs = exec_disk_hs [OF d1(1)]
  have "persist_run C i (disk_hs d1) acts = Some h"
  proof (cases a)
    case (PersistHardState t v)
    then show ?thesis using Cons.prems(2) hs by (simp split: if_splits)
  next
    case (Send m)
    then show ?thesis using Cons.prems(2) hs by (simp split: if_splits)
  qed (use Cons.prems(2) hs in simp_all)
  with Cons.IH d1(2) show ?case by simp
qed simp

text \<open>C10: Performing the actions of an event on the disk of a node never panics and leaves on disk what the
  node has in memory: the entries of the log, the term and the vote. This holds of every timer, every
  proposal, every well-formed message that does not install a snapshot, and every compaction from the
  base of the log on.\<close>

theorem event_mirrored:
  assumes run: "run_event e ev n = Some (n', acts)"
    and rng: "rng_ok e" and wf: "node_wf n" and room: "headroom n" and ev: "deliverable ev"
    and mine: "\<forall>m. ev = Deliver m \<longrightarrow> msg_to m = node_id n \<or> is_client_msg (msg_kind m)"
    and votes: "role n = Leader \<longrightarrow> majority n \<le> card (votes_received n)"
    and base: "keeps_base (log n) ev" and disk: "mirrored n d"
  shows "\<exists>d'. disk_run acts d = Some d' \<and> mirrored n' d'"
proof -
  from event_mirrors [OF run rng wf room ev base] disk obtain d' where
    d': "disk_run acts d = Some d'" "d_entries d' = entries (log n')" "base_kept d'"
    by (auto simp: mirrors_def mirrored_def)
  have "persist_run UNIV (node_id n) (disk_hs d) acts = Some (node_hs n')"
    using any_event_safe(1) [OF run _ mine votes] room ev disk by (simp add: mirrored_def headroom_def deliverable_def)
  from disk_run_hs [OF d'(1) this] d' show ?thesis by (auto simp: mirrored_def)
qed


definition demo_disk :: stable_disk where
  "demo_disk = \<lparr>d_node_id = 2, d_term = 2, d_vote = None, d_entries = entries demo_log, d_snapshot = None\<rparr>"

lemma demo_disk_mirrors: "mirrored demo_follower demo_disk"
  by (simp add: mirrored_def demo_disk_def demo_follower_def base_kept_def disk_hs_def node_hs_def demo_log_def
      demo_entry_def sentinel_entry_def sentinel_index_def term_zero_def)

theorem event_mirrored_witness:
  "\<exists>n' acts d'. run_event demo_env (Deliver \<lparr>msg_from = 3, msg_to = 2, msg_term = 3,
       msg_kind = AppendEntries 2 1 [demo_entry 3 3 [4]] 2\<rparr>) demo_follower = Some (n', acts) \<and>
     disk_run acts demo_disk = Some d' \<and> mirrored n' d' \<and> d_entries d' \<noteq> d_entries demo_disk"
proof -
  let ?ev = "Deliver \<lparr>msg_from = 3, msg_to = 2, msg_term = 3, msg_kind = AppendEntries 2 1 [demo_entry 3 3 [4]] 2\<rparr>"
  have "case run_event demo_env ?ev demo_follower of None \<Rightarrow> False
      | Some (n', acts) \<Rightarrow> entries (log n') \<noteq> entries demo_log" by code_simp
  then obtain n' acts where run: "run_event demo_env ?ev demo_follower = Some (n', acts)"
    and new: "entries (log n') \<noteq> entries demo_log" by (auto split: option.splits)
  have ev: "deliverable ?ev" by (simp add: deliverable_def indexed_from_Cons demo_entry_def)
  have *: "\<forall>m. ?ev = Deliver m \<longrightarrow> msg_to m = node_id demo_follower \<or> is_client_msg (msg_kind m)"
    "role demo_follower = Leader \<longrightarrow> majority demo_follower \<le> card (votes_received demo_follower)"
    "keeps_base (log demo_follower) ?ev"
    by (simp_all add: demo_follower_def)
  from event_mirrored [OF run demo_env_ok(2) demo_nodes_wf(1) demo_nodes_room(1) ev * demo_disk_mirrors]
  show ?thesis using run new by (auto simp: mirrored_def demo_disk_def)
qed

section \<open>Recovery\<close>

lemma log_restore_tl:
  "entries l \<noteq> [] \<Longrightarrow> hd (entries l) = sentinel_entry (last_included_index m) (last_included_term m) \<Longrightarrow>
    log_restore m (tl (entries l)) = l"
  by (cases l; cases "entries l") (auto simp: log_restore_def sentinel_entry_def)

text \<open>C11: Recovery is exact: booting from a disk that mirrors a node gives back its whole log, its term and
  its vote, in a well-formed follower whose commit index is the base of the log. With the mirroring of
  every event, a crash loses nothing but the commit index and the role.\<close>

theorem recovery_exact:
  assumes rng: "rng_ok (core e)" and cfg: "find (\<lambda>c. cfg_id c = i) cfgs = Some c"
    and et: "cfg_heartbeat_interval_ticks c < cfg_election_timeout_ticks c"
      "2 * unat (cfg_election_timeout_ticks c) \<le> 2 ^ 64"
    and wf: "node_wf n" and disk: "mirrored n d"
  shows "\<exists>n'. boot_node e cfgs i d = Some n' \<and> node_wf n' \<and> log n' = log n \<and> node_hs n' = node_hs n \<and>
    role n' = Follower \<and> commit_index n' = e_index (hd (entries (log n))) \<and> last_applied n' = commit_index n'"
proof -
  let ?b = "e_index (hd (entries (log n)))"
  from disk have es: "vec_from (d_entries d) 1 = Some (tl (entries (log n)))"
    by (auto simp: vec_from_def mirrored_def base_kept_def drop_Suc Suc_le_eq)
  have snap: "(case d_snapshot d of Some (meta, _) \<Rightarrow> log_restore meta (tl (entries (log n)))
      | None \<Rightarrow> log_restore \<lparr>last_included_index = sentinel_index, last_included_term = term_zero\<rparr> (tl (entries (log n)))) = log n"
    "(case d_snapshot d of Some (meta, _) \<Rightarrow> last_included_index meta | None \<Rightarrow> sentinel_index) = ?b"
    using disk log_restore_tl [of "log n"]
    by (auto simp: mirrored_def base_kept_def split: option.splits)
  from node_new_returns [OF rng et(2,1)] obtain n0 where
    n0: "node_new (core e) c = Some n0" "node_wf n0" "role n0 = Follower" by (auto simp: returns_iff)
  let ?n = "n0\<lparr>current_term := d_term d, voted_for := d_vote d, log := log n, commit_index := ?b, last_applied := ?b\<rparr>"
  have "boot_node e cfgs i d = Some ?n"
    using cfg es n0 snap by (simp add: boot_node_def node_restore_def Let_def)
  moreover have "node_wf ?n" using n0(2) wf by (auto simp: node_wf_def vec_base_def)
  moreover have "node_hs ?n = node_hs n" using disk by (simp add: mirrored_def node_hs_def disk_hs_def)
  ultimately show ?thesis using n0(3) by simp
qed

theorem recovery_exact_witness:
  "\<exists>n'. boot_node demo_sim
     [\<lparr>cfg_id = 2, cfg_peers = [1, 3], cfg_election_timeout_ticks = 15, cfg_heartbeat_interval_ticks = 4,
       cfg_rng_seed = 7\<rparr>] 2 demo_disk = Some n' \<and> log n' = demo_log"
proof -
  let ?c = "\<lparr>cfg_id = 2, cfg_peers = [1, 3], cfg_election_timeout_ticks = 15, cfg_heartbeat_interval_ticks = 4,
    cfg_rng_seed = 7\<rparr> :: config"
  have "find (\<lambda>c. cfg_id c = 2) [?c] = Some ?c" "cfg_heartbeat_interval_ticks ?c < cfg_election_timeout_ticks ?c"
    "2 * unat (cfg_election_timeout_ticks ?c) \<le> 2 ^ 64" by simp_all
  from recovery_exact [OF demo_sim_ok(5) this demo_nodes_wf(1) demo_disk_mirrors] show ?thesis
    by (auto simp: demo_follower_def)
qed

section \<open>Compaction below the base\<close>

text \<open>C40: A compaction below the base of the log changes nothing in memory but overwrites the snapshot on
  disk. The disk no longer mirrors the node, and a restart puts the entries behind the older position:
  every entry of the log comes back at a wrong place, so that the recovered log is not well formed.\<close>

theorem stale_compaction_breaks_recovery:
  assumes run: "run_event (core e) (Compact i t dat) n = Some (n', acts)" and old: "i < e_index (hd (entries (log n)))"
    and rng: "rng_ok (core e)" and cfg: "find (\<lambda>c. cfg_id c = j) cfgs = Some c"
    and et: "cfg_heartbeat_interval_ticks c < cfg_election_timeout_ticks c"
      "2 * unat (cfg_election_timeout_ticks c) \<le> 2 ^ 64"
    and wf: "node_wf n" and disk: "mirrored n d"
  shows "n' = n \<and> (\<exists>d' n''. disk_run acts d = Some d' \<and> \<not> mirrored n' d' \<and> boot_node e cfgs j d' = Some n'' \<and>
    entries (log n'') = sentinel_entry i t # tl (entries (log n)) \<and> commit_index n'' = i \<and>
    (tl (entries (log n)) \<noteq> [] \<longrightarrow> \<not> log_wf (log n'')))"
proof -
  let ?es = "entries (log n)" and ?m = "\<lparr>last_included_index = i, last_included_term = t\<rparr>"
  have lwf: "log_wf (log n)" using wf by simp
  have ne: "?es \<noteq> []" using lwf by simp
  have "unat i < unat (commit_index n)" using wf old by (simp add: node_wf_def vec_base_def word_less_nat_alt)
  then have "\<not> commit_index n < i" by (simp add: word_less_nat_alt)
  moreover have "log_compact i t (log n) = Some (log n)" using ne less_imp_le [OF old] by (simp add: log_compact_def log_simps)
  ultimately have n': "n' = n" "acts = [PersistSnapshot i t dat]" using run by (auto simp: compact_logs_def)
  have d: "d_entries d = ?es" using disk by (simp add: mirrored_def)
  let ?d = "d\<lparr>d_snapshot := Some (?m, dat)\<rparr>"
  have "write_snapshot i t dat d = Some ?d"
    using ne old d by (cases ?es) (simp_all add: write_snapshot_def Let_def)
  then have run_d: "disk_run acts d = Some ?d" by (simp add: n'(2))
  have "hd ?es \<noteq> sentinel_entry i t" using old by (auto simp: sentinel_entry_def)
  then have "\<not> mirrored n ?d" by (simp add: mirrored_def base_kept_def d)
  from node_new_returns [OF rng et(2,1)] obtain n0 where n0: "node_new (core e) c = Some n0" by (auto simp: returns_iff)
  let ?n = "n0\<lparr>current_term := d_term d, voted_for := d_vote d, log := log_restore ?m (tl ?es), commit_index := i, last_applied := i\<rparr>"
  have "vec_from (d_entries ?d) 1 = Some (tl ?es)" using ne by (simp add: d vec_from_def drop_Suc Suc_le_eq)
  with cfg n0 have boot: "boot_node e cfgs j ?d = Some ?n" by (simp add: boot_node_def node_restore_def Let_def)
  have es: "entries (log ?n) = sentinel_entry i t # tl ?es" by (simp add: log_restore_def)
  have "\<not> log_wf (log ?n)" if "tl ?es \<noteq> []"
  proof
    assume "log_wf (log ?n)"
    from vec_wf_unat [OF log_wf_vec [OF this], of 1] vec_wf_unat [OF log_wf_vec [OF lwf], of 1]
    have "unat (e_index (tl ?es ! 0)) = unat i + 1" "unat (e_index (?es ! 1)) = unat (e_index (hd ?es)) + 1"
      using that es by (cases ?es; simp add: vec_base_def sentinel_entry_def)+
    moreover have "tl ?es ! 0 = ?es ! 1" using that by (cases ?es) simp_all
    ultimately show False using old by (simp add: word_less_nat_alt)
  qed
  with n' run_d \<open>\<not> mirrored n ?d\<close> boot es show ?thesis by (intro conjI exI [of _ ?d] exI [of _ ?n]) auto
qed

definition demo_compacted :: "u64 raft_node" where
  \<comment> \<open>the follower after a compaction up to its commit index\<close>
  "demo_compacted = demo_follower\<lparr>log := \<lparr>entries = [demo_entry 2 1 [], demo_entry 3 2 []]\<rparr>\<rparr>"

theorem stale_compaction_breaks_recovery_witness:
  "\<exists>d' n''. disk_run [PersistSnapshot 1 1 []] (demo_disk\<lparr>d_entries := entries (log demo_compacted),
       d_snapshot := Some (\<lparr>last_included_index = 2, last_included_term = 1\<rparr>, [])\<rparr>) = Some d' \<and>
     boot_node demo_sim
       [\<lparr>cfg_id = 2, cfg_peers = [1, 3], cfg_election_timeout_ticks = 15, cfg_heartbeat_interval_ticks = 4,
         cfg_rng_seed = 7\<rparr>] 2 d' = Some n'' \<and> entries (log n'') = [demo_entry 1 1 [], demo_entry 3 2 []]"
proof -
  let ?c = "\<lparr>cfg_id = 2, cfg_peers = [1, 3], cfg_election_timeout_ticks = 15, cfg_heartbeat_interval_ticks = 4,
    cfg_rng_seed = 7\<rparr> :: config"
  let ?d = "demo_disk\<lparr>d_entries := entries (log demo_compacted),
    d_snapshot := Some (\<lparr>last_included_index = 2, last_included_term = 1\<rparr>, [])\<rparr>"
  have run: "run_event (core demo_sim) (Compact 1 1 []) demo_compacted = Some (demo_compacted, [PersistSnapshot 1 1 []])"
    by (simp add: compact_logs_def log_compact_def first_index_def demo_compacted_def demo_follower_def demo_entry_def
        word_less_nat_alt word_le_nat_alt)
  have old: "1 < e_index (hd (entries (log demo_compacted)))"
    by (simp add: demo_compacted_def demo_entry_def word_less_nat_alt)
  have c: "find (\<lambda>c. cfg_id c = 2) [?c] = Some ?c" "cfg_heartbeat_interval_ticks ?c < cfg_election_timeout_ticks ?c"
    "2 * unat (cfg_election_timeout_ticks ?c) \<le> 2 ^ 64" by simp_all
  have wf: "node_wf demo_compacted"
    by (simp add: node_wf_def demo_compacted_def demo_follower_def log_wf_def vec_wf_def vec_base_def indexed_from_Cons
        demo_entry_def)
  have m: "mirrored demo_compacted ?d"
    by (simp add: mirrored_def base_kept_def demo_disk_def disk_hs_def node_hs_def demo_compacted_def demo_follower_def
        demo_entry_def sentinel_entry_def)
  have "sentinel_entry 1 1 # tl (entries (log demo_compacted)) = [demo_entry 1 1 [], demo_entry 3 2 []]"
    by (simp add: demo_compacted_def demo_entry_def sentinel_entry_def)
  with stale_compaction_breaks_recovery [OF run old demo_sim_ok(5) c wf m] show ?thesis by auto
qed

section \<open>Snapshots from the leader\<close>

text \<open>C32: The installation of a snapshot is the exception: the node drops its whole log, but the disk keeps
  the entries after the snapshot's index. The disk mirrors the node afterwards exactly when the old log
  did not go beyond the snapshot.\<close>

theorem snapshot_disk_suffix:
  assumes run: "handle_install_snapshot e from t idx idx_term dat True n = Some (n', acts)"
    and cur: "current_term n \<le> t" and new: "commit_index n < idx" and wf: "node_wf n" and disk: "mirrored n d"
  shows "entries (log n') = [sentinel_entry idx idx_term] \<and>
    (\<exists>d'. disk_run acts d = Some d' \<and>
      d_entries d' = sentinel_entry idx idx_term # filter (\<lambda>x. idx < e_index x) (entries (log n)) \<and>
      (mirrored n' d' \<longleftrightarrow> log_last (log n) \<le> unat idx))"
proof -
  let ?es = "entries (log n)" and ?suffix = "filter (\<lambda>x. idx < e_index x) (entries (log n))"
  have wf_es: "vec_wf ?es" using wf log_wf_vec by simp
  have lo: "e_index (hd ?es) < idx" using wf new by (auto simp: node_wf_def vec_base_def word_less_nat_alt)
  from run cur obtain n1 acts1 where bf: "become_follower e t (Some from) n = Some (n1, acts1)"
    by (auto simp: handle_install_snapshot_def bind_eq_Some_conv not_less split: if_splits)
  then have "\<not> t < current_term n" "\<not> idx \<le> commit_index n1" using cur new by (auto elim!: become_followerE)
  with run bf have n1: "n' = n1\<lparr>log := log_install_snapshot \<lparr>last_included_index = idx, last_included_term = idx_term\<rparr> (log n1),
      commit_index := idx, last_applied := idx\<rparr>"
    "acts = acts1 @ [PersistSnapshot idx idx_term dat, reply n' from InstallSnapshotResponse]"
    by (auto simp: handle_install_snapshot_def Let_def)
  have hs: "acts1 = (if current_term n < t then [PersistHardState t None] else [])"
    "node_hs n1 = (if current_term n < t then HardState t None else node_hs n)"
    using bf cur by (auto elim!: become_followerE simp: node_hs_def)
  define d1 where "d1 = (if current_term n < t then write_hard_state t None d else d)"
  have d1: "disk_run acts1 d = Some d1" "d_entries d1 = ?es" "disk_hs d1 = node_hs n1" "d_snapshot d1 = d_snapshot d"
    using disk hs by (auto simp: d1_def mirrored_def write_hard_state_def disk_hs_def)
  let ?d = "d1\<lparr>d_entries := sentinel_entry idx idx_term # ?suffix,
    d_snapshot := Some (\<lparr>last_included_index = idx, last_included_term = idx_term\<rparr>, dat)\<rparr>"
  have "write_snapshot idx idx_term dat d1 = Some ?d"
    using write_snapshot_eq [of d1] wf_es d1(2) lo by (auto simp: disk_wf_def spec_compact_def)
  then have "disk_run acts d = Some ?d" using d1(1) by (simp add: n1(2) disk_run_append reply_def)
  moreover have "entries (log n') = [sentinel_entry idx idx_term]" "node_hs n' = node_hs n1"
    by (simp_all add: n1(1) log_install_snapshot_def sentinel_entry_def node_hs_def)
  moreover have "?suffix = [] \<longleftrightarrow> log_last (log n) \<le> unat idx"
    using lo unfolding filter_above_drop [OF wf_es less_imp_le [OF lo]]
    by (auto simp: unat_offset_nat vec_end_def vec_base_def word_less_nat_alt)
  ultimately show ?thesis using d1(3)
    by (auto simp: mirrored_def base_kept_def disk_hs_def)
qed

definition demo_long :: "u64 raft_node" where
  \<comment> \<open>the follower with one more entry\<close>
  "demo_long = demo_follower\<lparr>log := \<lparr>entries = entries demo_log @ [demo_entry 4 2 [8]]\<rparr>\<rparr>"

theorem snapshot_disk_suffix_witness:
  "\<exists>n' acts d'. handle_install_snapshot demo_env 1 3 3 3 [5] True demo_long = Some (n', acts) \<and>
     disk_run acts (demo_disk\<lparr>d_entries := entries (log demo_long)\<rparr>) = Some d' \<and> \<not> mirrored n' d'"
proof -
  have "handle_install_snapshot demo_env 1 3 3 3 [5] True demo_long \<noteq> None" by code_simp
  then obtain n' acts where run: "handle_install_snapshot demo_env 1 3 3 3 [5] True demo_long = Some (n', acts)"
    by auto
  have last: "log_base (log demo_long) = 0" "log_last (log demo_long) = 4"
    by (simp_all add: demo_long_def demo_log_def vec_base_def vec_end_def demo_entry_def)
  have wf: "node_wf demo_long"
    using last by (simp add: node_wf_def demo_long_def demo_follower_def log_wf_def vec_wf_def indexed_from_Cons
        demo_log_def demo_entry_def)
  have disk: "mirrored demo_long (demo_disk\<lparr>d_entries := entries (log demo_long)\<rparr>)"
    using demo_disk_mirrors by (simp add: mirrored_def demo_long_def base_kept_def disk_hs_def node_hs_def demo_disk_def
        demo_log_def)
  have "current_term demo_long \<le> 3" "commit_index demo_long < 3"
    by (simp_all add: demo_long_def demo_follower_def)
  from snapshot_disk_suffix [OF run this wf disk] run last show ?thesis by auto
qed

end
