(* ===== verification/SimSpec.thy ===== *)
theory SimSpec
  imports Demo
begin

text \<open>
  What the simulator's own parts promise: when the network delivers what was sent, and what the checks
  after every step do and do not establish.
\<close>

section \<open>The network\<close>

text \<open>A message handed to the network is lost, or put in flight once or twice, for a tick between now and
  now plus the maximal delay (plus 3 for the copy); a partitioned link takes nothing, and nothing that is
  in flight is touched.\<close>

theorem network_send_bounds:
  assumes "network_send e m t (w, r) = Some (w', r')" and "range_ok e"
    and "unat t + unat (max_delay_ticks w) + 3 < 2 ^ 64"
  shows "\<exists>new. w' = w\<lparr>in_flight := new @ in_flight w\<rparr> \<and> length new \<le> 2 \<and>
    ((msg_from m, msg_to m) \<in> partitions w \<longrightarrow> new = []) \<and>
    (\<forall>x \<in> set new. sm_msg x = m \<and> unat t \<le> unat (delivery_tick x) \<and>
       unat (delivery_tick x) \<le> unat t + unat (max_delay_ticks w) + 3)"
proof (cases "(msg_from m, msg_to m) \<in> partitions w")
  case True
  with assms(1) show ?thesis by (intro exI [of _ "[]"]) (simp add: network_send_def)
next
  case False
  with network_send_schedule [OF assms] show ?thesis by metis
qed

definition demo_ping :: message where
  "demo_ping = \<lparr>msg_from = 1, msg_to = 2, msg_term = 1, msg_kind = InstallSnapshotResponse\<rparr>"

theorem network_send_bounds_witness:
  "\<exists>w' r'. network_send demo_sim demo_ping 5 (network_new, 0) = Some (w', r') \<and>
     (\<exists>new. in_flight w' = new \<and> (\<forall>x \<in> set new. 5 \<le> unat (delivery_tick x) \<and> unat (delivery_tick x) \<le> 11))"
proof -
  have "network_send demo_sim demo_ping 5 (network_new, 0) \<noteq> None"
    by (simp add: network_send_def demo_sim_def network_new_def demo_ping_def add_u64_def)
  then obtain w' r' where run: "network_send demo_sim demo_ping 5 (network_new, 0) = Some (w', r')" by auto
  have "unat (5 :: u64) + unat (max_delay_ticks network_new) + 3 < 2 ^ 64" by (simp add: network_new_def)
  from network_send_bounds [OF run demo_sim_ok(4) this] run show ?thesis by (fastforce simp: network_new_def)
qed

text \<open>C24: Draining the network delivers exactly the messages that are due, in the order of their ticks, each
  as often as it was in flight, and keeps the others; the loop ends within as many turns as there are
  messages.\<close>

theorem drain_due_exact:
  assumes "heap_ok e" and "drain_due e t w = (due, w')"
  shows "\<exists>ds. due = map sm_msg ds \<and> sorted (map delivery_tick ds) \<and>
    mset ds = filter_mset (\<lambda>x. delivery_tick x \<le> t) (mset (in_flight w)) \<and>
    mset (in_flight w') = filter_mset (\<lambda>x. \<not> delivery_tick x \<le> t) (mset (in_flight w)) \<and>
    w' = w\<lparr>in_flight := in_flight w'\<rparr>"
proof -
  from drain_loop_spec [OF assms(1) order_refl, where t = t and ms = "in_flight w"] obtain ds rest where
    d: "drain_loop e t (length (in_flight w)) (in_flight w) = (map sm_msg ds, rest)"
      "mset (in_flight w) = mset ds + mset rest" "sorted (map delivery_tick ds)"
      "\<forall>x \<in> set ds. delivery_tick x \<le> t" "\<forall>x \<in> set rest. t < delivery_tick x" .
  have "filter_mset (\<lambda>x. delivery_tick x \<le> t) (mset ds) = mset ds"
    "filter_mset (\<lambda>x. delivery_tick x \<le> t) (mset rest) = {#}"
    "filter_mset (\<lambda>x. \<not> delivery_tick x \<le> t) (mset ds) = {#}"
    "filter_mset (\<lambda>x. \<not> delivery_tick x \<le> t) (mset rest) = mset rest"
    using d(4,5) by (auto simp: filter_mset_eq_conv not_le)
  with d assms(2) show ?thesis by (auto simp: drain_due_def)
qed

definition demo_flight :: sim_network where
  "demo_flight = network_new\<lparr>in_flight := [\<lparr>delivery_tick = 7, sm_msg = demo_ping\<rparr>, \<lparr>delivery_tick = 5, sm_msg = demo_ping\<rparr>,
     \<lparr>delivery_tick = 9, sm_msg = demo_ping\<rparr>]\<rparr>"

theorem drain_due_exact_witness:
  "\<exists>due w'. drain_due demo_sim 7 demo_flight = (due, w') \<and> length due = 2 \<and>
     mset (in_flight w') = {#\<lparr>delivery_tick = 9, sm_msg = demo_ping\<rparr>#}"
proof -
  obtain due w' where run: "drain_due demo_sim 7 demo_flight = (due, w')" by fastforce
  from drain_due_exact [OF demo_sim_ok(1) run] obtain ds where ds: "due = map sm_msg ds"
    "mset ds = filter_mset (\<lambda>x. delivery_tick x \<le> 7) (mset (in_flight demo_flight))"
    "mset (in_flight w') = filter_mset (\<lambda>x. \<not> delivery_tick x \<le> 7) (mset (in_flight demo_flight))" by blast
  have "size (mset ds) = 2" unfolding ds(2) by (simp add: demo_flight_def word_le_nat_alt)
  then have "length due = 2" using ds(1) by simp
  with run ds(3) show ?thesis by (simp add: demo_flight_def word_le_nat_alt)
qed

section \<open>The checks\<close>

text \<open>The check of log matching is exact: on well-formed logs it always returns, and it passes just when
  every two of the nodes agree on the command wherever both logs have an entry of the same index and
  term above their bases.\<close>

theorem log_matching_check_exact:
  assumes "\<forall>n \<in> set ns. log_wf (log n)"
  shows "\<exists>r. check_log_matching ns = Some r \<and>
    (r = Inr () \<longleftrightarrow> pairwise (\<lambda>n1 n2. entries_match (log n1) (log n2)) ns)"
  using check_log_matching_spec [OF assms] by (simp add: returns_iff)

theorem log_matching_check_exact_witness:
  "\<exists>r. check_log_matching [demo_follower, demo_leader] = Some r \<and>
     (r = Inr () \<longleftrightarrow> pairwise (\<lambda>n1 n2. entries_match (log n1) (log n2)) [demo_follower, demo_leader])"
  by (rule log_matching_check_exact) (use demo_nodes_wf in simp)

definition on_record :: "safety_invariants \<Rightarrow> 'r raft_node list \<Rightarrow> bool" where
  "on_record iv ns \<longleftrightarrow> (\<forall>n \<in> set ns. role n = Leader \<longrightarrow> term_leaders iv (current_term n) \<in> {None, Some (node_id n)})"

definition lone_leaders :: "'r raft_node list \<Rightarrow> bool" where
  "lone_leaders ns \<longleftrightarrow> (\<forall>n \<in> set ns. \<forall>m \<in> set ns.
     role n = Leader \<longrightarrow> role m = Leader \<longrightarrow> current_term n = current_term m \<longrightarrow> node_id n = node_id m)"

definition same_leader :: "'r raft_node \<Rightarrow> 'r raft_node list \<Rightarrow> bool" where
  "same_leader n ns \<longleftrightarrow> (\<forall>m \<in> set ns. role m = Leader \<longrightarrow> current_term m = current_term n \<longrightarrow> node_id m = node_id n)"

lemma pairs_Cons:
  assumes "symp R" and "R n n"
  shows "(\<forall>a \<in> set (n # ns). \<forall>b \<in> set (n # ns). R a b) \<longleftrightarrow> (\<forall>b \<in> set ns. R b n) \<and> (\<forall>a \<in> set ns. \<forall>b \<in> set ns. R a b)"
  using assms(2) sympD [OF assms(1)] by auto

lemma lone_leaders_Cons:
  "role n = Leader \<Longrightarrow> lone_leaders (n # ns) \<longleftrightarrow> same_leader n ns \<and> lone_leaders ns"
  "role n \<noteq> Leader \<Longrightarrow> lone_leaders (n # ns) \<longleftrightarrow> lone_leaders ns"
proof -
  let ?R = "\<lambda>a b. role a = Leader \<longrightarrow> role b = Leader \<longrightarrow> current_term a = current_term b \<longrightarrow> node_id a = node_id b"
  have "(\<forall>a \<in> set (n # ns). \<forall>b \<in> set (n # ns). ?R a b) \<longleftrightarrow>
      (\<forall>b \<in> set ns. ?R b n) \<and> (\<forall>a \<in> set ns. \<forall>b \<in> set ns. ?R a b)"
    by (rule pairs_Cons) (simp_all add: symp_def eq_commute)
  then show "role n = Leader \<Longrightarrow> lone_leaders (n # ns) \<longleftrightarrow> same_leader n ns \<and> lone_leaders ns"
    unfolding lone_leaders_def same_leader_def by simp
  show "role n \<noteq> Leader \<Longrightarrow> lone_leaders (n # ns) \<longleftrightarrow> lone_leaders ns"
    unfolding lone_leaders_def by simp
qed

lemma on_record_update:
  assumes "term_leaders iv (current_term n) = None"
  shows "on_record (iv\<lparr>term_leaders := (term_leaders iv)(current_term n \<mapsto> node_id n)\<rparr>) ns \<longleftrightarrow>
    on_record iv ns \<and> same_leader n ns"
proof -
  have "((term_leaders iv)(current_term n \<mapsto> node_id n)) (current_term m) \<in> {None, Some (node_id m)} \<longleftrightarrow>
      term_leaders iv (current_term m) \<in> {None, Some (node_id m)} \<and> (current_term m = current_term n \<longrightarrow> node_id m = node_id n)" for m
    using assms by auto
  then show ?thesis unfolding on_record_def same_leader_def by (simp del: fun_upd_apply insert_iff) blast
qed

lemma on_record_same:
  "term_leaders iv (current_term n) = Some (node_id n) \<Longrightarrow> on_record iv ns \<Longrightarrow> same_leader n ns"
  unfolding on_record_def same_leader_def by auto

text \<open>The check of election safety is exact: it passes just when every leader agrees with the leader on
  record for its term, and no two leaders share a term.\<close>

theorem election_check_exact:
  "snd (check_election_safety ns iv) = Inr () \<longleftrightarrow> on_record iv ns \<and> lone_leaders ns"
proof (induction ns arbitrary: iv)
  case Nil
  then show ?case by (simp add: on_record_def lone_leaders_def)
next
  case (Cons n ns)
  have rec: "on_record iv (n # ns) \<longleftrightarrow>
      (role n = Leader \<longrightarrow> term_leaders iv (current_term n) \<in> {None, Some (node_id n)}) \<and> on_record iv ns"
    by (simp add: on_record_def)
  show ?case
  proof (cases "role n = Leader")
    case False
    with Cons rec show ?thesis by (simp add: lone_leaders_Cons)
  next
    case True
    show ?thesis
    proof (cases "term_leaders iv (current_term n)")
      case None
      with True Cons rec show ?thesis by (auto simp: lone_leaders_Cons on_record_update)
    next
      case (Some i)
      with True Cons rec on_record_same [of iv n ns] show ?thesis by (auto simp: lone_leaders_Cons)
    qed
  qed
qed

section \<open>The check of the state machines\<close>

definition remembers :: "safety_invariants \<Rightarrow> 'r raft_node \<Rightarrow> bool" where
  \<comment> \<open>every applied command of the node is the one on record\<close>
  "remembers iv n \<longleftrightarrow> (\<forall>k x. 1 \<le> k \<longrightarrow> k \<le> unat (last_applied n) \<longrightarrow> lookup (log n) k = Some x \<longrightarrow> e_command x \<noteq> [] \<longrightarrow>
     committed_entries iv (of_nat k) = Some (e_term x, e_command x))"

lemma applied_scan_records:
  assumes "log_wf (log n)" and "applied_scan n is iv = Some (iv', Inr ())"
  shows "committed_entries iv \<subseteq>\<^sub>m committed_entries iv' \<and>
    (\<forall>i \<in> set is. \<forall>x. lookup (log n) (unat i) = Some x \<longrightarrow> e_command x \<noteq> [] \<longrightarrow>
       committed_entries iv' i = Some (e_term x, e_command x))"
  using assms(2)
proof (induction "is" arbitrary: iv)
  case (Cons i "is")
  have ne: "entries (log n) \<noteq> []" using assms(1) by simp
  show ?case
  proof (cases "\<exists>x. lookup (log n) (unat i) = Some x \<and> e_command x \<noteq> []")
    case False
    with Cons.prems ne have "applied_scan n is iv = Some (iv', Inr ())"
      by (auto simp: entry_at_lookup split: option.splits if_splits)
    from Cons.IH [OF this] False show ?thesis by auto
  next
    case True
    then obtain x where x: "lookup (log n) (unat i) = Some x" "e_command x \<noteq> []" by blast
    let ?iv = "iv\<lparr>committed_entries := (committed_entries iv)(i \<mapsto> (e_term x, e_command x))\<rparr>"
    obtain iv1 where iv1: "applied_scan n is iv1 = Some (iv', Inr ())" "committed_entries iv \<subseteq>\<^sub>m committed_entries iv1"
      "committed_entries iv1 i = Some (e_term x, e_command x)"
    proof (cases "committed_entries iv i")
      case None
      with Cons.prems ne x have "applied_scan n is ?iv = Some (iv', Inr ())" by (simp add: entry_at_lookup)
      with None show ?thesis by (intro that [of ?iv]) (auto simp: map_le_def)
    next
      case (Some c)
      with Cons.prems ne x have "applied_scan n is iv = Some (iv', Inr ())" "c = (e_term x, e_command x)"
        by (auto simp: entry_at_lookup split: if_splits prod.splits)
      with Some show ?thesis by (intro that [of iv]) auto
    qed
    note ih = Cons.IH [OF iv1(1)]
    then have "committed_entries iv' i = Some (e_term x, e_command x)"
      using iv1(3) by (auto simp: map_le_def dom_def)
    with ih x iv1(2) map_le_trans [OF iv1(2)] show ?thesis by auto
  qed
qed simp

lemma check_state_records:
  "\<forall>n \<in> set ns. log_wf (log n) \<Longrightarrow> check_state_machine_safety ns iv = Some (iv', Inr ()) \<Longrightarrow>
    committed_entries iv \<subseteq>\<^sub>m committed_entries iv' \<and> (\<forall>n \<in> set ns. remembers iv' n)"
proof (induction ns arbitrary: iv)
  case (Cons n ns)
  show ?case
  proof (cases "last_applied n = sentinel_index")
    case True
    with Cons have "committed_entries iv \<subseteq>\<^sub>m committed_entries iv' \<and> (\<forall>n \<in> set ns. remembers iv' n)" by simp
    with True show ?thesis by (auto simp: remembers_def sentinel_index_def)
  next
    case False
    with Cons.prems(2) obtain iv1 where scan: "applied_scan n (range_incl 1 (last_applied n)) iv = Some (iv1, Inr ())"
      and rest: "check_state_machine_safety ns iv1 = Some (iv', Inr ())"
      by (auto simp: bind_eq_Some_conv split: sum.splits) (metis old.unit.exhaust sum.exhaust)
    from Cons.prems(1) have wf: "log_wf (log n)" by simp
    note one = applied_scan_records [OF wf scan]
    from Cons.IH [OF _ rest] Cons.prems(1) have two: "committed_entries iv1 \<subseteq>\<^sub>m committed_entries iv'"
      "\<forall>n \<in> set ns. remembers iv' n" by simp_all
    have "remembers iv' n"
      unfolding remembers_def
    proof (intro allI impI)
      fix k x assume k: "1 \<le> k" "k \<le> unat (last_applied n)" and x: "lookup (log n) k = Some x" "e_command x \<noteq> []"
      have "unat (of_nat k :: u64) = k" using k(2) unat_u64_less [of "last_applied n"] by (simp add: unat_of_nat)
      moreover have "(of_nat k :: u64) \<in> set (range_incl 1 (last_applied n))"
        using k unfolding range_incl_def set_map by (intro imageI) auto
      ultimately have "committed_entries iv1 (of_nat k) = Some (e_term x, e_command x)" using one x by auto
      with two(1) show "committed_entries iv' (of_nat k) = Some (e_term x, e_command x)"
        by (auto simp: map_le_def dom_def)
    qed
    with one two map_le_trans show ?thesis by fastforce
  qed
qed simp

text \<open>C25: The check of state machine safety is sound, also over time: when it passes, every command that any
  of the nodes has applied is the one on record for its index, with its term, and no earlier record has
  changed; so two nodes never applied different commands at one index without a report.\<close>

theorem state_machine_check_sound:
  assumes "\<forall>n \<in> set ns. log_wf (log n)" and "check_state_machine_safety ns iv = Some (iv', Inr ())"
  shows "committed_entries iv \<subseteq>\<^sub>m committed_entries iv' \<and> (\<forall>n \<in> set ns. remembers iv' n) \<and>
    (\<forall>n \<in> set ns. \<forall>m \<in> set ns. \<forall>k x y. 1 \<le> k \<longrightarrow> k \<le> unat (last_applied n) \<longrightarrow> k \<le> unat (last_applied m) \<longrightarrow>
       lookup (log n) k = Some x \<longrightarrow> lookup (log m) k = Some y \<longrightarrow> e_command x \<noteq> [] \<longrightarrow> e_command y \<noteq> [] \<longrightarrow>
       e_term x = e_term y \<and> e_command x = e_command y)"
proof (intro conjI ballI allI impI)
  note r = check_state_records [OF assms]
  then show "committed_entries iv \<subseteq>\<^sub>m committed_entries iv'" "\<And>n. n \<in> set ns \<Longrightarrow> remembers iv' n" by simp_all
  fix n m k x y
  assume "n \<in> set ns" "m \<in> set ns" "1 \<le> k" "k \<le> unat (last_applied n)" "k \<le> unat (last_applied m)"
    "lookup (log n) k = Some x" "lookup (log m) k = Some y" "e_command x \<noteq> []" "e_command y \<noteq> []"
  with r have "committed_entries iv' (of_nat k) = Some (e_term x, e_command x)"
    "committed_entries iv' (of_nat k) = Some (e_term y, e_command y)"
    unfolding remembers_def by blast+
  then show "e_term x = e_term y" "e_command x = e_command y" by simp_all
qed

theorem state_machine_check_sound_witness:
  "\<exists>iv'. check_state_machine_safety [demo_follower, demo_leader] invariants_new = Some (iv', Inr ()) \<and>
     remembers iv' demo_follower"
proof -
  have "case check_state_machine_safety [demo_follower, demo_leader] invariants_new of None \<Rightarrow> False
      | Some (iv', r) \<Rightarrow> r = Inr ()" by code_simp
  then obtain iv' where run: "check_state_machine_safety [demo_follower, demo_leader] invariants_new = Some (iv', Inr ())"
    by (auto split: option.splits)
  have "\<forall>n \<in> set [demo_follower, demo_leader]. log_wf (log n)" using demo_nodes_wf by simp
  from state_machine_check_sound [OF this run] run show ?thesis by auto
qed

end
