(* ===== verification/LostCommit.thy ===== *)
theory LostCommit
  imports Demo
begin

text \<open>
  A run of the simulator that loses committed commands: a leader counts the answers to an earlier message
  as acknowledgements of commands it has proposed since and that no other node holds.
\<close>

section \<open>Evaluating a run of three nodes\<close>

definition map3 :: "'a option \<Rightarrow> 'a option \<Rightarrow> 'a option \<Rightarrow> u64 \<Rightarrow> 'a option" where
  "map3 a b c = (\<lambda>i. if i = 1 then a else if i = 2 then b else if i = 3 then c else None)"

definition tidy :: "'r simulator \<Rightarrow> 'r simulator" where
  \<comment> \<open>the same simulator of three nodes, its maps rebuilt: evaluation drops the history of their updates\<close>
  "tidy s = s\<lparr>sim_nodes := map3 (sim_nodes s 1) (sim_nodes s 2) (sim_nodes s 3),
     sim_disks := map3 (sim_disks s 1) (sim_disks s 2) (sim_disks s 3)\<rparr>"

fun run_tidy :: "'r sim_env \<Rightarrow> sim_call list \<Rightarrow> 'r simulator \<Rightarrow> ('r simulator \<times> (violation + unit) list) option" where
  "run_tidy e [] s = Some (s, [])"
| "run_tidy e (c # cs) s = do {
     (s1, r) \<leftarrow> run_call e c s;
     (s2, rs) \<leftarrow> run_tidy e cs (tidy s1);
     Some (s2, r # rs)
   }"

lemma tidy_same:
  assumes "sim_inv e seed 3 s"
  shows "tidy s = s"
proof -
  have "set (node_ids 3) = {1, 2, 3}" by code_simp
  with assms have none: "\<forall>i. i \<notin> {1, 2, 3} \<longrightarrow> sim_disks s i = None" and dom: "dom (sim_nodes s) \<subseteq> dom (sim_disks s)"
    unfolding sim_inv_def sim_rel_def sim.election_inv_def by (auto simp flip: set_map)
  then have "\<forall>i. i \<notin> {1, 2, 3} \<longrightarrow> sim_nodes s i = None" by (metis domIff subsetD)
  with none have "sim_nodes s = map3 (sim_nodes s 1) (sim_nodes s 2) (sim_nodes s 3)"
    "sim_disks s = map3 (sim_disks s 1) (sim_disks s 2) (sim_disks s 3)"
    by (auto simp: map3_def fun_eq_iff)
  then show ?thesis by (simp add: tidy_def)
qed

lemma run_tidy_same:
  assumes "heap_ok e" and "debug (core e)" and "sim_inv e seed 3 s"
  shows "run_tidy e cs s = run_calls e cs s"
  using assms(3)
proof (induction cs arbitrary: s)
  case (Cons c cs)
  show ?case
  proof (cases "run_call e c s")
    case (Some p)
    then obtain s1 r where c: "run_call e c s = Some (s1, r)" by (cases p) auto
    from run_call_inv [OF c assms(1,2) Cons.prems] have inv: "sim_inv e seed 3 s1" by simp
    with Cons.IH [OF inv] tidy_same [OF inv] c show ?thesis by simp
  qed simp
qed simp

section \<open>The run\<close>

definition early_commit_calls :: "sim_call list" where
  \<comment> \<open>node 1 leads; while the answers to its first message are under way its links fail and two commands come in\<close>
  "early_commit_calls = replicate 20 CallStep @ [CallPartition 1 2, CallPartition 1 3, CallPropose [65], CallPropose [66], CallStep]"

definition lost_commit_calls :: "sim_call list" where
  \<comment> \<open>node 1 crashes, the links heal, the others elect a leader and a third command comes in\<close>
  "lost_commit_calls = [CallCrash 1, CallHeal] @ replicate 18 CallStep @ [CallPropose [67]] @ replicate 2 CallStep"

fun run_both :: "'r sim_env \<Rightarrow> sim_call list \<Rightarrow> sim_call list \<Rightarrow> ('r simulator \<Rightarrow> bool) \<Rightarrow> 'r simulator \<Rightarrow> bool" where
  \<comment> \<open>the first calls report nothing and reach a state with the property, the others report a violation\<close>
  "run_both e cs ds P s =
     (case run_tidy e cs s of
        None \<Rightarrow> False
      | Some (s1, rs1) \<Rightarrow> list_all (\<lambda>r. r = Inr ()) rs1 \<and> P s1 \<and>
          (case run_tidy e ds (tidy s1) of
             None \<Rightarrow> False
           | Some (s2, rs2) \<Rightarrow> list_ex (\<lambda>r. r = Inl (StateMachineSafety 2 3 2 1)) rs2))"

definition only_leader_holds :: "'r simulator \<Rightarrow> bool" where
  "only_leader_holds s \<longleftrightarrow>
     map (\<lambda>i. map_option (\<lambda>n. (last_applied n, length (entries (log n)))) (sim_nodes s i)) [1, 2, 3] =
       [Some (3, 4), Some (0, 2), Some (0, 2)]"

text \<open>C2: Committed commands can be lost: in a cluster of three and the simulator's default network a leader
  commits and applies two commands that only it holds, because the answers to an earlier message count
  for everything in its log; after its crash the other two nodes elect a leader and apply a different
  command at the same index, and the check of state machine safety reports it. Until then no check
  has reported anything.\<close>

theorem committed_command_lost:
  "\<exists>s1 s2 rs1 rs2. run_calls demo_sim early_commit_calls demo_start = Some (s1, rs1) \<and> set rs1 \<subseteq> {Inr ()} \<and>
     map (\<lambda>i. map_option (\<lambda>n. (last_applied n, length (entries (log n)))) (sim_nodes s1 i)) [1, 2, 3] =
       [Some (3, 4), Some (0, 2), Some (0, 2)] \<and>
     run_calls demo_sim lost_commit_calls s1 = Some (s2, rs2) \<and> Inl (StateMachineSafety 2 3 2 1) \<in> set rs2"
proof -
  note inv = simulator_new_inv [OF demo_starts]
  have "run_both demo_sim early_commit_calls lost_commit_calls only_leader_holds demo_start" by code_simp
  then obtain s1 rs1 s2 rs2 where
    one: "run_tidy demo_sim early_commit_calls demo_start = Some (s1, rs1)" "list_all (\<lambda>r. r = Inr ()) rs1" "only_leader_holds s1"
    and two: "run_tidy demo_sim lost_commit_calls (tidy s1) = Some (s2, rs2)"
      "list_ex (\<lambda>r. r = Inl (StateMachineSafety 2 3 2 1)) rs2"
    by (auto split: option.splits)
  note calls = one(1) [unfolded run_tidy_same [OF demo_sim_ok(1,2) inv]]
  from run_calls_inv [OF calls demo_sim_ok(1,2) inv] have inv1: "sim_inv demo_sim 0 3 s1" by simp
  have "run_calls demo_sim lost_commit_calls s1 = Some (s2, rs2)"
    using two(1) tidy_same [OF inv1] run_tidy_same [OF demo_sim_ok(1,2) inv1] by simp
  with calls one(2,3) two(2) show ?thesis
    by (auto simp: list_all_iff list_ex_iff only_leader_holds_def)
qed

end
