(* ===== verification/Bytes.thy ===== *)
theory Bytes
  imports Message
begin

text \<open>
  Byte strings: the little- and big-endian readings of an integer that \<open>to_le_bytes\<close>, \<open>from_le_bytes\<close>,
  \<open>to_be_bytes\<close> and \<open>from_be_bytes\<close> give, slices and \<open>copy_from_slice\<close>, and the errors of
  \<open>std::io\<close> that the server tells apart.
\<close>

section \<open>Errors\<close>

datatype io_error =
    WouldBlock
  | UnexpectedEof
  | InvalidData
  | OtherError

type_synonym 'a io = "io_error + 'a"

section \<open>Integers as bytes\<close>

fun le_digits :: "nat \<Rightarrow> nat \<Rightarrow> bytes" where
  "le_digits 0 v = []"
| "le_digits (Suc n) v = of_nat (v mod 256) # le_digits n (v div 256)"

fun le_value :: "bytes \<Rightarrow> nat" where
  "le_value [] = 0"
| "le_value (b # bs) = unat b + 256 * le_value bs"

definition u64_to_le :: "u64 \<Rightarrow> bytes" where
  "u64_to_le w = le_digits 8 (unat w)"

definition u64_from_le :: "bytes \<Rightarrow> u64" where
  "u64_from_le bs = of_nat (le_value bs)"

definition u32_to_le :: "u32 \<Rightarrow> bytes" where
  "u32_to_le w = le_digits 4 (unat w)"

definition u32_from_le :: "bytes \<Rightarrow> u32" where
  "u32_from_le bs = of_nat (le_value bs)"

definition u32_to_be :: "u32 \<Rightarrow> bytes" where
  "u32_to_be w = rev (u32_to_le w)"

definition u32_from_be :: "bytes \<Rightarrow> u32" where
  "u32_from_be bs = u32_from_le (rev bs)"

lemma length_le_digits [simp]: "length (le_digits n v) = n"
  by (induction n arbitrary: v) simp_all

lemma le_value_digits [simp]: "le_value (le_digits n v) = v mod 256 ^ n"
proof (induction n arbitrary: v)
  case (Suc n)
  have "unat (of_nat (v mod 256) :: u8) = v mod 256" by (simp add: unat_of_nat)
  with Suc show ?case by (simp add: mod_mult2_eq)
qed simp

lemma le_digits_numeral:
  "le_digits (numeral k) v = of_nat (v mod 256) # le_digits (pred_numeral k) (v div 256)"
  unfolding numeral_eq_Suc [of k] by simp

lemma le_digits_zero [simp]: "le_digits n 0 = replicate n 0"
  by (induction n) simp_all

lemma length_int_bytes [simp]:
  "length (u64_to_le a) = 8" "length (u32_to_le b) = 4" "length (u32_to_be b) = 4"
  by (simp_all add: u64_to_le_def u32_to_le_def u32_to_be_def)

lemma int_bytes_inverse [simp]:
  "u64_from_le (u64_to_le a) = a" "u32_from_le (u32_to_le b) = b" "u32_from_be (u32_to_be b) = b"
proof -
  have "unat b < 2 ^ 32" using unsigned_less [of b] by simp
  with unat_u64_less [of a] show "u64_from_le (u64_to_le a) = a" "u32_from_le (u32_to_le b) = b" "u32_from_be (u32_to_be b) = b"
    by (simp_all add: u64_to_le_def u64_from_le_def u32_to_le_def u32_from_le_def u32_to_be_def u32_from_be_def)
qed

lemma le_value_less: "le_value bs < 256 ^ length bs"
proof (induction bs)
  case (Cons b bs)
  have "unat b < 256" using unsigned_less [of b] by simp
  with Cons show ?case by simp
qed simp

lemma le_digits_value [simp]: "length bs = n \<Longrightarrow> le_digits n (le_value bs) = bs"
proof (induction n arbitrary: bs)
  case (Suc n)
  then obtain b cs where bs: "bs = b # cs" "length cs = n" by (cases bs) auto
  have "unat b < 256" using unsigned_less [of b] by simp
  with Suc.IH [OF bs(2)] bs show ?case by simp
qed simp

lemma bytes_int_inverse [simp]:
  "length bs = 8 \<Longrightarrow> u64_to_le (u64_from_le bs) = bs"
  "length cs = 4 \<Longrightarrow> u32_to_le (u32_from_le cs) = cs"
  using le_value_less [of bs] le_value_less [of cs]
  by (simp_all add: u64_to_le_def u64_from_le_def u32_to_le_def u32_from_le_def unat_of_nat)

section \<open>Slices\<close>

definition slice :: "nat \<Rightarrow> nat \<Rightarrow> bytes \<Rightarrow> bytes" where
  \<comment> \<open>\<open>&data[a..b]\<close>, within bounds\<close>
  "slice a b data = take (b - a) (drop a data)"

definition copy_at :: "nat \<Rightarrow> bytes \<Rightarrow> bytes \<Rightarrow> bytes" where
  \<comment> \<open>\<open>buf[a..a+n].copy_from_slice(bs)\<close> with \<open>n = bs.len()\<close>, within bounds\<close>
  "copy_at a bs buf = take a buf @ bs @ drop (a + length bs) buf"

lemma length_copy_at [simp]: "a + length bs \<le> length buf \<Longrightarrow> length (copy_at a bs buf) = length buf"
  by (simp add: copy_at_def)

lemma slice_copy_at [simp]: "a \<le> length buf \<Longrightarrow> b = a + length bs \<Longrightarrow> slice a b (copy_at a bs buf) = bs"
  by (simp add: copy_at_def slice_def)

lemma slice_append: "length xs = a \<Longrightarrow> length ys = b - a \<Longrightarrow> slice a b (xs @ ys @ zs) = ys"
  by (simp add: slice_def)

lemma slice_drop: "slice (n + a) (n + b) data = slice a b (drop n data)"
  by (simp add: slice_def add.commute)

lemma slice_then_drop [simp]: "a \<le> b \<Longrightarrow> slice a b data @ drop b data = drop a data"
  using append_take_drop_id [of "b - a" "drop a data"] by (simp add: slice_def)

lemma length_slice: "b \<le> length data \<Longrightarrow> length (slice a b data) = b - a"
  by (simp add: slice_def)

end
