(* ===== verification/DurableDisk.thy ===== *)
theory DurableDisk
  imports Bytes
begin

text \<open>
  \<open>raft-server/src/storage.rs\<close>: the server's \<open>DurableDisk\<close>, a sector with the hard state and a
  write-ahead log of entries. The files are byte strings. What is not code of the repository is a
  parameter: the system calls, the checksum of the \<open>crc32fast\<close> crate, and the contents of memory fresh
  from the allocator, which reaches the disk as the padding of every write.
\<close>

section \<open>The operating system\<close>

record os =
  fresh_mem :: "nat \<Rightarrow> bytes"                              \<comment> \<open>uninitialised memory, taken to depend only on its size\<close>
  crc32 :: "bytes \<Rightarrow> u32"                                 \<comment> \<open>\<open>crc32fast::hash\<close>\<close>
  sys_pwrite :: "bytes \<Rightarrow> bytes \<Rightarrow> nat \<Rightarrow> bytes option"      \<comment> \<open>file, data, offset; \<open>None\<close> is -1\<close>
  sys_pread :: "bytes \<Rightarrow> nat \<Rightarrow> nat \<Rightarrow> bytes option"        \<comment> \<open>file, size, offset: the bytes read\<close>
  sys_seek_end :: "bytes \<Rightarrow> nat option"
  sys_ftruncate :: "bytes \<Rightarrow> nat \<Rightarrow> bytes option"
  sys_read_to_end :: "bytes \<Rightarrow> bytes option"              \<comment> \<open>\<open>File::open\<close> and \<open>read_to_end\<close>\<close>

definition write_at :: "bytes \<Rightarrow> bytes \<Rightarrow> nat \<Rightarrow> bytes" where
  \<comment> \<open>a file after a write at an offset: the gap up to it is a hole of zeros\<close>
  "write_at file data off =
     take off file @ replicate (off - length file) 0 @ data @ drop (off + length data) file"

definition os_ok :: "os \<Rightarrow> bool" where
  \<comment> \<open>the documented effect of the system calls that succeed, for writes that are not cut short\<close>
  "os_ok s \<longleftrightarrow>
     (\<forall>n. length (fresh_mem s n) = n) \<and>
     (\<forall>f bs k. sys_pwrite s f bs k \<in> {None, Some (write_at f bs k)}) \<and>
     (\<forall>f n k. sys_pread s f n k \<in> {None, Some (take n (drop k f))}) \<and>
     (\<forall>f. sys_seek_end s f \<in> {None, Some (length f)}) \<and>
     (\<forall>f. sys_ftruncate s f 0 \<in> {None, Some []}) \<and>
     (\<forall>f. sys_read_to_end s f \<in> {None, Some f})"

lemma os_okD:
  assumes "os_ok s"
  shows "sys_pwrite s f bs k = Some g \<Longrightarrow> g = write_at f bs k"
    and "sys_pread s f n k = Some g \<Longrightarrow> g = take n (drop k f)"
    and "sys_seek_end s f = Some k \<Longrightarrow> k = length f"
    and "sys_ftruncate s f 0 = Some g \<Longrightarrow> g = []"
    and "sys_read_to_end s f = Some g \<Longrightarrow> g = f"
proof -
  have "sys_pwrite s f bs k \<in> {None, Some (write_at f bs k)}" "sys_pread s f n k \<in> {None, Some (take n (drop k f))}"
    "sys_seek_end s f \<in> {None, Some (length f)}" "sys_ftruncate s f 0 \<in> {None, Some []}"
    "sys_read_to_end s f \<in> {None, Some f}" for f g bs n k
    using assms unfolding os_ok_def by blast+
  then show "sys_pwrite s f bs k = Some g \<Longrightarrow> g = write_at f bs k"
    "sys_pread s f n k = Some g \<Longrightarrow> g = take n (drop k f)" "sys_seek_end s f = Some k \<Longrightarrow> k = length f"
    "sys_ftruncate s f 0 = Some g \<Longrightarrow> g = []" "sys_read_to_end s f = Some g \<Longrightarrow> g = f"
    by (metis insertE option.distinct(1) option.inject singletonD)+
qed

section \<open>Aligned buffers\<close>

definition sector_size :: nat where
  "sector_size = 4096"

definition rounded_size :: "u64 \<Rightarrow> u64" where
  "rounded_size n = and (n + of_nat sector_size - 1) (not (of_nat sector_size - 1))"

definition aligned_buffer :: "os \<Rightarrow> nat \<Rightarrow> bytes" where
  "aligned_buffer s n = fresh_mem s (unat (rounded_size (of_nat n)))"

section \<open>The disk\<close>

record durable_disk =
  hs_file :: bytes
  wal_file :: bytes

definition dd_open :: "unit io \<Rightarrow> bytes io \<Rightarrow> bytes io \<Rightarrow> durable_disk io" where
  \<comment> \<open>\<open>open\<close>, over the results of creating the directory and of opening (or creating) the two files\<close>
  "dd_open created hs_opened wal_opened =
     (case created of Inl err \<Rightarrow> Inl err
      | Inr _ \<Rightarrow>
          (case hs_opened of Inl err \<Rightarrow> Inl err
           | Inr hs \<Rightarrow>
               (case wal_opened of Inl err \<Rightarrow> Inl err | Inr wal \<Rightarrow> Inr \<lparr>hs_file = hs, wal_file = wal\<rparr>)))"

definition hard_state_sector :: "os \<Rightarrow> raft_term \<Rightarrow> node_id option \<Rightarrow> bytes" where
  \<comment> \<open>the buffer that \<open>write_hard_state\<close> fills\<close>
  "hard_state_sector s t v =
     (let buffer = aligned_buffer s sector_size;
          voted_val = (case v of None \<Rightarrow> 0 | Some n \<Rightarrow> n);
          buffer = copy_at 0 (u64_to_le t) buffer;
          buffer = copy_at 8 (u64_to_le voted_val) buffer;
          checksum = crc32 s (slice 0 16 buffer)
      in copy_at 16 (u32_to_le checksum) buffer)"

definition dd_write_hard_state ::
  "os \<Rightarrow> raft_term \<Rightarrow> node_id option \<Rightarrow> durable_disk \<Rightarrow> unit io \<times> durable_disk" where
  "dd_write_hard_state s t v d =
     (case sys_pwrite s (hs_file d) (hard_state_sector s t v) 0 of
        None \<Rightarrow> (Inl OtherError, d)
      | Some f \<Rightarrow> (Inr (), d\<lparr>hs_file := f\<rparr>))"

definition dd_read_hard_state :: "os \<Rightarrow> durable_disk \<Rightarrow> (raft_term \<times> node_id option) option io" where
  "dd_read_hard_state s d =
     (case sys_pread s (hs_file d) sector_size 0 of
        None \<Rightarrow> Inl OtherError
      | Some got \<Rightarrow>
          if got = [] then Inr None
          else let data = copy_at 0 got (aligned_buffer s sector_size);
                   t = u64_from_le (slice 0 8 data);
                   voted_val = u64_from_le (slice 8 16 data);
                   expected_crc = u32_from_le (slice 16 20 data);
                   actual_crc = crc32 s (slice 0 16 data)
               in if actual_crc \<noteq> expected_crc \<and> expected_crc \<noteq> 0 then Inl InvalidData
                  else Inr (Some (t, if voted_val = 0 then None else Some voted_val)))"

definition encode_entry :: "os \<Rightarrow> log_entry \<Rightarrow> bytes" where
  \<comment> \<open>the body of the loop of \<open>append_log_entries\<close>\<close>
  "encode_entry s x =
     u64_to_le (e_index x) @ u64_to_le (e_term x) @ u32_to_le (of_nat (length (e_command x))) @
     e_command x @ u32_to_le (crc32 s (e_command x))"

definition encode_entries :: "os \<Rightarrow> log_entry list \<Rightarrow> bytes" where
  "encode_entries s es = concat (map (encode_entry s) es)"

definition append_log_entries :: "os \<Rightarrow> log_entry list \<Rightarrow> durable_disk \<Rightarrow> unit io \<times> durable_disk" where
  "append_log_entries s es d =
     (if es = [] then (Inr (), d)
      else let payload = encode_entries s es;
               buffer = copy_at 0 payload (aligned_buffer s (length payload))
           in case sys_seek_end s (wal_file d) of
                None \<Rightarrow> (Inl OtherError, d)
              | Some end_offset \<Rightarrow>
                  (case sys_pwrite s (wal_file d) buffer end_offset of
                     None \<Rightarrow> (Inl OtherError, d)
                   | Some f \<Rightarrow> (Inr (), d\<lparr>wal_file := f\<rparr>)))"

function wal_scan :: "os \<Rightarrow> bytes \<Rightarrow> nat \<Rightarrow> log_entry list" where
  \<comment> \<open>the loop of \<open>replay_wal\<close>\<close>
  "wal_scan s data offset =
     (if \<not> offset < length data then []
      else if offset + 24 > length data then []
      else let index = u64_from_le (slice offset (offset + 8) data);
               t = u64_from_le (slice (offset + 8) (offset + 16) data);
               len = unat (u32_from_le (slice (offset + 16) (offset + 20) data))
           in if offset + 24 + len > length data then []
              else let command = slice (offset + 20) (offset + 20 + len) data;
                       expected_crc = u32_from_le (slice (offset + 20 + len) (offset + 24 + len) data)
                   in if crc32 s command \<noteq> expected_crc then []
                      else \<lparr>e_index = index, e_term = t, e_command = command\<rparr> # wal_scan s data (offset + 24 + len))"
  by pat_completeness auto

termination
  by (relation "measure (\<lambda>(s, data, offset). length data - offset)") (auto simp: Let_def)

declare wal_scan.simps [simp del]

definition replay_wal :: "os \<Rightarrow> durable_disk \<Rightarrow> log_entry list io" where
  "replay_wal s d =
     (case sys_read_to_end s (wal_file d) of
        None \<Rightarrow> Inl OtherError
      | Some data \<Rightarrow> Inr (wal_scan s data 0))"

definition truncate_at :: "log_index \<Rightarrow> log_entry list \<Rightarrow> log_entry list" where
  \<comment> \<open>\<open>position\<close> and \<open>truncate\<close>\<close>
  "truncate_at i es = takeWhile (\<lambda>e. \<not> e_index e \<ge> i) es"

definition dd_truncate_and_append ::
  "os \<Rightarrow> log_index \<Rightarrow> log_entry list \<Rightarrow> durable_disk \<Rightarrow> unit io \<times> durable_disk" where
  "dd_truncate_and_append s from_index es d =
     (case replay_wal s d of
        Inl err \<Rightarrow> (Inl err, d)
      | Inr replayed \<Rightarrow>
          let preserved = truncate_at from_index replayed
          in case sys_ftruncate s (wal_file d) 0 of
               None \<Rightarrow> (Inl OtherError, d)
             | Some f \<Rightarrow>
                 (case append_log_entries s preserved (d\<lparr>wal_file := f\<rparr>) of
                    (Inl err, d') \<Rightarrow> (Inl err, d')
                  | (Inr _, d') \<Rightarrow> append_log_entries s es d'))"

section \<open>The rounding\<close>

lemma rounded_size_eq:
  assumes "n + 4095 < 2 ^ 64"
  shows "unat (rounded_size (of_nat n)) = (n + 4095) div 4096 * 4096"
proof -
  let ?x = "of_nat n + 4095 :: u64"
  have x: "unat ?x = n + 4095"
    using assms by (simp add: unat_word_ariths unat_of_nat)
  have m: "4095 = (mask 12 :: u64)" by (simp add: mask_eq_exp_minus_1)
  have "and ?x (not 4095) = push_bit 12 (drop_bit 12 ?x)"
    unfolding m by (rule bit_word_eqI) (auto simp: bit_simps not_less)
  then have "unat (rounded_size (of_nat n)) = unat (push_bit 12 (drop_bit 12 ?x))"
    by (simp add: rounded_size_def sector_size_def algebra_simps)
  also have "\<dots> = (n + 4095) div 4096 * 4096 mod 2 ^ 64"
    by (simp add: push_bit_eq_mult drop_bit_eq_div unat_word_ariths(2) unat_div x)
  also have "\<dots> = (n + 4095) div 4096 * 4096"
    using assms le_less_trans [OF div_times_less_eq_dividend] by (intro mod_less) blast
  finally show ?thesis .
qed

end
