(* ===== verification/DiskSpec.thy ===== *)
theory DiskSpec
  imports DurableDisk
begin

text \<open>
  What the server's disk promises and what it delivers: the hard state round trip, the replay of the
  write-ahead log after appends, torn writes and corruption, and the effect of the padding to sectors.
\<close>

section \<open>The codec of the write-ahead log\<close>

abbreviation storable :: "log_entry list \<Rightarrow> bool" where
  \<comment> \<open>the length field has 32 bits\<close>
  "storable es \<equiv> \<forall>x \<in> set es. length (e_command x) < 2 ^ 32"

lemma length_encode_entry [simp]: "length (encode_entry s x) = 24 + length (e_command x)"
  by (simp add: encode_entry_def)

lemma encode_entries_simps [simp]:
  "encode_entries s [] = []"
  "encode_entries s (x # xs) = encode_entry s x @ encode_entries s xs"
  "encode_entries s (xs @ ys) = encode_entries s xs @ encode_entries s ys"
  by (simp_all add: encode_entries_def)

definition first_record :: "os \<Rightarrow> bytes \<Rightarrow> log_entry option" where
  \<comment> \<open>the record at the start of the data, if there is a whole one whose checksum is right\<close>
  "first_record s d =
     (let len = unat (u32_from_le (slice 16 20 d)); command = slice 20 (20 + len) d
      in if 24 + len \<le> length d \<and> crc32 s command = u32_from_le (slice (20 + len) (24 + len) d)
         then Some \<lparr>e_index = u64_from_le (slice 0 8 d), e_term = u64_from_le (slice 8 16 d), e_command = command\<rparr>
         else None)"

lemma wal_scan_first:
  "wal_scan s data offset = (case first_record s (drop offset data) of None \<Rightarrow> []
     | Some x \<Rightarrow> x # wal_scan s data (offset + 24 + length (e_command x)))"
proof -
  have shift: "slice a b (drop offset data) = slice (offset + a) (offset + b) data" for a b
    by (simp add: slice_drop)
  show ?thesis
    by (subst wal_scan.simps) (auto simp: first_record_def shift Let_def length_slice add.assoc)
qed

lemma encode_first:
  assumes "length (e_command x) < 2 ^ 32"
  shows "first_record s (encode_entry s x @ rest) = Some x"
proof -
  let ?n = "length (e_command x)"
  let ?d = "encode_entry s x @ rest"
  have n: "unat (of_nat ?n :: u32) = ?n" using assms by (simp add: unat_of_nat)
  have "slice 0 8 ?d = u64_to_le (e_index x)" "slice 8 16 ?d = u64_to_le (e_term x)"
    "slice 16 20 ?d = u32_to_le (of_nat ?n)" "slice 20 (20 + ?n) ?d = e_command x"
    "slice (20 + ?n) (24 + ?n) ?d = u32_to_le (crc32 s (e_command x))"
    by (simp_all add: slice_def encode_entry_def)
  with n show ?thesis by (simp add: first_record_def)
qed

lemma first_encode:
  assumes "first_record s d = Some x"
  shows "length (e_command x) < 2 ^ 32" "\<exists>rest. d = encode_entry s x @ rest"
proof -
  let ?len = "unat (u32_from_le (slice 16 20 d))"
  have d: "24 + ?len \<le> length d" "e_command x = slice 20 (20 + ?len) d"
    "e_index x = u64_from_le (slice 0 8 d)" "e_term x = u64_from_le (slice 8 16 d)"
    "crc32 s (e_command x) = u32_from_le (slice (20 + ?len) (24 + ?len) d)"
    using assms by (auto simp: first_record_def Let_def split: if_splits)
  note len = length_slice [of _ d]
  have n: "length (e_command x) = ?len" using d(1,2) by (simp add: len)
  then show "length (e_command x) < 2 ^ 32" using unsigned_less [of "u32_from_le (slice 16 20 d)"] by simp
  have "d = slice 0 8 d @ slice 8 16 d @ slice 16 20 d @ slice 20 (20 + ?len) d @
      slice (20 + ?len) (24 + ?len) d @ drop (24 + ?len) d"
    by (simp del: drop_drop)
  also have "\<dots> = encode_entry s x @ drop (24 + ?len) d"
    unfolding encode_entry_def n using d by (simp add: len)
  finally show "\<exists>rest. d = encode_entry s x @ rest" by blast
qed

lemma wal_scan_drop: "wal_scan s data offset = wal_scan s (drop offset data) 0"
proof (induction "length data - offset" arbitrary: data offset rule: less_induct)
  case less
  show ?case
  proof (cases "first_record s (drop offset data)")
    case (Some x)
    let ?n = "24 + length (e_command x)"
    from first_encode(2) [OF Some] obtain rest where "drop offset data = encode_entry s x @ rest" by blast
    then have "length data - offset = ?n + length rest"
      by (metis length_drop length_append length_encode_entry)
    then have "wal_scan s data (offset + ?n) = wal_scan s (drop (offset + ?n) data) 0"
      "wal_scan s (drop offset data) ?n = wal_scan s (drop ?n (drop offset data)) 0"
      by (intro less.hyps; simp)+
    with Some show ?thesis
      by (simp add: wal_scan_first [of s data offset] wal_scan_first [of s "drop offset data" 0] ac_simps)
  qed (simp add: wal_scan_first [of s data offset] wal_scan_first [of s "drop offset data" 0])
qed

lemma wal_scan_encode: "storable es \<Longrightarrow> wal_scan s (encode_entries s es @ rest) 0 = es @ wal_scan s rest 0"
proof (induction es)
  case (Cons x es)
  let ?d = "encode_entry s x @ encode_entries s es @ rest" and ?n = "24 + length (e_command x)"
  have "wal_scan s ?d 0 = x # wal_scan s ?d ?n"
    using encode_first [of x s "encode_entries s es @ rest"] Cons.prems by (simp add: wal_scan_first [of s ?d 0])
  also have "wal_scan s ?d ?n = wal_scan s (encode_entries s es @ rest) 0"
    by (simp add: wal_scan_drop [of s ?d])
  finally show ?case using Cons by simp
qed simp

lemma wal_scan_stops: "first_record s rest = None \<Longrightarrow> wal_scan s rest 0 = []"
  by (simp add: wal_scan_first)

lemma first_record_short: "length d < 24 \<Longrightarrow> first_record s d = None"
  by (simp add: first_record_def Let_def)

lemma wal_scan_sound: "\<exists>rest. data = encode_entries s (wal_scan s data 0) @ rest \<and> first_record s rest = None \<and>
    storable (wal_scan s data 0)"
proof (induction "length data" arbitrary: data rule: less_induct)
  case less
  show ?case
  proof (cases "first_record s data")
    case None
    then show ?thesis by (simp add: wal_scan_stops)
  next
    case (Some x)
    from first_encode [OF Some] obtain d where d: "length (e_command x) < 2 ^ 32" "data = encode_entry s x @ d" by blast
    then have "wal_scan s data 0 = x # wal_scan s d 0"
      using wal_scan_encode [of "[x]" s d] by simp
    with less.hyps [of d] d show ?thesis by auto
  qed
qed

lemma replay_ok: "os_ok s \<Longrightarrow> replay_wal s d = Inr es \<Longrightarrow> es = wal_scan s (wal_file d) 0"
  by (auto simp: replay_wal_def split: option.splits dest: os_okD(5))

section \<open>Appends\<close>

definition pad_size :: "nat \<Rightarrow> nat" where
  "pad_size n = (n + 4095) div 4096 * 4096 - n"

definition padding :: "os \<Rightarrow> nat \<Rightarrow> bytes" where
  \<comment> \<open>what follows a payload of that size in its buffer\<close>
  "padding s n = drop n (aligned_buffer s n)"

definition sectors :: "os \<Rightarrow> log_entry list \<Rightarrow> bytes" where
  \<comment> \<open>what one append adds to the file\<close>
  "sectors s es = (if es = [] then [] else encode_entries s es @ padding s (length (encode_entries s es)))"

abbreviation fits :: "os \<Rightarrow> log_entry list \<Rightarrow> bool" where
  "fits s es \<equiv> storable es \<and> length (encode_entries s es) + 4095 < 2 ^ 64"

lemma rounded_ge: "n \<le> (n + 4095) div 4096 * (4096 :: nat)"
  using div_mult_mod_eq [of "n + 4095" 4096] by (simp add: algebra_simps)

lemma pad_size_less: "pad_size n < 4096"
  using div_mult_mod_eq [of "n + 4095" 4096] unfolding pad_size_def by linarith

lemma pad_size_zero: "4096 dvd n \<Longrightarrow> pad_size n = 0"
  by (auto simp: pad_size_def)

lemma length_padding:
  assumes "os_ok s" and "n + 4095 < 2 ^ 64"
  shows "length (padding s n) = pad_size n" and "n \<le> length (aligned_buffer s n)"
  using assms rounded_size_eq [OF assms(2)] rounded_ge [of n]
  by (simp_all add: padding_def aligned_buffer_def os_ok_def pad_size_def)

lemma append_extends:
  assumes "os_ok s" and "append_log_entries s es d = (Inr (), d')"
  shows "wal_file d' = wal_file d @ sectors s es" and "hs_file d' = hs_file d"
proof -
  have w: "write_at f bs (length f) = f @ bs" for f bs by (simp add: write_at_def)
  have "\<exists>k f. sys_seek_end s (wal_file d) = Some k \<and>
      sys_pwrite s (wal_file d) (encode_entries s es @ padding s (length (encode_entries s es))) k = Some f \<and>
      d' = d\<lparr>wal_file := f\<rparr>" if "es \<noteq> []"
    using assms(2) that
    by (auto simp: append_log_entries_def copy_at_def padding_def Let_def split: option.splits)
  moreover note os_okD(1,3) [OF assms(1)]
  ultimately show "wal_file d' = wal_file d @ sectors s es" "hs_file d' = hs_file d"
    using assms(2) w by (cases "es = []"; force simp: sectors_def append_log_entries_def)+
qed

section \<open>A concrete system\<close>

fun crc_bits :: "nat \<Rightarrow> u32 \<Rightarrow> u32" where
  "crc_bits 0 c = c"
| "crc_bits (Suc n) c = crc_bits n (if and c 1 = 1 then xor (drop_bit 1 c) 0xEDB88320 else drop_bit 1 c)"

definition crc32_ieee :: "bytes \<Rightarrow> u32" where
  \<comment> \<open>the checksum that the \<open>crc32fast\<close> crate documents, as an instance of the parameter\<close>
  "crc32_ieee bs = not (fold (\<lambda>b c. crc_bits 8 (xor c (ucast b))) bs (-1))"

definition demo_os :: os where
  "demo_os = \<lparr>fresh_mem = (\<lambda>n. replicate n 0), crc32 = crc32_ieee, sys_pwrite = (\<lambda>f bs k. Some (write_at f bs k)),
     sys_pread = (\<lambda>f n k. Some (take n (drop k f))), sys_seek_end = (\<lambda>f. Some (length f)),
     sys_ftruncate = (\<lambda>f n. Some (take n f)), sys_read_to_end = Some\<rparr>"

lemma demo_os_ok: "os_ok demo_os" and demo_crc: "crc32 demo_os = crc32_ieee"
  by (simp_all add: os_ok_def demo_os_def)

lemma demo_append: "\<exists>d'. append_log_entries demo_os es d = (Inr (), d')"
  and demo_replay: "replay_wal demo_os d = Inr (wal_scan demo_os (wal_file d) 0)"
  and demo_truncate: "\<exists>d'. dd_truncate_and_append demo_os i es d = (Inr (), d')"
proof -
  show app: "\<exists>d'. append_log_entries demo_os es d = (Inr (), d')" for es d
    by (simp add: append_log_entries_def Let_def demo_os_def)
  show "replay_wal demo_os d = Inr (wal_scan demo_os (wal_file d) 0)"
    by (simp add: replay_wal_def demo_os_def)
  then obtain old where old: "replay_wal demo_os d = Inr old" by simp
  obtain d1 where d1: "append_log_entries demo_os (truncate_at i old) (d\<lparr>wal_file := []\<rparr>) = (Inr (), d1)"
    using app by blast
  obtain d2 where "append_log_entries demo_os es d1 = (Inr (), d2)" using app by blast
  moreover have "sys_ftruncate demo_os (wal_file d) 0 = Some []" by (simp add: demo_os_def)
  ultimately show "\<exists>d'. dd_truncate_and_append demo_os i es d = (Inr (), d')"
    using old d1 by (simp add: dd_truncate_and_append_def Let_def)
qed

section \<open>Replay\<close>

text \<open>C17: Replay is sound and maximal: what \<open>replay_wal\<close> returns is exactly the longest sequence of whole
  records with the right checksum that the file starts with, whatever follows them.\<close>

theorem replay_longest_prefix:
  assumes "os_ok s" and "replay_wal s d = Inr es"
  shows "storable es \<and> (\<exists>rest. wal_file d = encode_entries s es @ rest \<and>
    (\<forall>x tail. length (e_command x) < 2 ^ 32 \<longrightarrow> rest \<noteq> encode_entry s x @ tail))"
proof -
  from wal_scan_sound [of "wal_file d" s] obtain rest where
    *: "wal_file d = encode_entries s es @ rest" "first_record s rest = None" "storable es"
    unfolding replay_ok [OF assms] by blast
  have "rest \<noteq> encode_entry s x @ tail" if "length (e_command x) < 2 ^ 32" for x tail
    using encode_first [OF that, of s tail] *(2) by auto
  with * show ?thesis by blast
qed

definition demo_records :: "log_entry list" where
  "demo_records = [\<lparr>e_index = 1, e_term = 1, e_command = []\<rparr>, \<lparr>e_index = 2, e_term = 1, e_command = [7, 8]\<rparr>]"

definition demo_wal :: durable_disk where
  \<comment> \<open>two records, and the first bytes of a third\<close>
  "demo_wal = \<lparr>hs_file = [], wal_file = encode_entries demo_os demo_records @ [3, 0, 0]\<rparr>"

lemma demo_wal_replay: "replay_wal demo_os demo_wal = Inr demo_records"
proof -
  have "wal_scan demo_os (encode_entries demo_os demo_records @ [3, 0, 0]) 0 = demo_records"
    by (subst wal_scan_encode) (simp_all add: demo_records_def wal_scan_stops first_record_short)
  then show ?thesis by (simp add: replay_wal_def demo_os_def demo_wal_def)
qed

theorem replay_longest_prefix_witness:
  "list_all (\<lambda>x. length (e_command x) < 2 ^ 32) demo_records \<and>
   (\<exists>rest. wal_file demo_wal = encode_entries demo_os demo_records @ rest)"
  using replay_longest_prefix [OF demo_os_ok demo_wal_replay] unfolding list_all_iff by blast

lemma wal_scan_torn:
  \<comment> \<open>of the first \<open>k\<close> bytes of the records of some entries, the complete ones are read\<close>
  assumes "storable es"
  shows "\<exists>j. wal_scan s (take k (encode_entries s es)) 0 = take j es \<and> length (encode_entries s (take j es)) \<le> k \<and>
    (j < length es \<longrightarrow> k < length (encode_entries s (take (Suc j) es)))"
  using assms
proof (induction es arbitrary: k)
    case Nil
    then show ?case by (simp add: wal_scan_stops first_record_short)
  next
    case (Cons x es)
    let ?n = "24 + length (e_command x)"
    show ?case
    proof (cases "?n \<le> k")
      case True
      from Cons.IH [of "k - ?n"] Cons.prems obtain j where
        j: "wal_scan s (take (k - ?n) (encode_entries s es)) 0 = take j es" "length (encode_entries s (take j es)) \<le> k - ?n"
          "j < length es \<longrightarrow> k - ?n < length (encode_entries s (take (Suc j) es))" by auto
      have "take k (encode_entries s (x # es)) = encode_entries s [x] @ take (k - ?n) (encode_entries s es)"
        using True by simp
      then have "wal_scan s (take k (encode_entries s (x # es))) 0 = take (Suc j) (x # es)"
        using wal_scan_encode [of "[x]" s "take (k - ?n) (encode_entries s es)"] Cons.prems j(1) by simp
      with j(2,3) True show ?thesis by (intro exI [of _ "Suc j"]) auto
    next
      case False
      have "first_record s (take k (encode_entries s (x # es))) = None"
      proof (rule ccontr)
        assume "first_record s (take k (encode_entries s (x # es))) \<noteq> None"
        then obtain y rest where y: "length (e_command y) < 2 ^ 32" "take k (encode_entries s (x # es)) = encode_entry s y @ rest"
          using first_encode by blast
        let ?tail = "drop k (encode_entries s (x # es))"
        have "encode_entry s x @ encode_entries s es = encode_entry s y @ rest @ ?tail"
          using append_take_drop_id [of k "encode_entries s (x # es)"]
          unfolding y(2) unfolding encode_entries_simps append_assoc by (rule sym)
        then have "x = y" using encode_first [of x s] encode_first [OF y(1), of s "rest @ ?tail"] Cons.prems
          by (metis list.set_intros(1) option.inject)
        with arg_cong [OF y(2), of length] False show False by simp
      qed
      with False show ?thesis by (intro exI [of _ 0]) (simp add: wal_scan_stops)
    qed
  qed

text \<open>C16: A torn append loses only its tail. When a crash leaves the first \<open>k\<close> bytes of what an append was to
  add to a file, replay still starts with everything it returned before. When that file ended with a whole
  record and the tear is within the records, exactly the new entries with complete records follow, in
  order and unchanged; when the tear is in the padding behind them, all of the new entries follow, and
  then possibly what the padding reads as.\<close>

theorem torn_write_recovers:
  assumes "os_ok s" and "fits s es" and "replay_wal s d = Inr old" and "append_log_entries s es d = (Inr (), d1)"
    and torn: "wal_file d' = take (length (wal_file d) + k) (wal_file d1)" and "replay_wal s d' = Inr new"
  shows "\<exists>more. new = old @ more \<and> (wal_file d = encode_entries s old \<longrightarrow>
    (\<exists>j junk. more = take j es @ junk \<and>
      (k \<le> length (encode_entries s es) \<longrightarrow> junk = [] \<and> length (encode_entries s (take j es)) \<le> k) \<and>
      (j < length es \<longrightarrow> k < length (encode_entries s (take (Suc j) es)))))"
proof -
  from wal_scan_sound [of "wal_file d" s] obtain rest where
    d: "wal_file d = encode_entries s old @ rest" "storable old"
    unfolding replay_ok [OF assms(1,3)] by blast
  let ?n = "length (encode_entries s es)"
  have "wal_file d' = encode_entries s old @ rest @ take k (sectors s es)"
    using append_extends(1) [OF assms(1,4)] d(1) torn by simp
  then have new: "new = old @ wal_scan s (rest @ take k (sectors s es)) 0"
    using replay_ok [OF assms(1,6)] wal_scan_encode [OF d(2)] by simp
  have "\<exists>j junk. wal_scan s (take k (sectors s es)) 0 = take j es @ junk \<and>
      (k \<le> ?n \<longrightarrow> junk = [] \<and> length (encode_entries s (take j es)) \<le> k) \<and>
      (j < length es \<longrightarrow> k < length (encode_entries s (take (Suc j) es)))"
  proof (cases "k \<le> ?n")
    case True
    then have "take k (sectors s es) = take k (encode_entries s es)" by (simp add: sectors_def)
    with wal_scan_torn [of es s k] assms(2) show ?thesis by (metis append_Nil2)
  next
    case False
    then have "take k (sectors s es) = encode_entries s es @ drop ?n (take k (sectors s es))"
      by (cases "es = []") (simp_all add: sectors_def)
    then have "wal_scan s (take k (sectors s es)) 0 = es @ wal_scan s (drop ?n (take k (sectors s es))) 0"
      using wal_scan_encode [of es s "drop ?n (take k (sectors s es))"] assms(2) by simp
    with False show ?thesis by (intro exI [of _ "length es"]) auto
  qed
  with new d(1) show ?thesis by auto
qed

theorem torn_write_recovers_witness:
  "\<exists>d1. append_log_entries demo_os demo_records \<lparr>hs_file = [], wal_file = []\<rparr> = (Inr (), d1) \<and>
     replay_wal demo_os \<lparr>hs_file = [], wal_file = take 30 (wal_file d1)\<rparr> = Inr [hd demo_records]"
proof -
  let ?d = "\<lparr>hs_file = [], wal_file = []\<rparr>"
  obtain d1 where d1: "append_log_entries demo_os demo_records ?d = (Inr (), d1)" using demo_append by blast
  let ?t = "\<lparr>hs_file = [], wal_file = take 30 (wal_file d1)\<rparr>"
  have old: "replay_wal demo_os ?d = Inr []" using demo_replay [of ?d] by (simp add: wal_scan_stops first_record_short)
  have len: "length (encode_entries demo_os demo_records) = 50" "length demo_records = 2" by (simp_all add: demo_records_def)
  have f: "fits demo_os demo_records" by (simp add: demo_records_def)
  have t: "wal_file ?t = take (length (wal_file ?d) + 30) (wal_file d1)" by simp
  from torn_write_recovers [OF demo_os_ok f old d1 t demo_replay] obtain j where
    j: "wal_scan demo_os (wal_file ?t) 0 = take j demo_records"
      "length (encode_entries demo_os (take j demo_records)) \<le> 30"
      "j < 2 \<longrightarrow> 30 < length (encode_entries demo_os (take (Suc j) demo_records))"
    using len by auto
  then have "j = 1" by (cases j; cases "j - 1"; auto simp: demo_records_def)
  with j(1) d1 demo_replay [of ?t] show ?thesis by (simp add: demo_records_def)
qed

section \<open>Appending and truncating\<close>

text \<open>C26: An append never damages what was there: replay still starts with the entries it returned before.
  When the file ends with a whole record, the new entries follow them; and when their records fill
  whole sectors, nothing else does.\<close>

theorem append_then_replay:
  assumes "os_ok s" and "fits s es" and "replay_wal s d = Inr old"
    and "append_log_entries s es d = (Inr (), d')" and "replay_wal s d' = Inr new"
  shows "\<exists>more. new = old @ more \<and> (wal_file d = encode_entries s old \<longrightarrow>
    (\<exists>junk. more = es @ junk \<and> (4096 dvd length (encode_entries s es) \<longrightarrow> junk = [])))"
proof -
  from wal_scan_sound [of "wal_file d" s] obtain rest where
    d: "wal_file d = encode_entries s old @ rest" "storable old"
    unfolding replay_ok [OF assms(1,3)] by blast
  have "wal_file d' = encode_entries s old @ rest @ sectors s es"
    using append_extends(1) [OF assms(1,4)] d(1) by simp
  then have new: "new = old @ wal_scan s (rest @ sectors s es) 0"
    using replay_ok [OF assms(1,5)] wal_scan_encode [OF d(2)] by simp
  let ?p = "padding s (length (encode_entries s es))"
  have "wal_scan s (sectors s es) 0 = es @ wal_scan s (if es = [] then [] else ?p) 0"
    using wal_scan_encode [of es s ?p] assms(2) by (simp add: sectors_def wal_scan_stops first_record_short)
  moreover have "?p = []" if "4096 dvd length (encode_entries s es)"
    using length_padding(1) [OF assms(1), of "length (encode_entries s es)"] pad_size_zero [OF that] assms(2) by simp
  ultimately show ?thesis using new d(1) by (auto simp: wal_scan_stops first_record_short)
qed

definition demo_sector_entry :: log_entry where
  \<comment> \<open>an entry whose record fills a sector\<close>
  "demo_sector_entry = \<lparr>e_index = 3, e_term = 1, e_command = replicate 4072 5\<rparr>"

theorem append_then_replay_witness:
  "\<exists>d'. append_log_entries demo_os [demo_sector_entry] (demo_wal\<lparr>wal_file := encode_entries demo_os demo_records\<rparr>) = (Inr (), d') \<and>
     replay_wal demo_os d' = Inr (demo_records @ [demo_sector_entry])"
proof -
  let ?d = "demo_wal\<lparr>wal_file := encode_entries demo_os demo_records\<rparr>"
  obtain d' where d': "append_log_entries demo_os [demo_sector_entry] ?d = (Inr (), d')"
    using demo_append by blast
  note r = demo_replay
  have "wal_scan demo_os (wal_file ?d) 0 = demo_records"
    using wal_scan_encode [of demo_records demo_os "[]"]
    by (simp add: wal_scan_stops first_record_short demo_records_def)
  from append_then_replay [OF demo_os_ok _ r [of ?d] d' r, unfolded this] d' r show ?thesis
    by (simp add: demo_sector_entry_def)
qed

text \<open>\<open>truncate_and_append\<close> keeps exactly the replayed entries below the given index; the new entries
  follow them in the next replay when the kept records fill whole sectors.\<close>

theorem truncate_then_replay:
  assumes "os_ok s" and "fits s es" and "replay_wal s d = Inr old"
    and fit: "length (encode_entries s (truncate_at i old)) + 4095 < 2 ^ 64"
    and "dd_truncate_and_append s i es d = (Inr (), d')" and "replay_wal s d' = Inr new"
  shows "\<exists>more. new = truncate_at i old @ more \<and> hs_file d' = hs_file d \<and>
    (4096 dvd length (encode_entries s (truncate_at i old)) \<longrightarrow> (\<exists>junk. more = es @ junk))"
proof -
  let ?kept = "truncate_at i old"
  have "storable old" using wal_scan_sound [of "wal_file d" s] unfolding replay_ok [OF assms(1,3)] by blast
  then have kept: "storable ?kept" unfolding truncate_at_def using set_takeWhileD by fastforce
  note trunc = os_okD(4) [OF assms(1)]
  from assms(3,5) trunc obtain d1 where d1: "append_log_entries s ?kept (d\<lparr>wal_file := []\<rparr>) = (Inr (), d1)"
    "append_log_entries s es d1 = (Inr (), d')"
    by (auto simp: dd_truncate_and_append_def Let_def split: option.splits sum.splits prod.splits)
  have d': "wal_file d' = sectors s ?kept @ sectors s es" "hs_file d' = hs_file d"
    using append_extends [OF assms(1) d1(1)] append_extends [OF assms(1) d1(2)] by simp_all
  let ?p = "if ?kept = [] then [] else padding s (length (encode_entries s ?kept))"
  have "sectors s ?kept = encode_entries s ?kept @ ?p" by (simp add: sectors_def)
  then have new: "new = ?kept @ wal_scan s (?p @ sectors s es) 0"
    using replay_ok [OF assms(1,6)] wal_scan_encode [OF kept] d'(1) by simp
  have "?p = []" if "4096 dvd length (encode_entries s ?kept)"
    using length_padding(1) [OF assms(1) fit] pad_size_zero [OF that] by simp
  moreover have "\<exists>junk. wal_scan s (sectors s es) 0 = es @ junk"
    using wal_scan_encode [of es s] assms(2) by (simp add: sectors_def)
  ultimately show ?thesis using new d'(2) by auto
qed

theorem truncate_then_replay_witness:
  "\<exists>d' more. dd_truncate_and_append demo_os 2 [demo_sector_entry] demo_wal = (Inr (), d') \<and>
     replay_wal demo_os d' = Inr ([hd demo_records] @ more)"
proof -
  have kept: "truncate_at 2 demo_records = [hd demo_records]"
    by (simp add: truncate_at_def demo_records_def word_le_nat_alt)
  obtain d' where d': "dd_truncate_and_append demo_os 2 [demo_sector_entry] demo_wal = (Inr (), d')"
    using demo_truncate by blast
  note r = demo_replay
  have "length (encode_entries demo_os [hd demo_records]) + 4095 < 2 ^ 64" "fits demo_os [demo_sector_entry]"
    by (simp_all add: demo_sector_entry_def demo_records_def)
  from truncate_then_replay [OF demo_os_ok this(2) demo_wal_replay this(1) [folded kept] d' r] d' r show ?thesis
    unfolding kept by auto
qed

section \<open>The hard state\<close>

definition hs_of :: "raft_term \<Rightarrow> node_id option \<Rightarrow> raft_term \<times> node_id option" where
  \<comment> \<open>what the sector can tell apart: a vote for node 0 is no vote\<close>
  "hs_of t v = (t, if v = Some 0 then None else v)"

lemma hard_state_sector_eq:
  assumes "os_ok s"
  shows "\<exists>rest. hard_state_sector s t v =
    u64_to_le t @ u64_to_le (case v of None \<Rightarrow> 0 | Some n \<Rightarrow> n) @
    u32_to_le (crc32 s (u64_to_le t @ u64_to_le (case v of None \<Rightarrow> 0 | Some n \<Rightarrow> n))) @ rest \<and>
    length (hard_state_sector s t v) = 4096"
proof -
  have "length (aligned_buffer s sector_size) = 4096"
    using assms rounded_size_eq [of 4096] by (simp add: aligned_buffer_def sector_size_def os_ok_def)
  then show ?thesis by (simp add: hard_state_sector_def Let_def copy_at_def slice_def)
qed

lemma write_hs_file:
  assumes "os_ok s" and "dd_write_hard_state s t v d = (Inr (), d')"
  shows "hs_file d' = hard_state_sector s t v @ drop 4096 (hs_file d)" and "wal_file d' = wal_file d"
proof -
  from assms(2) obtain f where f: "sys_pwrite s (hs_file d) (hard_state_sector s t v) 0 = Some f" "d' = d\<lparr>hs_file := f\<rparr>"
    by (auto simp: dd_write_hard_state_def split: option.splits)
  have "sys_pwrite s f bs k = Some f' \<Longrightarrow> f' = write_at f bs k" for f bs k f'
    by (rule os_okD [OF assms(1)])
  from this [OF f(1)] f(2) hard_state_sector_eq [OF assms(1), of t v]
  show "hs_file d' = hard_state_sector s t v @ drop 4096 (hs_file d)" "wal_file d' = wal_file d"
    by (auto simp: write_at_def)
qed

lemma read_hs:
  assumes "os_ok s" and "dd_read_hard_state s d \<noteq> Inl OtherError"
  shows "dd_read_hard_state s d =
    (if hs_file d = [] then Inr None
     else let data = copy_at 0 (take 4096 (hs_file d)) (aligned_buffer s sector_size);
              stored = u32_from_le (slice 16 20 data); voted = u64_from_le (slice 8 16 data)
          in if crc32 s (slice 0 16 data) \<noteq> stored \<and> stored \<noteq> 0 then Inl InvalidData
             else Inr (Some (u64_from_le (slice 0 8 data), if voted = 0 then None else Some voted)))"
proof -
  from assms(2) obtain got where got: "sys_pread s (hs_file d) sector_size 0 = Some got"
    by (auto simp: dd_read_hard_state_def split: option.splits)
  have "sys_pread s f n k = Some got \<Longrightarrow> got = take n (drop k f)" for f n k got
    by (rule os_okD [OF assms(1)])
  from this [OF got] have "got = take 4096 (hs_file d)" by (simp add: sector_size_def)
  with got show ?thesis by (simp add: dd_read_hard_state_def Let_def)
qed

lemma copy_sector:
  assumes "os_ok s" and "length data = 4096"
  shows "copy_at 0 data (aligned_buffer s sector_size) = data"
  using assms rounded_size_eq [of 4096] by (simp add: copy_at_def aligned_buffer_def sector_size_def os_ok_def)

text \<open>C15: The hard state survives a crash: reading the sector after a successful write gives back the term and
  the vote, whatever was in the file before and whatever the memory of the buffers held. Only a vote for
  node 0 is read back as no vote.\<close>

theorem hard_state_roundtrip:
  assumes "os_ok s" and "dd_write_hard_state s t v d = (Inr (), d')" and "hs_file d'' = hs_file d'"
    and "dd_read_hard_state s d'' \<noteq> Inl OtherError"
  shows "dd_read_hard_state s d'' = Inr (Some (hs_of t v))"
proof -
  let ?sec = "hard_state_sector s t v" and ?v = "case v of None \<Rightarrow> 0 | Some n \<Rightarrow> n"
  obtain rest where sec: "?sec = u64_to_le t @ u64_to_le ?v @ u32_to_le (crc32 s (u64_to_le t @ u64_to_le ?v)) @ rest"
    "length ?sec = 4096"
    using hard_state_sector_eq [OF assms(1)] by blast
  have "hs_file d'' = ?sec @ drop 4096 (hs_file d)" using write_hs_file(1) [OF assms(1,2)] assms(3) by simp
  moreover have "slice 0 8 ?sec = u64_to_le t" "slice 8 16 ?sec = u64_to_le ?v" "slice 0 16 ?sec = u64_to_le t @ u64_to_le ?v"
    "slice 16 20 ?sec = u32_to_le (crc32 s (u64_to_le t @ u64_to_le ?v))"
    unfolding sec(1) by (simp_all add: slice_def)
  moreover have "?sec \<noteq> []" using sec(2) by auto
  ultimately show ?thesis
    using read_hs [OF assms(1,4)] copy_sector [OF assms(1) sec(2)] sec(2)
    by (simp add: Let_def hs_of_def split: option.splits)
qed

theorem hard_state_roundtrip_witness:
  "\<exists>d'. dd_write_hard_state demo_os 5 (Some 2) demo_wal = (Inr (), d') \<and>
     dd_read_hard_state demo_os d' = Inr (Some (5, Some 2))"
proof -
  obtain d' where d': "dd_write_hard_state demo_os 5 (Some 2) demo_wal = (Inr (), d')"
    by (simp add: dd_write_hard_state_def demo_os_def)
  have "dd_read_hard_state demo_os d' \<noteq> Inl OtherError"
    by (simp add: dd_read_hard_state_def demo_os_def Let_def)
  from hard_state_roundtrip [OF demo_os_ok d' refl this] d' show ?thesis by (simp add: hs_of_def)
qed

end
