(* ===== verification/DiskFaults.thy ===== *)
theory DiskFaults
  imports DiskSpec
begin

text \<open>
  Where the server's write-ahead log falls short of a log: the padding of a write is replayed as
  entries, the write after it is not replayed, and a rewrite that fails leaves nothing.
\<close>

definition phantom :: log_entry where
  \<comment> \<open>24 zero bytes are a record with the right checksum\<close>
  "phantom = \<lparr>e_index = 0, e_term = 0, e_command = []\<rparr>"

definition zero_memory :: "os \<Rightarrow> bool" where
  \<comment> \<open>the allocator hands out zeroed pages, and the checksum of no bytes is 0, as for CRC-32\<close>
  "zero_memory s \<longleftrightarrow> (\<forall>n. fresh_mem s n = replicate n 0) \<and> crc32 s [] = 0"

lemma encode_phantom:
  assumes "crc32 s [] = 0"
  shows "encode_entry s phantom = replicate 24 0"
proof -
  show ?thesis using assms
    by (simp add: encode_entry_def phantom_def u64_to_le_def u32_to_le_def flip: replicate_add)
qed

lemma encode_phantoms: "crc32 s [] = 0 \<Longrightarrow> encode_entries s (replicate k phantom) = replicate (k * 24) 0"
  by (induction k) (simp_all add: encode_phantom replicate_add)

lemma wal_scan_zeros:
  assumes "crc32 s [] = 0"
  shows "wal_scan s (replicate n 0 @ rest) 0 =
    replicate (n div 24) phantom @ wal_scan s (replicate (n mod 24) 0 @ rest) 0"
proof -
  have "replicate n (0 :: u8) = encode_entries s (replicate (n div 24) phantom) @ replicate (n mod 24) 0"
    by (simp add: encode_phantoms [OF assms] flip: replicate_add)
  then show ?thesis
    using wal_scan_encode [of "replicate (n div 24) phantom" s "replicate (n mod 24) 0 @ rest"]
    by (simp add: phantom_def)
qed

lemma zero_padding:
  assumes "zero_memory s" and "n + 4095 < 2 ^ 64"
  shows "padding s n = replicate (pad_size n) 0"
  using assms rounded_size_eq [OF assms(2)] by (simp add: padding_def aligned_buffer_def zero_memory_def pad_size_def)

text \<open>The padding of a write is replayed as entries: when the allocator returns zeroed memory, recovery
  after one append on an empty log returns the appended entries followed by one entry of index 0 and
  term 0 for every 24 bytes of padding.\<close>

theorem padding_becomes_entries:
  assumes "os_ok s" and "zero_memory s" and "fits s es" and "es \<noteq> []" and "wal_file d = []"
    and "append_log_entries s es d = (Inr (), d')" and "replay_wal s d' = Inr new"
  shows "new = es @ replicate (pad_size (length (encode_entries s es)) div 24) phantom"
proof -
  let ?n = "length (encode_entries s es)"
  have crc: "crc32 s [] = 0" using assms(2) by (simp add: zero_memory_def)
  have "wal_file d' = encode_entries s es @ replicate (pad_size ?n) 0"
    using append_extends(1) [OF assms(1,6)] assms(4,5) zero_padding [OF assms(2)] assms(3) by (simp add: sectors_def)
  moreover have "wal_scan s (replicate (pad_size ?n mod 24) 0) 0 = []"
    by (simp add: wal_scan_stops first_record_short)
  ultimately show ?thesis
    using replay_ok [OF assms(1,7)] wal_scan_encode [of es s "replicate (pad_size ?n) 0"] assms(3)
      wal_scan_zeros [OF crc, of "pad_size ?n" "[]"] by simp
qed

lemma demo_zero: "zero_memory demo_os"
proof -
  have "crc32_ieee [] = 0" by code_simp
  then show ?thesis by (simp add: zero_memory_def demo_os_def)
qed

definition empty_disk :: durable_disk where
  "empty_disk = \<lparr>hs_file = [], wal_file = []\<rparr>"

theorem padding_becomes_entries_witness:
  "\<exists>d'. append_log_entries demo_os demo_records empty_disk = (Inr (), d') \<and>
     replay_wal demo_os d' = Inr (demo_records @ replicate 168 phantom)"
proof -
  obtain d' where d': "append_log_entries demo_os demo_records empty_disk = (Inr (), d')" using demo_append by blast
  have "length (encode_entries demo_os demo_records) = 50" "demo_records \<noteq> []" "wal_file empty_disk = []"
    by (simp_all add: demo_records_def empty_disk_def)
  then have "fits demo_os demo_records" "pad_size (length (encode_entries demo_os demo_records)) div 24 = 168"
    by (simp_all add: demo_records_def pad_size_def)
  from padding_becomes_entries [OF demo_os_ok demo_zero this(1) \<open>demo_records \<noteq> []\<close> \<open>wal_file empty_disk = []\<close> d' demo_replay]
    this(2) d' demo_replay [of d'] show ?thesis by simp
qed

definition bare :: "log_index \<Rightarrow> log_entry" where
  \<comment> \<open>an entry of term 1 without a command\<close>
  "bare i = \<lparr>e_index = i, e_term = 1, e_command = []\<rparr>"

lemma misread_record:
  \<comment> \<open>after 16 zero bytes the index of entry 2 is read as the length of the command\<close>
  assumes "crc32 s [] = 0" and crc: "crc32 s [0, 0] = 0x41D912FF"
  shows "first_record s (replicate 16 0 @ encode_entry s (bare 2) @ rest) = None"
proof -
  have y: "encode_entry s (bare 2) = [2, 0, 0, 0] @ [0, 0] @ [0, 0, 1, 0] @ replicate 14 0"
    by (simp add: encode_entry_def bare_def assms(1) u64_to_le_def u32_to_le_def le_digits_numeral)
      (simp add: numeral_eq_Suc)
  have "slice 16 20 (replicate 16 0 @ encode_entry s (bare 2) @ rest) = [2, 0, 0, 0]"
    "slice 20 22 (replicate 16 0 @ encode_entry s (bare 2) @ rest) = [0, 0]"
    "slice 22 26 (replicate 16 0 @ encode_entry s (bare 2) @ rest) = [0, 0, 1, 0]"
    by (simp_all add: y slice_def)
  then show ?thesis by (simp add: first_record_def Let_def crc u32_from_le_def)
qed

lemma zeros_then_record:
  \<comment> \<open>after 20 to 23 zero bytes the lowest bytes of the index are read as a checksum of nothing\<close>
  assumes "crc32 s [] = 0" and r: "20 \<le> r" "r < 24" and i: "\<not> 256 dvd unat (e_index x)"
  shows "first_record s (replicate r 0 @ encode_entry s x @ rest) = None"
proof -
  let ?d = "replicate r 0 @ encode_entry s x @ rest"
  have "slice 16 20 ?d = replicate 4 0" using r by (simp add: slice_def)
  then have len: "unat (u32_from_le (slice 16 20 ?d)) = 0" by (simp add: u32_from_le_def numeral_eq_Suc)
  let ?b = "of_nat (unat (e_index x) mod 256) :: u8"
  have "unat ?b \<noteq> 0" using i by (simp add: unat_of_nat dvd_eq_mod_eq_0)
  then have b: "?b \<noteq> 0" by (metis unsigned_0)
  have "encode_entry s x = ?b # tl (encode_entry s x)"
    by (simp add: encode_entry_def u64_to_le_def le_digits_numeral)
  then have "?d = replicate r 0 @ ?b # tl (encode_entry s x) @ rest" by (metis append_Cons)
  then have d: "slice 20 24 ?d = replicate (r - 20) 0 @ take (24 - r) (?b # tl (encode_entry s x) @ rest)"
    using r by (simp only: slice_def) simp
  have "u32_from_le (slice 20 24 ?d) \<noteq> 0"
  proof
    assume "u32_from_le (slice 20 24 ?d) = 0"
    moreover have "length (slice 20 24 ?d) = 4" using r by (simp add: length_slice)
    ultimately have "slice 20 24 ?d = replicate 4 0"
      using bytes_int_inverse(2) [of "slice 20 24 ?d"] by (simp add: u32_to_le_def)
    then have "set (slice 20 24 ?d) = {0}" by simp
    moreover have "?b \<in> set (slice 20 24 ?d)" using r unfolding d by (cases "24 - r") simp_all
    ultimately show False using b by simp
  qed
  moreover have "slice 20 20 ?d = []" by (simp add: slice_def)
  ultimately show ?thesis unfolding first_record_def Let_def len by (simp add: assms(1))
qed

text \<open>C20: The second of two appends can be lost. With zeroed memory and the CRC-32 checksum, replay after two
  appends to an empty log returns the entries of the first and one phantom entry for every 24 bytes of
  its padding; the entries of the second follow only if that padding is a multiple of 24 bytes. They are
  lost when 20 to 23 bytes remain, whatever they are (unless the lowest byte of the index is 0), and when
  16 remain and the second append starts with entry 2 of term 1 without a command, as after entry 1 without
  a command.\<close>

theorem second_append_lost:
  assumes "os_ok s" and "zero_memory s" and crc: "crc32 s [0, 0] = 0x41D912FF" and "wal_file d = []"
    and es: "fits s (x # xs)" "fits s (y # ys)"
    and "append_log_entries s (x # xs) d = (Inr (), d1)" and "append_log_entries s (y # ys) d1 = (Inr (), d2)"
    and "replay_wal s d2 = Inr new"
    and p: "p = pad_size (length (encode_entries s (x # xs)))"
  shows "\<exists>more. new = (x # xs) @ replicate (p div 24) phantom @ more \<and>
    (24 dvd p \<longrightarrow> more = (y # ys) @ replicate (pad_size (length (encode_entries s (y # ys))) div 24) phantom) \<and>
    (20 \<le> p mod 24 \<and> \<not> 256 dvd unat (e_index y) \<longrightarrow> more = []) \<and>
    (p mod 24 = 16 \<and> y = bare 2 \<longrightarrow> more = [])"
proof -
  have crc0: "crc32 s [] = 0" using assms(2) by (simp add: zero_memory_def)
  let ?q = "pad_size (length (encode_entries s (y # ys)))"
  let ?second = "encode_entries s (y # ys) @ replicate ?q 0"
  have "padding s (length (encode_entries s (x # xs))) = replicate p 0"
    "padding s (length (encode_entries s (y # ys))) = replicate ?q 0"
    using zero_padding [OF assms(2)] es p by blast+
  then have "wal_file d2 = encode_entries s (x # xs) @ replicate p 0 @ ?second"
    unfolding append_extends(1) [OF assms(1,8)] append_extends(1) [OF assms(1,7)] assms(4) by (simp add: sectors_def)
  then have "new = wal_scan s (encode_entries s (x # xs) @ replicate p 0 @ ?second) 0"
    using replay_ok [OF assms(1,9)] by (simp only:)
  also have "\<dots> = (x # xs) @ wal_scan s (replicate p 0 @ ?second) 0"
    by (rule wal_scan_encode [OF conjunct1 [OF es(1)]])
  finally have "new = (x # xs) @ wal_scan s (replicate p 0 @ ?second) 0" .
  then have new: "new = (x # xs) @ replicate (p div 24) phantom @ wal_scan s (replicate (p mod 24) 0 @ ?second) 0"
    by (simp only: wal_scan_zeros [OF crc0, of p ?second])
  have "wal_scan s ?second 0 = (y # ys) @ wal_scan s (replicate ?q 0) 0"
    by (rule wal_scan_encode [OF conjunct1 [OF es(2)]])
  also have "wal_scan s (replicate ?q 0) 0 = replicate (?q div 24) phantom"
    using wal_scan_zeros [OF crc0, of ?q "[]"] by (simp add: wal_scan_stops first_record_short)
  finally have found: "wal_scan s ?second 0 = (y # ys) @ replicate (?q div 24) phantom" .
  have odd: "first_record s (replicate (p mod 24) 0 @ ?second) = None"
    if "20 \<le> p mod 24 \<and> \<not> 256 dvd unat (e_index y) \<or> p mod 24 = 16 \<and> y = bare 2"
    using that zeros_then_record [OF crc0, of "p mod 24" y] misread_record [OF crc0 crc] by auto
  show ?thesis
  proof (intro exI [of _ "wal_scan s (replicate (p mod 24) 0 @ ?second) 0"] conjI impI)
    show "new = (x # xs) @ replicate (p div 24) phantom @ wal_scan s (replicate (p mod 24) 0 @ ?second) 0" by (rule new)
    show "wal_scan s (replicate (p mod 24) 0 @ ?second) 0 = (y # ys) @ replicate (?q div 24) phantom" if "24 dvd p"
      using found that by (simp only: dvd_imp_mod_0 replicate_0 append_Nil)
  qed (use wal_scan_stops [OF odd] in blast)+
qed

theorem second_append_lost_witness:
  "\<exists>d1 d2. append_log_entries demo_os [bare 1] empty_disk = (Inr (), d1) \<and>
     append_log_entries demo_os [bare 2] d1 = (Inr (), d2) \<and>
     replay_wal demo_os d2 = Inr (bare 1 # replicate 169 phantom)"
proof -
  have crc: "crc32 demo_os [0, 0] = 0x41D912FF" unfolding demo_crc by code_simp
  have e: "wal_file empty_disk = []" by (simp add: empty_disk_def)
  have p: "4072 = pad_size (length (encode_entries demo_os [bare 1]))" by (simp add: bare_def pad_size_def)
  have f: "fits demo_os [bare i]" for i by (simp add: bare_def)
  obtain d1 where d1: "append_log_entries demo_os [bare 1] empty_disk = (Inr (), d1)" using demo_append by blast
  obtain d2 where d2: "append_log_entries demo_os [bare 2] d1 = (Inr (), d2)" using demo_append by blast
  from second_append_lost [OF demo_os_ok demo_zero crc e f f d1 d2 demo_replay p] d1 d2 demo_replay [of d2]
  show ?thesis by auto
qed

text \<open>C36: A rewrite is not atomic: \<open>truncate_and_append\<close> empties the file before it writes, so when the write
  fails (or the server crashes before it) the whole log is gone, also the entries below the given index.\<close>

theorem failed_rewrite_loses_log:
  assumes "os_ok s" and "replay_wal s d = Inr old" and "sys_ftruncate s (wal_file d) 0 \<noteq> None"
    and "\<forall>bs. sys_pwrite s [] bs 0 = None" and "truncate_at i old \<noteq> [] \<or> es \<noteq> []"
  shows "\<exists>d'. dd_truncate_and_append s i es d = (Inl OtherError, d') \<and> wal_file d' = []"
proof -
  have "sys_ftruncate s (wal_file d) 0 = Some []"
    using os_okD(4) [OF assms(1)] assms(3) by auto
  moreover have "append_log_entries s xs (d\<lparr>wal_file := []\<rparr>) =
      (if xs = [] then Inr () else Inl OtherError, d\<lparr>wal_file := []\<rparr>)" for xs
  proof -
    have "sys_seek_end s [] \<in> {None, Some 0}" using os_okD(3) [OF assms(1), of "[]"] by (cases "sys_seek_end s []") auto
    with assms(4) show ?thesis by (auto simp: append_log_entries_def Let_def)
  qed
  ultimately show ?thesis
    using assms(2,5) by (auto simp: dd_truncate_and_append_def Let_def)
qed

theorem failed_rewrite_loses_log_witness:
  "\<exists>d'. dd_truncate_and_append (demo_os\<lparr>sys_pwrite := \<lambda>f bs k. None\<rparr>) 2 [] demo_wal = (Inl OtherError, d') \<and>
     wal_file d' = []"
proof -
  let ?s = "demo_os\<lparr>sys_pwrite := \<lambda>f bs k. None\<rparr>"
  have ok: "os_ok ?s" by (simp add: os_ok_def demo_os_def)
  have r: "replay_wal ?s demo_wal = Inr (wal_scan ?s (wal_file demo_wal) 0)"
    by (simp add: replay_wal_def demo_os_def)
  have first: "first_record ?s (wal_file demo_wal) = Some (hd demo_records)"
    using encode_first [of "hd demo_records" ?s]
    by (simp add: demo_wal_def demo_records_def encode_entries_def encode_entry_def demo_os_def)
  then have "truncate_at 2 (wal_scan ?s (wal_file demo_wal) 0) \<noteq> []"
    by (simp add: wal_scan_first truncate_at_def demo_records_def word_le_nat_alt)
  from failed_rewrite_loses_log [OF ok r] this show ?thesis by (simp add: demo_os_def)
qed

end
