(* ===== verification/Codec.thy ===== *)
theory Codec
  imports Bytes
begin

text \<open>
  \<open>raft-server/src/codec.rs\<close>: messages framed by their length on a TCP stream. A stream is what the
  program sees of it: the bytes that have arrived, whether the other side has closed it, the bytes the
  kernel has taken for sending and the room left for more. The \<open>bincode\<close> crate is a parameter.
\<close>

section \<open>Streams\<close>

record tcp_stream =
  rx :: bytes            \<comment> \<open>arrived and not read yet\<close>
  rx_closed :: bool
  tx :: bytes            \<comment> \<open>accepted for sending, since the stream was opened\<close>
  tx_free :: nat         \<comment> \<open>room in the send buffer\<close>
  tx_broken :: bool

definition read_exact :: "nat \<Rightarrow> tcp_stream \<Rightarrow> bytes io \<times> tcp_stream" where
  \<comment> \<open>on a non-blocking stream: when too little has arrived, what has is consumed and lost\<close>
  "read_exact n s =
     (if n \<le> length (rx s) then (Inr (take n (rx s)), s\<lparr>rx := drop n (rx s)\<rparr>)
      else (Inl (if rx_closed s then UnexpectedEof else WouldBlock), s\<lparr>rx := []\<rparr>))"

definition write_all :: "bytes \<Rightarrow> tcp_stream \<Rightarrow> unit io \<times> tcp_stream" where
  "write_all bs s =
     (if bs = [] then (Inr (), s)
      else if tx_broken s then (Inl OtherError, s)
      else if length bs \<le> tx_free s then (Inr (), s\<lparr>tx := tx s @ bs, tx_free := tx_free s - length bs\<rparr>)
      else (Inl WouldBlock, s\<lparr>tx := tx s @ take (tx_free s) bs, tx_free := 0\<rparr>))"

section \<open>Framing\<close>

record bincode =
  serialize :: "message \<Rightarrow> bytes option"
  deserialize :: "bytes \<Rightarrow> message option"

definition bincode_ok :: "bincode \<Rightarrow> bool" where
  \<comment> \<open>the documented round trip of the crate\<close>
  "bincode_ok c \<longleftrightarrow> (\<forall>m bs. serialize c m = Some bs \<longrightarrow> deserialize c bs = Some m)"

definition send_framed_msg :: "bincode \<Rightarrow> message \<Rightarrow> tcp_stream \<Rightarrow> unit io \<times> tcp_stream" where
  "send_framed_msg c m s =
     (case serialize c m of
        None \<Rightarrow> (Inl InvalidData, s)
      | Some payload \<Rightarrow>
          let len = (of_nat (length payload) :: u32)
          in case write_all (u32_to_be len) s of
               (Inl err, s1) \<Rightarrow> (Inl err, s1)
             | (Inr _, s1) \<Rightarrow> write_all payload s1)"

definition recv_framed_msg :: "bincode \<Rightarrow> tcp_stream \<Rightarrow> message io \<times> tcp_stream" where
  "recv_framed_msg c s =
     (case read_exact 4 s of
        (Inl err, s1) \<Rightarrow> (Inl err, s1)
      | (Inr len_bytes, s1) \<Rightarrow>
          (case read_exact (unat (u32_from_be len_bytes)) s1 of
             (Inl err, s2) \<Rightarrow> (Inl err, s2)
           | (Inr payload, s2) \<Rightarrow>
               (case deserialize c payload of None \<Rightarrow> (Inl InvalidData, s2) | Some m \<Rightarrow> (Inr m, s2))))"

section \<open>Sequences of frames\<close>

definition frame :: "bincode \<Rightarrow> message \<Rightarrow> bytes" where
  \<comment> \<open>the bytes of a message on the stream\<close>
  "frame c m = u32_to_be (of_nat (length (the (serialize c m)))) @ the (serialize c m)"

definition sendable :: "bincode \<Rightarrow> message \<Rightarrow> bool" where
  "sendable c m \<longleftrightarrow> (\<exists>bs. serialize c m = Some bs \<and> length bs < 2 ^ 32)"

fun send_msgs :: "bincode \<Rightarrow> message list \<Rightarrow> tcp_stream \<Rightarrow> tcp_stream option" where
  \<comment> \<open>all messages sent in order without an error\<close>
  "send_msgs c [] s = Some s"
| "send_msgs c (m # ms) s =
     (case send_framed_msg c m s of (Inl err, _) \<Rightarrow> None | (Inr _, s1) \<Rightarrow> send_msgs c ms s1)"

fun recv_msgs :: "bincode \<Rightarrow> nat \<Rightarrow> tcp_stream \<Rightarrow> (message list \<times> tcp_stream) option" where
  "recv_msgs c 0 s = Some ([], s)"
| "recv_msgs c (Suc n) s =
     (case recv_framed_msg c s of
        (Inl err, _) \<Rightarrow> None
      | (Inr m, s1) \<Rightarrow> (case recv_msgs c n s1 of None \<Rightarrow> None | Some (ms, s2) \<Rightarrow> Some (m # ms, s2)))"

lemma write_all_tx: "write_all bs s = (Inr (), s') \<Longrightarrow> tx s' = tx s @ bs"
  by (auto simp: write_all_def split: if_splits)

lemma send_framed_tx: "send_framed_msg c m s = (Inr (), s') \<Longrightarrow> tx s' = tx s @ frame c m"
  by (auto simp: send_framed_msg_def frame_def Let_def dest!: write_all_tx split: option.splits prod.splits sum.splits)

lemma send_msgs_tx: "send_msgs c ms s = Some s' \<Longrightarrow> tx s' = tx s @ concat (map (frame c) ms)"
proof (induction ms arbitrary: s)
  case (Cons m ms)
  then obtain s1 where "send_framed_msg c m s = (Inr (), s1)" "send_msgs c ms s1 = Some s'"
    by (auto split: prod.splits sum.splits)
  with Cons.IH send_framed_tx show ?case by fastforce
qed simp

lemma recv_frame:
  assumes "bincode_ok c" and "sendable c m" and "rx s = frame c m @ tail"
  shows "recv_framed_msg c s = (Inr m, s\<lparr>rx := tail\<rparr>)"
proof -
  from assms(2) obtain bs where bs: "serialize c m = Some bs" "length bs < 2 ^ 32" by (auto simp: sendable_def)
  then have "deserialize c bs = Some m" "unat (of_nat (length bs) :: u32) = length bs"
    using assms(1) by (auto simp: bincode_ok_def unat_of_nat)
  with bs assms(3) show ?thesis by (simp add: recv_framed_msg_def read_exact_def frame_def)
qed

lemma recv_frames:
  "bincode_ok c \<Longrightarrow> \<forall>m \<in> set ms. sendable c m \<Longrightarrow> rx s = concat (map (frame c) ms) @ tail \<Longrightarrow>
    recv_msgs c (length ms) s = Some (ms, s\<lparr>rx := tail\<rparr>)"
proof (induction ms arbitrary: s)
  case (Cons m ms)
  have "recv_framed_msg c s = (Inr m, s\<lparr>rx := concat (map (frame c) ms) @ tail\<rparr>)"
    using Cons.prems by (intro recv_frame) simp_all
  with Cons.IH [of "s\<lparr>rx := concat (map (frame c) ms) @ tail\<rparr>"] Cons.prems show ?case by simp
qed simp

text \<open>C19: The framing is faithful: when messages have been sent without an error and their bytes have
  arrived, whatever follows them, the receiver reads back exactly these messages, in order, and leaves
  the rest of the stream untouched.\<close>

theorem framing_roundtrip:
  assumes "bincode_ok c" and "\<forall>m \<in> set ms. sendable c m" and "send_msgs c ms s = Some s'"
    and "rx r = drop (length (tx s)) (tx s') @ tail"
  shows "recv_msgs c (length ms) r = Some (ms, r\<lparr>rx := tail\<rparr>)"
  using recv_frames [OF assms(1,2)] send_msgs_tx [OF assms(3)] assms(4) by simp

definition demo_bincode :: bincode where
  \<comment> \<open>a code for two of the messages\<close>
  "demo_bincode =
     \<lparr>serialize = (\<lambda>m. case msg_kind m of
        InstallSnapshotResponse \<Rightarrow> Some (u64_to_le (msg_from m) @ u64_to_le (msg_to m) @ u64_to_le (msg_term m))
      | ClientRequest cmd \<Rightarrow> Some (u64_to_le (msg_from m) @ u64_to_le (msg_to m) @ u64_to_le (msg_term m) @ [1] @ cmd)
      | _ \<Rightarrow> None),
      deserialize = (\<lambda>bs. Some \<lparr>msg_from = u64_from_le (take 8 bs), msg_to = u64_from_le (take 8 (drop 8 bs)),
        msg_term = u64_from_le (take 8 (drop 16 bs)),
        msg_kind = (if length bs = 24 then InstallSnapshotResponse else ClientRequest (drop 25 bs))\<rparr>)\<rparr>"

definition demo_request :: message where
  "demo_request = \<lparr>msg_from = 999, msg_to = 0, msg_term = 0, msg_kind = ClientRequest [104, 105]\<rparr>"

definition demo_stream :: tcp_stream where
  "demo_stream = \<lparr>rx = [], rx_closed = False, tx = [], tx_free = 100, tx_broken = False\<rparr>"

lemma demo_bincode_ok: "bincode_ok demo_bincode" and demo_sendable: "sendable demo_bincode demo_request"
  by (auto simp: bincode_ok_def demo_bincode_def sendable_def demo_request_def split: message_kind.splits)

theorem framing_roundtrip_witness:
  "\<exists>s'. send_msgs demo_bincode [demo_request, demo_request] demo_stream = Some s' \<and>
     recv_msgs demo_bincode 2 (demo_stream\<lparr>rx := tx s'\<rparr>) = Some ([demo_request, demo_request], demo_stream\<lparr>rx := []\<rparr>)"
proof -
  have "send_msgs demo_bincode [demo_request, demo_request] demo_stream \<noteq> None" by code_simp
  then obtain s' where s': "send_msgs demo_bincode [demo_request, demo_request] demo_stream = Some s'" by auto
  have "\<forall>m \<in> set [demo_request, demo_request]. sendable demo_bincode m"
    "rx (demo_stream\<lparr>rx := tx s'\<rparr>) = drop (length (tx demo_stream)) (tx s') @ []"
    using demo_sendable by (simp_all add: demo_stream_def)
  from framing_roundtrip [OF demo_bincode_ok this(1) s' this(2)] s' show ?thesis by (simp add: numeral_2_eq_2)
qed

text \<open>C37: A frame that arrives in two parts is lost: when only a part of it is there, the receiver reports
  \<open>WouldBlock\<close>, which the server takes for "nothing yet", but the bytes it has read are gone, so that the
  rest of the frame will be read as the start of the next.\<close>

theorem split_frame_lost:
  assumes "sendable c m" and "frame c m = part @ rest" and "rest \<noteq> []" and "rx s = part" and "\<not> rx_closed s"
  shows "recv_framed_msg c s = (Inl WouldBlock, s\<lparr>rx := []\<rparr>)"
proof (cases "length part < 4")
  case True
  with assms(4,5) show ?thesis by (simp add: recv_framed_msg_def read_exact_def)
next
  case False
  from assms(1) obtain bs where bs: "serialize c m = Some bs" "length bs < 2 ^ 32" by (auto simp: sendable_def)
  have "take 4 part = u32_to_be (of_nat (length bs))"
    using False arg_cong [OF assms(2), of "take 4"] bs(1) by (simp add: frame_def)
  moreover have len: "length part < 4 + length bs"
    using arg_cong [OF assms(2), of length] assms(3) bs(1) by (auto simp: frame_def simp flip: length_greater_0_conv)
  moreover have "\<not> length bs \<le> length part - 4" using len False by linarith
  ultimately show ?thesis
    using False assms(4,5) bs(2) by (simp add: recv_framed_msg_def read_exact_def unat_of_nat)
qed

theorem split_frame_lost_witness:
  "recv_framed_msg demo_bincode (demo_stream\<lparr>rx := take 10 (frame demo_bincode demo_request)\<rparr>) =
     (Inl WouldBlock, demo_stream)"
proof -
  have "drop 10 (frame demo_bincode demo_request) \<noteq> []" by code_simp
  from split_frame_lost [OF demo_sendable _ this, of "take 10 (frame demo_bincode demo_request)"
      "demo_stream\<lparr>rx := take 10 (frame demo_bincode demo_request)\<rparr>"]
  show ?thesis by (simp add: demo_stream_def)
qed

end
