(* ===== verification/Server.thy ===== *)
theory Server
  imports Node DurableDisk Codec
begin

text \<open>
  \<open>raft-server/src/main.rs\<close>: the start of a server, its recovery from the disk, the execution of a
  node's actions on disk and sockets, and one iteration of the main loop. What one iteration finds
  (a connection to accept, the clock, the peers that can be reached) is its input. The iteration order
  of a \<open>HashMap\<close> is a parameter. Messages printed to the console are left out.
\<close>

section \<open>The command line\<close>

fun digits_value :: "nat \<Rightarrow> string \<Rightarrow> nat option" where
  "digits_value acc [] = Some acc"
| "digits_value acc (c # cs) =
     (if 48 \<le> (of_char c :: nat) \<and> (of_char c :: nat) \<le> 57
      then digits_value (acc * 10 + (of_char c - 48)) cs else None)"

definition parse_u64 :: "string \<Rightarrow> u64 option" where
  \<comment> \<open>\<open>str::parse::<u64>\<close>: a sign \<open>+\<close> is allowed, no digit and overflow are errors\<close>
  "parse_u64 s =
     (let ds = (if s \<noteq> [] \<and> hd s = CHR ''+'' then tl s else s)
      in if ds = [] then None
         else case digits_value 0 ds of
                None \<Rightarrow> None
              | Some v \<Rightarrow> if v < 2 ^ 64 then Some (of_nat v) else None)"

fun split_on :: "char \<Rightarrow> string \<Rightarrow> string list" where
  "split_on x [] = [[]]"
| "split_on x (c # cs) =
     (if c = x then [] # split_on x cs
      else case split_on x cs of [] \<Rightarrow> [[c]] | p # ps \<Rightarrow> (c # p) # ps)"

definition assoc_insert :: "'k \<Rightarrow> 'v \<Rightarrow> ('k \<times> 'v) list \<Rightarrow> ('k \<times> 'v) list" where
  \<comment> \<open>\<open>HashMap::insert\<close>\<close>
  "assoc_insert k v xs =
     (if map_of xs k = None then xs @ [(k, v)] else map (\<lambda>(k', v'). (k', if k' = k then v else v')) xs)"

definition assoc_remove :: "'k \<Rightarrow> ('k \<times> 'v) list \<Rightarrow> ('k \<times> 'v) list" where
  \<comment> \<open>\<open>HashMap::remove\<close>\<close>
  "assoc_remove k xs = filter (\<lambda>(k', _). k' \<noteq> k) xs"

fun parse_peers :: "string list \<Rightarrow> (node_id \<times> string) list \<Rightarrow> (node_id \<times> string) list option" where
  \<comment> \<open>the loop over \<open>args[3..]\<close>: a number that does not parse and a missing \<open>=\<close> panic\<close>
  "parse_peers [] addrs = Some addrs"
| "parse_peers (arg # args) addrs = do {
     let parts = split_on (CHR ''='') arg;
     p0 \<leftarrow> vec_index parts 0;
     pid \<leftarrow> parse_u64 p0;
     addr \<leftarrow> vec_index parts 1;
     parse_peers args (assoc_insert pid addr addrs)
   }"

section \<open>The state of a server\<close>

record 'r server_env =
  s_core :: "'r env"
  s_os :: os
  s_code :: bincode
  hash_order :: "node_id list \<Rightarrow> node_id list"   \<comment> \<open>the iteration order of a \<open>HashMap\<close> with these keys\<close>

record 'r server =
  srv_node :: "'r raft_node"
  srv_disk :: durable_disk
  srv_addrs :: "(node_id \<times> string) list"
  srv_conns :: "(node_id \<times> tcp_stream) list"
  srv_clients :: "tcp_stream list"

datatype 'a start =
    Usage
  | Panics
  | Fails io_error
  | Starts 'a

definition server_boot :: "'r server_env \<Rightarrow> u64 \<Rightarrow> node_id list \<Rightarrow> node_id \<Rightarrow> durable_disk \<Rightarrow> 'r raft_node start" where
  \<comment> \<open>recovery: the hard state, the log and the configuration\<close>
  "server_boot e seed peer_ids i disk =
     (case dd_read_hard_state (s_os e) disk of
        Inl err \<Rightarrow> Fails err
      | Inr hs \<Rightarrow>
          let (recovered_term, recovered_vote) = (case hs of None \<Rightarrow> (term_zero, None) | Some tv \<Rightarrow> tv)
          in case replay_wal (s_os e) disk of
               Inl err \<Rightarrow> Fails err
             | Inr replayed_entries \<Rightarrow>
                 let reconstructed_log = log_restore
                       \<lparr>last_included_index = sentinel_index, last_included_term = term_zero\<rparr> replayed_entries;
                     cfg = \<lparr>cfg_id = i, cfg_peers = hash_order e peer_ids, cfg_election_timeout_ticks = 15,
                       cfg_heartbeat_interval_ticks = 3, cfg_rng_seed = seed\<rparr>
                 in case node_restore (s_core e) cfg recovered_term recovered_vote reconstructed_log
                      sentinel_index sentinel_index of
                      None \<Rightarrow> Panics
                    | Some n \<Rightarrow> Starts n)"

definition server_main ::
  "'r server_env \<Rightarrow> u64 \<Rightarrow> durable_disk io \<Rightarrow> (string \<Rightarrow> bool) \<Rightarrow> string list \<Rightarrow> 'r server start" where
  \<comment> \<open>\<open>main\<close> up to the loop; \<open>opened\<close> is the result of \<open>dd_open\<close>, \<open>can_bind\<close> of \<open>TcpListener::bind\<close>\<close>
  "server_main e seed opened can_bind args =
     (if length args < 4 then Usage
      else case parse_u64 (args ! 1) of
        None \<Rightarrow> Panics
      | Some i \<Rightarrow>
          (case parse_peers (drop 3 args) [] of
             None \<Rightarrow> Panics
           | Some peer_addresses \<Rightarrow>
               (case opened of
                  Inl err \<Rightarrow> Fails err
                | Inr disk \<Rightarrow>
                    (case server_boot e seed (map fst peer_addresses) i disk of
                       Usage \<Rightarrow> Usage
                     | Panics \<Rightarrow> Panics
                     | Fails err \<Rightarrow> Fails err
                     | Starts n \<Rightarrow>
                         (case map_of peer_addresses i of
                            None \<Rightarrow> Panics
                          | Some self_addr \<Rightarrow>
                              if can_bind self_addr
                              then Starts \<lparr>srv_node = n, srv_disk = disk, srv_addrs = assoc_remove i peer_addresses,
                                srv_conns = [], srv_clients = []\<rparr>
                              else Fails OtherError)))))"

section \<open>Actions\<close>

fun unwrap :: "unit io \<times> 'd \<Rightarrow> 'd option" where
  \<comment> \<open>\<open>unwrap\<close> on the result of a disk operation\<close>
  "unwrap (Inl _, d) = None"
| "unwrap (Inr _, d) = Some d"

fun server_exec :: "os \<Rightarrow> action \<Rightarrow> durable_disk \<Rightarrow> durable_disk option" where
  \<comment> \<open>the disk operation of each arm of \<open>process_actions\<close>\<close>
  "server_exec s (Send _) d = Some d"
| "server_exec s (AppendToLog es) d = unwrap (append_log_entries s es d)"
| "server_exec s (TruncateAndAppend from_index es) d = unwrap (dd_truncate_and_append s from_index es d)"
| "server_exec s (PersistHardState t v) d = unwrap (dd_write_hard_state s t v d)"
| "server_exec s (Apply _) d = Some d"
| "server_exec s (PersistSnapshot _ _ _) d = Some d"

definition client_node :: node_id where
  "client_node = 999"

type_synonym sockets = "(node_id \<times> tcp_stream) list \<times> tcp_stream option"

definition send_msg ::
  "'r server_env \<Rightarrow> (string \<Rightarrow> tcp_stream option) \<Rightarrow> (node_id \<times> string) list \<Rightarrow> message \<Rightarrow> sockets \<Rightarrow> sockets" where
  \<comment> \<open>the arm \<open>Action::Send\<close>; errors of the socket are dropped\<close>
  "send_msg e connect peer_addrs m = (\<lambda>(conns, client_stream).
     let to_id = msg_to m in
     if to_id = client_node
     then (case client_stream of
             None \<Rightarrow> (conns, None)
           | Some c_stream \<Rightarrow> (conns, Some (snd (send_framed_msg (s_code e) m c_stream))))
     else case map_of conns to_id of
       Some stream \<Rightarrow> (assoc_insert to_id (snd (send_framed_msg (s_code e) m stream)) conns, client_stream)
     | None \<Rightarrow>
         (case map_of peer_addrs to_id of
            None \<Rightarrow> (conns, client_stream)
          | Some addr \<Rightarrow>
              (case connect addr of
                 None \<Rightarrow> (conns, client_stream)
               | Some stream \<Rightarrow> (assoc_insert to_id (snd (send_framed_msg (s_code e) m stream)) conns, client_stream))))"

fun server_actions ::
  "'r server_env \<Rightarrow> (string \<Rightarrow> tcp_stream option) \<Rightarrow> (node_id \<times> string) list \<Rightarrow> action list \<Rightarrow>
     sockets \<times> durable_disk \<Rightarrow> (sockets \<times> durable_disk) option" where
  "server_actions e connect peer_addrs [] (socks, disk) = Some (socks, disk)"
| "server_actions e connect peer_addrs (a # as) (socks, disk) = do {
     disk' \<leftarrow> server_exec (s_os e) a disk;
     let socks' = (case a of Send m \<Rightarrow> send_msg e connect peer_addrs m socks | _ \<Rightarrow> socks);
     server_actions e connect peer_addrs as (socks', disk')
   }"

section \<open>The main loop\<close>

record inputs =
  accepted :: "tcp_stream option"
  tick_due :: bool
  connect :: "string \<Rightarrow> tcp_stream option"

definition on_server ::
  "'r server_env \<Rightarrow> inputs \<Rightarrow> ('r raft_node \<Rightarrow> 'r outcome option) \<Rightarrow> tcp_stream option \<Rightarrow> 'r server \<Rightarrow>
     ('r server \<times> tcp_stream option) option" where
  \<comment> \<open>a call of the node and \<open>process_actions\<close> on what it returns\<close>
  "on_server e inp f client srv = do {
     (n, actions) \<leftarrow> f (srv_node srv);
     ((conns, client'), disk) \<leftarrow> server_actions e (connect inp) (srv_addrs srv) actions ((srv_conns srv, client), srv_disk srv);
     Some (srv\<lparr>srv_node := n, srv_conns := conns, srv_disk := disk\<rparr>, client')
   }"

definition accept_client :: "inputs \<Rightarrow> 'r server \<Rightarrow> 'r server" where
  "accept_client inp srv =
     (case accepted inp of None \<Rightarrow> srv | Some stream \<Rightarrow> srv\<lparr>srv_clients := srv_clients srv @ [stream]\<rparr>)"

definition drive_clock :: "'r server_env \<Rightarrow> inputs \<Rightarrow> 'r server \<Rightarrow> 'r server option" where
  "drive_clock e inp srv =
     (if tick_due inp then map_option fst (on_server e inp (tick (s_core e)) None srv) else Some srv)"

fun connect_peers :: "inputs \<Rightarrow> node_id list \<Rightarrow> 'r server \<Rightarrow> 'r server" where
  "connect_peers inp [] srv = srv"
| "connect_peers inp (p # ps) srv =
     connect_peers inp ps
       (case map_of (srv_conns srv) p of
          Some _ \<Rightarrow> srv
        | None \<Rightarrow>
            (case Option.bind (map_of (srv_addrs srv) p) (connect inp) of
               None \<Rightarrow> srv
             | Some stream \<Rightarrow> srv\<lparr>srv_conns := assoc_insert p stream (srv_conns srv)\<rparr>))"

fun poll_peers :: "'r server_env \<Rightarrow> inputs \<Rightarrow> node_id list \<Rightarrow> 'r server \<Rightarrow> 'r server option" where
  "poll_peers e inp [] srv = Some srv"
| "poll_peers e inp (p # ps) srv = do {
     srv' \<leftarrow>
       (case map_of (srv_conns srv) p of
          None \<Rightarrow> Some srv
        | Some stream \<Rightarrow>
            (case recv_framed_msg (s_code e) stream of
               (Inr msg, stream') \<Rightarrow>
                 map_option fst (on_server e inp (step (s_core e) msg) None
                   (srv\<lparr>srv_conns := assoc_insert p stream' (srv_conns srv)\<rparr>))
             | (Inl WouldBlock, stream') \<Rightarrow> Some (srv\<lparr>srv_conns := assoc_insert p stream' (srv_conns srv)\<rparr>)
             | (Inl _, _) \<Rightarrow> Some (srv\<lparr>srv_conns := assoc_remove p (srv_conns srv)\<rparr>)));
     poll_peers e inp ps srv'
   }"

fun poll_clients :: "'r server_env \<Rightarrow> inputs \<Rightarrow> nat list \<Rightarrow> nat list \<Rightarrow> 'r server \<Rightarrow> ('r server \<times> nat list) option" where
  "poll_clients e inp [] closed srv = Some (srv, closed)"
| "poll_clients e inp (idx # idxs) closed srv =
     (case recv_framed_msg (s_code e) (srv_clients srv ! idx) of
        (Inr msg, stream') \<Rightarrow> do {
          (srv', c) \<leftarrow> on_server e inp (step (s_core e) msg) (Some stream') srv;
          poll_clients e inp idxs closed
            (srv'\<lparr>srv_clients := (srv_clients srv')[idx := (case c of None \<Rightarrow> stream' | Some s \<Rightarrow> s)]\<rparr>)
        }
      | (Inl WouldBlock, stream') \<Rightarrow>
          poll_clients e inp idxs closed (srv\<lparr>srv_clients := (srv_clients srv)[idx := stream']\<rparr>)
      | (Inl _, stream') \<Rightarrow>
          poll_clients e inp idxs (closed @ [idx]) (srv\<lparr>srv_clients := (srv_clients srv)[idx := stream']\<rparr>))"

definition swap_remove :: "nat \<Rightarrow> 'a list \<Rightarrow> 'a list" where
  "swap_remove i xs = butlast (xs[i := last xs])"

definition server_loop :: "'r server_env \<Rightarrow> inputs \<Rightarrow> 'r server \<Rightarrow> 'r server option" where
  \<comment> \<open>one iteration\<close>
  "server_loop e inp srv = do {
     srv1 \<leftarrow> drive_clock e inp (accept_client inp srv);
     let srv2 = connect_peers inp (hash_order e (map fst (srv_addrs srv1))) srv1;
     srv3 \<leftarrow> poll_peers e inp (hash_order e (map fst (srv_conns srv2))) srv2;
     (srv4, closed) \<leftarrow> poll_clients e inp [0 ..< length (srv_clients srv3)] [] srv3;
     Some (srv4\<lparr>srv_clients := fold swap_remove (rev closed) (srv_clients srv4)\<rparr>)
   }"

end
