(* ===== verification/ServerLoop.thy ===== *)
theory ServerLoop
  imports "HOL-Library.Multiset" Server DiskSpec Cluster DemoNode
begin

text \<open>
  The server's main loop runs the node: one iteration is a list of events, fixed by the clock and by what
  has arrived on the streams, whose actions reach the disk one after the other. The work is to show that
  sending does not disturb what the streams have still to deliver.
\<close>

section \<open>Events and their actions on the disk\<close>

fun exec_actions :: "os \<Rightarrow> action list \<Rightarrow> durable_disk \<Rightarrow> durable_disk option" where
  "exec_actions s [] d = Some d"
| "exec_actions s (a # as) d = do { d' \<leftarrow> server_exec s a d; exec_actions s as d' }"

fun run_events :: "'r env \<Rightarrow> os \<Rightarrow> event list \<Rightarrow> 'r raft_node \<times> durable_disk \<Rightarrow> ('r raft_node \<times> durable_disk) option" where
  \<comment> \<open>events of a node, the actions of each performed on the disk\<close>
  "run_events e s [] (n, d) = Some (n, d)"
| "run_events e s (ev # evs) (n, d) = do {
     (n', acts) \<leftarrow> run_event e ev n;
     d' \<leftarrow> exec_actions s acts d;
     run_events e s evs (n', d')
   }"

lemma run_events_append:
  "run_events e s evs x = Some y \<Longrightarrow> run_events e s evs' y = Some z \<Longrightarrow> run_events e s (evs @ evs') x = Some z"
  by (induction e s evs x rule: run_events.induct) (auto simp: bind_eq_Some_conv)

lemma server_actions_disk:
  "server_actions e conn addrs acts (socks, d) = Some (socks', d') \<Longrightarrow> exec_actions (s_os e) acts d = Some d'"
proof (induction acts arbitrary: socks d)
  case (Cons a acts)
  from Cons.prems obtain d1 where "server_exec (s_os e) a d = Some d1"
    "server_actions e conn addrs acts ((case a of Send m \<Rightarrow> send_msg e conn addrs m socks | _ \<Rightarrow> socks), d1) = Some (socks', d')"
    by (auto simp: bind_eq_Some_conv Let_def)
  with Cons.IH show ?case by simp
qed simp

section \<open>What the streams deliver\<close>

definition heard :: "'r server_env \<Rightarrow> tcp_stream \<Rightarrow> event list" where
  \<comment> \<open>the message at the head of a stream, if a whole one has arrived\<close>
  "heard e stream = (case fst (recv_framed_msg (s_code e) stream) of Inr m \<Rightarrow> [Deliver m] | Inl _ \<Rightarrow> [])"

definition peer_stream :: "(string \<Rightarrow> tcp_stream option) \<Rightarrow> (node_id \<times> string) list \<Rightarrow>
    (node_id \<times> tcp_stream) list \<Rightarrow> node_id \<Rightarrow> tcp_stream option" where
  \<comment> \<open>the stream to a peer, which the loop opens if there is none and the peer can be reached\<close>
  "peer_stream conn addrs conns p =
     (case map_of conns p of Some stream \<Rightarrow> Some stream | None \<Rightarrow> Option.bind (map_of addrs p) conn)"

definition heard_from :: "'r server_env \<Rightarrow> (string \<Rightarrow> tcp_stream option) \<Rightarrow> (node_id \<times> string) list \<Rightarrow>
    (node_id \<times> tcp_stream) list \<Rightarrow> node_id \<Rightarrow> event list" where
  "heard_from e conn addrs conns p =
     (case peer_stream conn addrs conns p of None \<Rightarrow> [] | Some stream \<Rightarrow> heard e stream)"

definition pending :: "tcp_stream \<Rightarrow> bytes \<times> bool" where
  \<comment> \<open>what is left to read\<close>
  "pending stream = (rx stream, rx_closed stream)"

definition still_open :: "'r server_env \<Rightarrow> tcp_stream \<Rightarrow> bool" where
  \<comment> \<open>polling the stream does not fail for good\<close>
  "still_open e stream = (case fst (recv_framed_msg (s_code e) stream) of Inr _ \<Rightarrow> True | Inl err \<Rightarrow> err = WouldBlock)"

definition leftover :: "'r server_env \<Rightarrow> tcp_stream \<Rightarrow> bytes \<times> bool" where
  \<comment> \<open>what is left to read after the stream has been polled\<close>
  "leftover e stream = pending (snd (recv_framed_msg (s_code e) stream))"

lemma recv_pending:
  assumes "pending s = pending s'"
  shows "fst (recv_framed_msg c s) = fst (recv_framed_msg c s') \<and>
    pending (snd (recv_framed_msg c s)) = pending (snd (recv_framed_msg c s'))"
proof -
  have "rx s = rx s'" "rx_closed s = rx_closed s'" using assms by (simp_all add: pending_def)
  then show ?thesis
    by (simp add: recv_framed_msg_def read_exact_def pending_def split: option.split)
qed

lemma heard_pending: "pending s = pending s' \<Longrightarrow> heard e s = heard e s'"
  and still_open_pending: "pending s = pending s' \<Longrightarrow> still_open e s = still_open e s'"
  and leftover_pending: "pending s = pending s' \<Longrightarrow> leftover e s = leftover e s'"
  by (simp_all add: heard_def still_open_def leftover_def recv_pending [of s s'])

lemma write_all_pending: "pending (snd (write_all bs s)) = pending s"
  by (simp add: write_all_def pending_def)

lemma send_framed_pending: "pending (snd (send_framed_msg c m s)) = pending s"
  using write_all_pending by (auto simp: send_framed_msg_def Let_def split: option.splits prod.splits sum.splits)
    (metis snd_conv)+

lemma assoc_insert_map_of: "map_of (assoc_insert k v xs) k' = (if k' = k then Some v else map_of xs k')"
proof (cases "map_of xs k")
  case None
  then show ?thesis by (auto simp: assoc_insert_def map_add_def split: option.splits)
next
  case (Some w)
  have "map_of (map (\<lambda>(k', v'). (k', if k' = k then v else v')) xs) k' =
      (if k' = k then map_option (\<lambda>_. v) (map_of xs k) else map_of xs k')"
    by (induction xs) auto
  with Some show ?thesis by (simp add: assoc_insert_def)
qed

lemma assoc_insert_distinct: "distinct (map fst xs) \<Longrightarrow> distinct (map fst (assoc_insert k v xs))"
  by (auto simp: assoc_insert_def map_of_eq_None_iff comp_def case_prod_beta)

lemma assoc_remove_map_of: "map_of (assoc_remove k xs) k' = (if k' = k then None else map_of xs k')"
  by (induction xs) (auto simp: assoc_remove_def)

lemma assoc_remove_distinct: "distinct (map fst xs) \<Longrightarrow> distinct (map fst (assoc_remove k xs))"
  unfolding assoc_remove_def by (rule distinct_map_filter)

definition undisturbed :: "(string \<Rightarrow> tcp_stream option) \<Rightarrow> (node_id \<times> string) list \<Rightarrow>
    (node_id \<times> tcp_stream) list \<Rightarrow> (node_id \<times> tcp_stream) list \<Rightarrow> bool" where
  \<comment> \<open>no connection is dropped, and no stream has more or less left to read\<close>
  "undisturbed conn addrs conns conns' \<longleftrightarrow>
     (\<forall>p. map_option pending (peer_stream conn addrs conns' p) = map_option pending (peer_stream conn addrs conns p)) \<and>
     (\<forall>p. map_of conns p \<noteq> None \<longrightarrow> map_of conns' p \<noteq> None) \<and>
     (distinct (map fst conns) \<longrightarrow> distinct (map fst conns'))"

lemma undisturbed_refl [simp]: "undisturbed conn addrs conns conns"
  by (simp add: undisturbed_def)

lemma undisturbed_trans [trans]:
  "undisturbed conn addrs a b \<Longrightarrow> undisturbed conn addrs b c \<Longrightarrow> undisturbed conn addrs a c"
  by (simp add: undisturbed_def)

lemma undisturbed_insert:
  assumes "peer_stream conn addrs conns p = Some stream" and "pending stream' = pending stream"
  shows "undisturbed conn addrs conns (assoc_insert p stream' conns)"
  using assms assoc_insert_distinct [of conns p stream']
  by (auto simp: undisturbed_def peer_stream_def assoc_insert_map_of)

lemma undisturbed_heard: "undisturbed conn addrs conns conns' \<Longrightarrow> heard_from e conn addrs conns' p = heard_from e conn addrs conns p"
  using heard_pending by (auto simp: undisturbed_def heard_from_def split: option.splits dest!: spec [of _ p])

lemma send_msg_undisturbed: "undisturbed conn addrs conns (fst (send_msg e conn addrs m (conns, client)))"
  using undisturbed_insert [OF _ send_framed_pending]
  by (auto simp: send_msg_def Let_def peer_stream_def split: option.splits)

lemma server_actions_undisturbed:
  "server_actions e conn addrs acts ((conns, client), d) = Some ((conns', client'), d') \<Longrightarrow> undisturbed conn addrs conns conns'"
proof (induction acts arbitrary: conns client d)
  case (Cons a acts)
  obtain conns1 client1 where s: "(case a of Send m \<Rightarrow> send_msg e conn addrs m (conns, client) | _ \<Rightarrow> (conns, client)) = (conns1, client1)"
    by fastforce
  then have "undisturbed conn addrs conns conns1"
    using send_msg_undisturbed [of conn addrs conns e _ client] by (cases a) (auto, metis fst_conv)
  also from Cons.prems s have "undisturbed conn addrs conns1 conns'"
    by (auto simp: bind_eq_Some_conv Let_def intro: Cons.IH)
  finally show ?case .
qed simp

lemma send_msg_client: "map_option pending (snd (send_msg e conn addrs m (conns, client))) = map_option pending client"
  using send_framed_pending by (auto simp: send_msg_def Let_def split: option.splits)

lemma server_actions_client:
  "server_actions e conn addrs acts ((conns, client), d) = Some ((conns', client'), d') \<Longrightarrow>
    map_option pending client' = map_option pending client"
proof (induction acts arbitrary: conns client d)
  case (Cons a acts)
  obtain conns1 client1 where s: "(case a of Send m \<Rightarrow> send_msg e conn addrs m (conns, client) | _ \<Rightarrow> (conns, client)) = (conns1, client1)"
    by fastforce
  then have "map_option pending client1 = map_option pending client"
    using send_msg_client [of e conn addrs _ conns client] by (cases a) (auto, metis snd_conv)
  moreover from Cons.prems s have "map_option pending client' = map_option pending client1"
    by (auto simp: bind_eq_Some_conv Let_def intro: Cons.IH)
  ultimately show ?case by simp
qed simp

section \<open>The parts of an iteration\<close>

lemma on_server_event:
  assumes "on_server e inp f client srv = Some (srv', c')" and "f = run_event (s_core e) ev"
  shows "run_events (s_core e) (s_os e) [ev] (srv_node srv, srv_disk srv) = Some (srv_node srv', srv_disk srv')"
    and "srv_addrs srv' = srv_addrs srv" and "srv_clients srv' = srv_clients srv"
    and "undisturbed (connect inp) (srv_addrs srv) (srv_conns srv) (srv_conns srv')"
    and "map_option pending c' = map_option pending client"
proof -
  from assms(1) [unfolded on_server_def assms(2)] obtain n acts where
    n: "run_event (s_core e) ev (srv_node srv) = Some (n, acts)"
    and rest: "Option.bind (server_actions e (connect inp) (srv_addrs srv) acts ((srv_conns srv, client), srv_disk srv))
      (\<lambda>((conns, client'), disk). Some (srv\<lparr>srv_node := n, srv_conns := conns, srv_disk := disk\<rparr>, client')) = Some (srv', c')"
    by (auto simp: bind_eq_Some_conv split: prod.splits)
  then obtain conns d where
    d: "server_actions e (connect inp) (srv_addrs srv) acts ((srv_conns srv, client), srv_disk srv) = Some ((conns, c'), d)"
    and srv': "srv' = srv\<lparr>srv_node := n, srv_conns := conns, srv_disk := d\<rparr>"
    by (auto simp: bind_eq_Some_conv)
  from server_actions_disk [OF d] n srv'
  show "run_events (s_core e) (s_os e) [ev] (srv_node srv, srv_disk srv) = Some (srv_node srv', srv_disk srv')" by simp
  from server_actions_undisturbed [OF d] srv'
  show "undisturbed (connect inp) (srv_addrs srv) (srv_conns srv) (srv_conns srv')" by simp
  from server_actions_client [OF d] show "map_option pending c' = map_option pending client" .
qed (use assms in \<open>auto simp: on_server_def bind_eq_Some_conv split: prod.splits\<close>)

lemma step_event: "step e m = run_event e (Deliver m)" and tick_event: "tick e = run_event e Tick"
  by (rule ext, simp)+

lemma connect_peers_spec:
  assumes "srv' = connect_peers inp ps srv"
  shows "srv_node srv' = srv_node srv" "srv_disk srv' = srv_disk srv" "srv_addrs srv' = srv_addrs srv"
    "srv_clients srv' = srv_clients srv"
    and "undisturbed (connect inp) (srv_addrs srv) (srv_conns srv) (srv_conns srv')"
    and "\<forall>p. map_of (srv_conns srv') p \<noteq> None \<longleftrightarrow>
      map_of (srv_conns srv) p \<noteq> None \<or> p \<in> set ps \<and> Option.bind (map_of (srv_addrs srv) p) (connect inp) \<noteq> None"
proof -
  let ?c = "\<lambda>srv srv'. srv_node srv' = srv_node srv \<and> srv_disk srv' = srv_disk srv \<and> srv_addrs srv' = srv_addrs srv \<and>
    srv_clients srv' = srv_clients srv \<and> undisturbed (connect inp) (srv_addrs srv) (srv_conns srv) (srv_conns srv') \<and>
    (\<forall>p. map_of (srv_conns srv') p \<noteq> None \<longleftrightarrow>
      map_of (srv_conns srv) p \<noteq> None \<or> p \<in> set ps \<and> Option.bind (map_of (srv_addrs srv) p) (connect inp) \<noteq> None)"
  have "?c srv (connect_peers inp ps srv)"
  proof (induction ps arbitrary: srv)
    case (Cons p ps)
    define srv1 where "srv1 = (case map_of (srv_conns srv) p of Some _ \<Rightarrow> srv
      | None \<Rightarrow> (case Option.bind (map_of (srv_addrs srv) p) (connect inp) of
          None \<Rightarrow> srv | Some stream \<Rightarrow> srv\<lparr>srv_conns := assoc_insert p stream (srv_conns srv)\<rparr>))"
    have "undisturbed (connect inp) (srv_addrs srv) (srv_conns srv) (srv_conns srv1)"
      by (auto simp: srv1_def peer_stream_def split: option.splits intro!: undisturbed_insert [OF _ refl])
    moreover have "srv_node srv1 = srv_node srv" "srv_disk srv1 = srv_disk srv" "srv_addrs srv1 = srv_addrs srv"
      "srv_clients srv1 = srv_clients srv" by (auto simp: srv1_def split: option.splits)
    moreover have "map_of (srv_conns srv1) q \<noteq> None \<longleftrightarrow>
        map_of (srv_conns srv) q \<noteq> None \<or> q = p \<and> Option.bind (map_of (srv_addrs srv) p) (connect inp) \<noteq> None" for q
      by (auto simp: srv1_def assoc_insert_map_of split: option.splits)
    moreover have "connect_peers inp (p # ps) srv = connect_peers inp ps srv1" by (simp add: srv1_def)
    ultimately show ?case using Cons.IH [of srv1] undisturbed_trans by (auto 4 4)
  qed simp
  with assms show "srv_node srv' = srv_node srv" "srv_disk srv' = srv_disk srv" "srv_addrs srv' = srv_addrs srv"
    "srv_clients srv' = srv_clients srv" "undisturbed (connect inp) (srv_addrs srv) (srv_conns srv) (srv_conns srv')"
    "\<forall>p. map_of (srv_conns srv') p \<noteq> None \<longleftrightarrow>
      map_of (srv_conns srv) p \<noteq> None \<or> p \<in> set ps \<and> Option.bind (map_of (srv_addrs srv) p) (connect inp) \<noteq> None"
    by blast+
qed

definition polled :: "'r server_env \<Rightarrow> tcp_stream option \<Rightarrow> tcp_stream option \<Rightarrow> bool" where
  \<comment> \<open>the second stream is the first one with exactly one poll done\<close>
  "polled e before after \<longleftrightarrow> (\<forall>stream. before = Some stream \<longrightarrow> still_open e stream \<longrightarrow>
     map_option pending after = Some (leftover e stream))"

lemma undisturbed_open:
  assumes "undisturbed conn addrs conns conns'" and "map_of conns p \<noteq> None"
  shows "map_option pending (map_of conns' p) = map_option pending (map_of conns p)"
proof -
  from assms have "map_of conns' p \<noteq> None"
    "map_option pending (peer_stream conn addrs conns' p) = map_option pending (peer_stream conn addrs conns p)"
    unfolding undisturbed_def by blast+
  with assms(2) show ?thesis by (auto simp: peer_stream_def)
qed

lemma polled_pending:
  assumes "pending s = pending s'" and "map_option pending after = map_option pending after'"
  shows "polled e (Some s) after \<longleftrightarrow> polled e (Some s') after'"
  using still_open_pending [OF assms(1), of e] leftover_pending [OF assms(1), of e] assms(2) by (simp add: polled_def)

lemma poll_peer_event:
  \<comment> \<open>one turn of the loop over the peers\<close>
  assumes stream: "map_of (srv_conns srv) p = Some stream"
    and run: "(case recv_framed_msg (s_code e) stream of
        (Inr msg, stream') \<Rightarrow> map_option fst (on_server e inp (step (s_core e) msg) None
           (srv\<lparr>srv_conns := assoc_insert p stream' (srv_conns srv)\<rparr>))
      | (Inl WouldBlock, stream') \<Rightarrow> Some (srv\<lparr>srv_conns := assoc_insert p stream' (srv_conns srv)\<rparr>)
      | (Inl _, _) \<Rightarrow> Some (srv\<lparr>srv_conns := assoc_remove p (srv_conns srv)\<rparr>)) = Some srv1"
  shows "run_events (s_core e) (s_os e) (heard e stream) (srv_node srv, srv_disk srv) = Some (srv_node srv1, srv_disk srv1)"
    and "srv_addrs srv1 = srv_addrs srv" and "srv_clients srv1 = srv_clients srv"
    and "distinct (map fst (srv_conns srv)) \<Longrightarrow> distinct (map fst (srv_conns srv1))"
    and "\<And>q. q \<noteq> p \<Longrightarrow> map_of (srv_conns srv) q \<noteq> None \<Longrightarrow>
      map_option pending (map_of (srv_conns srv1) q) = map_option pending (map_of (srv_conns srv) q)"
    and "polled e (Some stream) (map_of (srv_conns srv1) p)"
proof -
  obtain r stream' where r: "recv_framed_msg (s_code e) stream = (r, stream')" by fastforce
  let ?c = "assoc_insert p stream' (srv_conns srv)"
  have lo: "leftover e stream = pending stream'" by (simp add: leftover_def r)
  consider (msg) msg c where "r = Inr msg"
      "on_server e inp (run_event (s_core e) (Deliver msg)) None (srv\<lparr>srv_conns := ?c\<rparr>) = Some (srv1, c)"
    | (blocked) "r = Inl WouldBlock" "srv1 = srv\<lparr>srv_conns := ?c\<rparr>"
    | (failed) "\<not> still_open e stream" "heard e stream = []" "srv1 = srv\<lparr>srv_conns := assoc_remove p (srv_conns srv)\<rparr>"
    using run r step_event [of "s_core e"]
    by (auto simp: still_open_def heard_def split: sum.splits io_error.splits)
  then have "run_events (s_core e) (s_os e) (heard e stream) (srv_node srv, srv_disk srv) = Some (srv_node srv1, srv_disk srv1) \<and>
    srv_addrs srv1 = srv_addrs srv \<and> srv_clients srv1 = srv_clients srv \<and>
    (distinct (map fst (srv_conns srv)) \<longrightarrow> distinct (map fst (srv_conns srv1))) \<and>
    (\<forall>q. q \<noteq> p \<longrightarrow> map_of (srv_conns srv) q \<noteq> None \<longrightarrow>
      map_option pending (map_of (srv_conns srv1) q) = map_option pending (map_of (srv_conns srv) q)) \<and>
    polled e (Some stream) (map_of (srv_conns srv1) p)"
  proof cases
    case msg
    note on = on_server_event [OF msg(2) refl, simplified]
    have "map_option pending (map_of (srv_conns srv1) q) = map_option pending (map_of ?c q)" if "map_of ?c q \<noteq> None" for q
      using undisturbed_open [OF on(4) that] .
    then have "map_option pending (map_of (srv_conns srv1) p) = Some (leftover e stream)"
      "q \<noteq> p \<Longrightarrow> map_of (srv_conns srv) q \<noteq> None \<Longrightarrow>
        map_option pending (map_of (srv_conns srv1) q) = map_option pending (map_of (srv_conns srv) q)" for q
      by (simp_all add: assoc_insert_map_of lo)
    moreover have "distinct (map fst (srv_conns srv)) \<longrightarrow> distinct (map fst (srv_conns srv1))"
      using on(4) assoc_insert_distinct [of "srv_conns srv" p stream'] by (auto simp: undisturbed_def)
    ultimately show ?thesis using on(1-3) msg(1) r by (simp add: heard_def polled_def)
  next
    case blocked
    with r lo show ?thesis
      using assoc_insert_distinct by (auto simp: heard_def polled_def assoc_insert_map_of)
  next
    case failed
    then show ?thesis
      using assoc_remove_distinct by (auto simp: polled_def assoc_remove_map_of)
  qed
  then show "run_events (s_core e) (s_os e) (heard e stream) (srv_node srv, srv_disk srv) = Some (srv_node srv1, srv_disk srv1)"
    "srv_addrs srv1 = srv_addrs srv" "srv_clients srv1 = srv_clients srv"
    "distinct (map fst (srv_conns srv)) \<Longrightarrow> distinct (map fst (srv_conns srv1))"
    "\<And>q. q \<noteq> p \<Longrightarrow> map_of (srv_conns srv) q \<noteq> None \<Longrightarrow>
      map_option pending (map_of (srv_conns srv1) q) = map_option pending (map_of (srv_conns srv) q)"
    "polled e (Some stream) (map_of (srv_conns srv1) p)" by blast+
qed

lemma poll_peers_events:
  assumes "poll_peers e inp ps srv = Some srv'" and "distinct ps" and "\<forall>p \<in> set ps. map_of (srv_conns srv) p \<noteq> None"
  shows "run_events (s_core e) (s_os e) (concat (map (\<lambda>p. heard e (the (map_of (srv_conns srv) p))) ps))
      (srv_node srv, srv_disk srv) = Some (srv_node srv', srv_disk srv')"
    and "srv_clients srv' = srv_clients srv"
    and "distinct (map fst (srv_conns srv)) \<Longrightarrow> distinct (map fst (srv_conns srv'))"
    and "\<forall>p \<in> set ps. polled e (map_of (srv_conns srv) p) (map_of (srv_conns srv') p)"
proof -
  let ?ok = "\<lambda>ps srv. run_events (s_core e) (s_os e) (concat (map (\<lambda>p. heard e (the (map_of (srv_conns srv) p))) ps))
      (srv_node srv, srv_disk srv) = Some (srv_node srv', srv_disk srv') \<and>
    srv_clients srv' = srv_clients srv \<and>
    (distinct (map fst (srv_conns srv)) \<longrightarrow> distinct (map fst (srv_conns srv'))) \<and>
    (\<forall>p \<in> set ps. polled e (map_of (srv_conns srv) p) (map_of (srv_conns srv') p)) \<and>
    (\<forall>q. q \<notin> set ps \<longrightarrow> map_of (srv_conns srv) q \<noteq> None \<longrightarrow>
      map_option pending (map_of (srv_conns srv') q) = map_option pending (map_of (srv_conns srv) q))"
  have "?ok ps srv" using assms
  proof (induction ps arbitrary: srv)
    case (Cons p ps)
    from Cons.prems(3) obtain stream where stream: "map_of (srv_conns srv) p = Some stream" by auto
    with Cons.prems(1) obtain srv1 where
      one: "(case recv_framed_msg (s_code e) stream of
        (Inr msg, stream') \<Rightarrow> map_option fst (on_server e inp (step (s_core e) msg) None
           (srv\<lparr>srv_conns := assoc_insert p stream' (srv_conns srv)\<rparr>))
      | (Inl WouldBlock, stream') \<Rightarrow> Some (srv\<lparr>srv_conns := assoc_insert p stream' (srv_conns srv)\<rparr>)
      | (Inl _, _) \<Rightarrow> Some (srv\<lparr>srv_conns := assoc_remove p (srv_conns srv)\<rparr>)) = Some srv1"
      and rest: "poll_peers e inp ps srv1 = Some srv'" by (auto simp: bind_eq_Some_conv)
    note turn = poll_peer_event [OF stream one]
    have p: "p \<notin> set ps" "distinct ps" using Cons.prems(2) by auto
    have keep: "map_option pending (map_of (srv_conns srv1) q) = map_option pending (map_of (srv_conns srv) q)"
      if "q \<in> set ps" for q using turn(5) [of q] that p Cons.prems(3) by auto
    have up: "\<forall>q \<in> set ps. map_of (srv_conns srv1) q \<noteq> None" using keep Cons.prems(3) by fastforce
    have ih: "?ok ps srv1" by (rule Cons.IH [OF rest p(2) up])
    have old: "heard e (the (map_of (srv_conns srv1) q)) = heard e (the (map_of (srv_conns srv) q)) \<and>
        (polled e (map_of (srv_conns srv1) q) x \<longleftrightarrow> polled e (map_of (srv_conns srv) q) x)" if q: "q \<in> set ps" for q x
    proof -
      obtain a b where "map_of (srv_conns srv1) q = Some a" "map_of (srv_conns srv) q = Some b" "pending a = pending b"
        using keep [OF q] up q by (cases "map_of (srv_conns srv1) q"; cases "map_of (srv_conns srv) q") auto
      with heard_pending [of a b e] polled_pending [of a b x x e] show ?thesis by simp
    qed
    have "concat (map (\<lambda>p. heard e (the (map_of (srv_conns srv1) p))) ps) =
        concat (map (\<lambda>p. heard e (the (map_of (srv_conns srv) p))) ps)"
      using old by (simp cong: map_cong)
    then have "run_events (s_core e) (s_os e) (concat (map (\<lambda>p. heard e (the (map_of (srv_conns srv) p))) (p # ps)))
        (srv_node srv, srv_disk srv) = Some (srv_node srv', srv_disk srv')"
      using run_events_append [OF turn(1), of "concat (map (\<lambda>p. heard e (the (map_of (srv_conns srv) p))) ps)"] ih stream
      by simp
    moreover have "polled e (map_of (srv_conns srv) p) (map_of (srv_conns srv') p)"
    proof -
      have "map_option pending (map_of (srv_conns srv') p) = map_option pending (map_of (srv_conns srv1) p)"
        if "map_of (srv_conns srv1) p \<noteq> None" using ih p(1) that by blast
      with turn(6) stream show ?thesis by (auto simp: polled_def)
    qed
    moreover have "map_option pending (map_of (srv_conns srv') q) = map_option pending (map_of (srv_conns srv) q)"
      if "q \<notin> set (p # ps)" "map_of (srv_conns srv) q \<noteq> None" for q
    proof -
      have "map_option pending (map_of (srv_conns srv1) q) = map_option pending (map_of (srv_conns srv) q)"
        using turn(5) [of q] that by simp
      moreover from this that have "map_of (srv_conns srv1) q \<noteq> None" by auto
      ultimately show ?thesis using ih that by auto
    qed
    moreover have "\<forall>q \<in> set ps. polled e (map_of (srv_conns srv) q) (map_of (srv_conns srv') q)"
      using ih old by blast
    ultimately show ?case using ih turn(3,4) by auto
  qed simp
  then show "run_events (s_core e) (s_os e) (concat (map (\<lambda>p. heard e (the (map_of (srv_conns srv) p))) ps))
      (srv_node srv, srv_disk srv) = Some (srv_node srv', srv_disk srv')"
    "srv_clients srv' = srv_clients srv"
    "distinct (map fst (srv_conns srv)) \<Longrightarrow> distinct (map fst (srv_conns srv'))"
    "\<forall>p \<in> set ps. polled e (map_of (srv_conns srv) p) (map_of (srv_conns srv') p)" by blast+
qed

lemma poll_clients_events:
  assumes "poll_clients e inp idxs closed srv = Some (srv', closed')" and "distinct idxs"
    and "\<forall>i \<in> set idxs. i < length (srv_clients srv)"
  shows "run_events (s_core e) (s_os e) (concat (map (\<lambda>i. heard e (srv_clients srv ! i)) idxs))
      (srv_node srv, srv_disk srv) = Some (srv_node srv', srv_disk srv')"
    and "undisturbed (connect inp) (srv_addrs srv) (srv_conns srv) (srv_conns srv')"
    and "closed' = closed @ filter (\<lambda>i. \<not> still_open e (srv_clients srv ! i)) idxs"
    and "length (srv_clients srv') = length (srv_clients srv)"
    and "\<forall>i \<in> set idxs. still_open e (srv_clients srv ! i) \<longrightarrow> pending (srv_clients srv' ! i) = leftover e (srv_clients srv ! i)"
proof -
  let ?ok = "\<lambda>idxs closed srv. run_events (s_core e) (s_os e) (concat (map (\<lambda>i. heard e (srv_clients srv ! i)) idxs))
      (srv_node srv, srv_disk srv) = Some (srv_node srv', srv_disk srv') \<and>
    undisturbed (connect inp) (srv_addrs srv) (srv_conns srv) (srv_conns srv') \<and>
    closed' = closed @ filter (\<lambda>i. \<not> still_open e (srv_clients srv ! i)) idxs \<and>
    length (srv_clients srv') = length (srv_clients srv) \<and>
    (\<forall>i \<in> set idxs. still_open e (srv_clients srv ! i) \<longrightarrow> pending (srv_clients srv' ! i) = leftover e (srv_clients srv ! i)) \<and>
    (\<forall>i. i \<notin> set idxs \<longrightarrow> srv_clients srv' ! i = srv_clients srv ! i)"
  have "?ok idxs closed srv" using assms
  proof (induction idxs arbitrary: srv closed)
    case (Cons i idxs)
    let ?s = "srv_clients srv ! i"
    obtain r stream' where r: "recv_framed_msg (s_code e) ?s = (r, stream')" by fastforce
    have i: "i < length (srv_clients srv)" "i \<notin> set idxs" "distinct idxs" using Cons.prems by simp_all
    have "\<exists>srv1 x closed1. poll_clients e inp idxs closed1 (srv1\<lparr>srv_clients := (srv_clients srv)[i := x]\<rparr>) = Some (srv', closed') \<and>
        run_events (s_core e) (s_os e) (heard e ?s) (srv_node srv, srv_disk srv) = Some (srv_node srv1, srv_disk srv1) \<and>
        srv_addrs srv1 = srv_addrs srv \<and> undisturbed (connect inp) (srv_addrs srv) (srv_conns srv) (srv_conns srv1) \<and>
        (still_open e ?s \<longrightarrow> closed1 = closed \<and> pending x = leftover e ?s) \<and>
        (\<not> still_open e ?s \<longrightarrow> closed1 = closed @ [i])"
    proof (cases r)
      case (Inr msg)
      with Cons.prems(1) r obtain srv1 c where
        on: "on_server e inp (run_event (s_core e) (Deliver msg)) (Some stream') srv = Some (srv1, c)"
        and rest: "poll_clients e inp idxs closed
          (srv1\<lparr>srv_clients := (srv_clients srv1)[i := (case c of None \<Rightarrow> stream' | Some s \<Rightarrow> s)]\<rparr>) = Some (srv', closed')"
        using step_event [of "s_core e"] by (auto simp: bind_eq_Some_conv)
      note ev = on_server_event [OF on refl]
      from ev(5) obtain s where s: "c = Some s" "pending s = pending stream'" by auto
      from r Inr have "heard e ?s = [Deliver msg]" "still_open e ?s" "leftover e ?s = pending stream'"
        by (simp_all add: heard_def still_open_def leftover_def)
      with ev s rest show ?thesis by (intro exI [of _ srv1] exI [of _ s] exI [of _ closed]) simp
    next
      case (Inl err)
      let ?closed = "if err = WouldBlock then closed else closed @ [i]"
      have "poll_clients e inp idxs ?closed (srv\<lparr>srv_clients := (srv_clients srv)[i := stream']\<rparr>) = Some (srv', closed')"
        using Cons.prems(1) r Inl by (cases err) simp_all
      moreover from r Inl have "heard e ?s = []" "still_open e ?s \<longleftrightarrow> err = WouldBlock" "leftover e ?s = pending stream'"
        by (simp_all add: heard_def still_open_def leftover_def)
      ultimately show ?thesis by (intro exI [of _ srv] exI [of _ stream'] exI [of _ ?closed]) simp
    qed
    then obtain srv1 x closed1 where
      rest: "poll_clients e inp idxs closed1 (srv1\<lparr>srv_clients := (srv_clients srv)[i := x]\<rparr>) = Some (srv', closed')"
      and one: "run_events (s_core e) (s_os e) (heard e ?s) (srv_node srv, srv_disk srv) = Some (srv_node srv1, srv_disk srv1)"
        "srv_addrs srv1 = srv_addrs srv" "undisturbed (connect inp) (srv_addrs srv) (srv_conns srv) (srv_conns srv1)"
      and x: "still_open e ?s \<Longrightarrow> closed1 = closed \<and> pending x = leftover e ?s"
        "\<not> still_open e ?s \<Longrightarrow> closed1 = closed @ [i]" by blast
    let ?srv1 = "srv1\<lparr>srv_clients := (srv_clients srv)[i := x]\<rparr>"
    have "\<forall>j \<in> set idxs. j < length (srv_clients ?srv1)" using Cons.prems(3) by simp
    from Cons.IH [OF rest i(3) this] have ih: "?ok idxs closed1 ?srv1" .
    have same: "srv_clients ?srv1 ! j = srv_clients srv ! j" if "j \<in> set idxs" for j
    proof -
      from that i(2) have "i \<noteq> j" by blast
      then show ?thesis by simp
    qed
    then have "map (\<lambda>j. heard e (srv_clients ?srv1 ! j)) idxs = map (\<lambda>j. heard e (srv_clients srv ! j)) idxs"
      "filter (\<lambda>j. \<not> still_open e (srv_clients ?srv1 ! j)) idxs = filter (\<lambda>j. \<not> still_open e (srv_clients srv ! j)) idxs"
      by (auto cong: map_cong filter_cong)
    note same2 = this
    have 1: "run_events (s_core e) (s_os e) (concat (map (\<lambda>i. heard e (srv_clients srv ! i)) (i # idxs)))
        (srv_node srv, srv_disk srv) = Some (srv_node srv', srv_disk srv')"
    proof -
      from ih have "run_events (s_core e) (s_os e) (concat (map (\<lambda>j. heard e (srv_clients ?srv1 ! j)) idxs))
          (srv_node ?srv1, srv_disk ?srv1) = Some (srv_node srv', srv_disk srv')" by blast
      then have "run_events (s_core e) (s_os e) (concat (map (\<lambda>j. heard e (srv_clients srv ! j)) idxs))
          (srv_node srv1, srv_disk srv1) = Some (srv_node srv', srv_disk srv')"
        unfolding same2(1) by simp
      from run_events_append [OF one(1) this] show ?thesis by simp
    qed
    have 2: "undisturbed (connect inp) (srv_addrs srv) (srv_conns srv) (srv_conns srv')"
      using ih one(2) by (intro undisturbed_trans [OF one(3)]) simp
    have 3: "closed' = closed @ filter (\<lambda>i. \<not> still_open e (srv_clients srv ! i)) (i # idxs)"
      using ih x same2(2) by (cases "still_open e ?s") simp_all
    have 4: "length (srv_clients srv') = length (srv_clients srv)" using ih by simp
    have at: "srv_clients srv' ! i = x" using ih i(1,2) by simp
    have 5: "\<forall>j \<in> set (i # idxs). still_open e (srv_clients srv ! j) \<longrightarrow> pending (srv_clients srv' ! j) = leftover e (srv_clients srv ! j)"
      using ih same at x(1) by auto
    have 6: "\<forall>j. j \<notin> set (i # idxs) \<longrightarrow> srv_clients srv' ! j = srv_clients srv ! j" using ih by auto
    show ?case using 1 2 3 4 5 6 by blast
  qed (auto simp: undisturbed_def)
  then show "run_events (s_core e) (s_os e) (concat (map (\<lambda>i. heard e (srv_clients srv ! i)) idxs))
      (srv_node srv, srv_disk srv) = Some (srv_node srv', srv_disk srv')"
    "undisturbed (connect inp) (srv_addrs srv) (srv_conns srv) (srv_conns srv')"
    "closed' = closed @ filter (\<lambda>i. \<not> still_open e (srv_clients srv ! i)) idxs"
    "length (srv_clients srv') = length (srv_clients srv)"
    "\<forall>i \<in> set idxs. still_open e (srv_clients srv ! i) \<longrightarrow> pending (srv_clients srv' ! i) = leftover e (srv_clients srv ! i)"
    by blast+
qed

lemma swap_remove_mset:
  "i < length xs \<Longrightarrow> add_mset (xs ! i) (mset (swap_remove i xs)) = mset xs"
  "i < length xs \<Longrightarrow> j < i \<Longrightarrow> swap_remove i xs ! j = xs ! j"
  "length (swap_remove i xs) = length xs - 1"
proof -
  show "length (swap_remove i xs) = length xs - 1" by (simp add: swap_remove_def)
  assume i: "i < length xs"
  then show "j < i \<Longrightarrow> swap_remove i xs ! j = xs ! j" by (simp add: swap_remove_def nth_butlast)
  from i obtain ys y where xs: "xs = ys @ [y]" by (cases xs rule: rev_cases) auto
  then have "swap_remove i xs = (if i = length ys then ys else ys[i := y])"
    using i by (simp add: swap_remove_def list_update_append)
  with xs i show "add_mset (xs ! i) (mset (swap_remove i xs)) = mset xs"
    by (auto simp: nth_append nth_list_update mset_update)
qed

lemma swap_remove_all:
  "sorted_wrt (<) cs \<Longrightarrow> \<forall>i \<in> set cs. i < length xs \<Longrightarrow>
    mset (fold swap_remove (rev cs) xs) + mset (map ((!) xs) cs) = mset xs"
proof (induction cs arbitrary: xs rule: rev_induct)
  case (snoc i cs)
  have i: "i < length xs" "sorted_wrt (<) cs" "\<forall>j \<in> set cs. j < i" using snoc.prems by (auto simp: sorted_wrt_append)
  then have "mset (fold swap_remove (rev cs) (swap_remove i xs)) + mset (map ((!) (swap_remove i xs)) cs) = mset (swap_remove i xs)"
    using swap_remove_mset(3) [of i xs] by (intro snoc.IH) fastforce+
  moreover have "map ((!) (swap_remove i xs)) cs = map ((!) xs) cs" using i swap_remove_mset(2) [OF i(1)] by simp
  ultimately show ?case using swap_remove_mset(1) [OF i(1)] by simp
qed simp

lemma mset_map_split:
  "mset (map f xs) = mset (map f (filter P xs)) + mset (map f (filter (\<lambda>x. \<not> P x) xs))"
  by (induction xs) auto

definition hash_order_ok :: "'r server_env \<Rightarrow> bool" where
  \<comment> \<open>iterating over a \<open>HashMap\<close> visits every key once\<close>
  "hash_order_ok e \<longleftrightarrow>
     (\<forall>ks. set (hash_order e ks) = set ks) \<and> (\<forall>ks. distinct ks \<longrightarrow> distinct (hash_order e ks))"

text \<open>C18: One iteration of the server's main loop is exactly these events of its node, in this order: a timer
  event if and only if the clock says so; for every peer that is connected or can be reached, once, in
  some order, the message that has arrived whole on its stream, if there is one; for every client, the
  one just accepted included, in order, likewise. The actions of each event are performed on the disk
  before the next event. Nothing is invented, skipped or handled twice: afterwards every stream that is
  still usable has moved past exactly what was read from it, and the other clients are gone.\<close>

theorem server_loop_refines:
  assumes "server_loop e inp srv = Some srv'" and order: "hash_order_ok e" and keys: "distinct (map fst (srv_conns srv))"
    and clients: "clients = srv_clients srv @ (case accepted inp of None \<Rightarrow> [] | Some stream \<Rightarrow> [stream])"
    and stream: "stream = peer_stream (connect inp) (srv_addrs srv) (srv_conns srv)"
  shows "\<exists>ps. distinct ps \<and> set ps = {p. stream p \<noteq> None} \<and>
    run_events (s_core e) (s_os e)
      ((if tick_due inp then [Tick] else []) @ concat (map (\<lambda>p. heard e (the (stream p))) ps) @ concat (map (heard e) clients))
      (srv_node srv, srv_disk srv) = Some (srv_node srv', srv_disk srv') \<and>
    distinct (map fst (srv_conns srv')) \<and>
    (\<forall>p. polled e (stream p) (map_of (srv_conns srv') p)) \<and>
    mset (map pending (srv_clients srv')) = mset (map (leftover e) (filter (still_open e) clients))"
proof -
  define conn where "conn = connect inp"
  define srv0 where "srv0 = accept_client inp srv"
  have srv0: "srv_node srv0 = srv_node srv" "srv_disk srv0 = srv_disk srv" "srv_addrs srv0 = srv_addrs srv"
    "srv_conns srv0 = srv_conns srv" "srv_clients srv0 = clients"
    by (auto simp: srv0_def accept_client_def clients split: option.splits)
  from assms(1) obtain srv1 srv2 srv3 srv4 closed where
    s1: "drive_clock e inp srv0 = Some srv1"
    and s2: "srv2 = connect_peers inp (hash_order e (map fst (srv_addrs srv1))) srv1"
    and s3: "poll_peers e inp (hash_order e (map fst (srv_conns srv2))) srv2 = Some srv3"
    and s4: "poll_clients e inp [0 ..< length (srv_clients srv3)] [] srv3 = Some (srv4, closed)"
    and srv': "srv' = srv4\<lparr>srv_clients := fold swap_remove (rev closed) (srv_clients srv4)\<rparr>"
    by (auto simp: server_loop_def Let_def bind_eq_Some_conv srv0_def)
  have clock: "run_events (s_core e) (s_os e) (if tick_due inp then [Tick] else []) (srv_node srv, srv_disk srv)
        = Some (srv_node srv1, srv_disk srv1)"
    "srv_addrs srv1 = srv_addrs srv" "srv_clients srv1 = clients" "undisturbed conn (srv_addrs srv) (srv_conns srv) (srv_conns srv1)"
  proof -
    have "run_events (s_core e) (s_os e) (if tick_due inp then [Tick] else []) (srv_node srv0, srv_disk srv0)
        = Some (srv_node srv1, srv_disk srv1) \<and> srv_addrs srv1 = srv_addrs srv0 \<and> srv_clients srv1 = srv_clients srv0 \<and>
      undisturbed conn (srv_addrs srv0) (srv_conns srv0) (srv_conns srv1)"
    proof (cases "tick_due inp")
      case True
      with s1 obtain c where "on_server e inp (tick (s_core e)) None srv0 = Some (srv1, c)" by (auto simp: drive_clock_def)
      from on_server_event [OF this tick_event] True show ?thesis by (simp add: conn_def)
    next
      case False
      with s1 show ?thesis by (simp add: drive_clock_def)
    qed
    then show "run_events (s_core e) (s_os e) (if tick_due inp then [Tick] else []) (srv_node srv, srv_disk srv)
        = Some (srv_node srv1, srv_disk srv1)"
      "srv_addrs srv1 = srv_addrs srv" "srv_clients srv1 = clients" "undisturbed conn (srv_addrs srv) (srv_conns srv) (srv_conns srv1)"
      by (simp_all add: srv0)
  qed
  note con = connect_peers_spec [OF s2]
  have quiet: "undisturbed conn (srv_addrs srv) (srv_conns srv) (srv_conns srv2)"
    using clock(2) con(5) by (intro undisturbed_trans [OF clock(4)]) (simp add: conn_def)
  have addr_keys: "map_of (srv_addrs srv) p = None \<longleftrightarrow> p \<notin> fst ` set (srv_addrs srv)" for p by (rule map_of_eq_None_iff)
  have open2: "map_of (srv_conns srv2) p \<noteq> None \<longleftrightarrow> stream p \<noteq> None" for p
  proof -
    have "map_of (srv_conns srv2) p \<noteq> None \<longleftrightarrow> peer_stream conn (srv_addrs srv) (srv_conns srv1) p \<noteq> None"
      using con(6) order clock(2) addr_keys [of p]
      by (auto simp: peer_stream_def conn_def hash_order_ok_def split: option.splits)
    also have "\<dots> \<longleftrightarrow> stream p \<noteq> None"
      using clock(4) unfolding undisturbed_def stream conn_def by (metis option.map_disc_iff)
    finally show ?thesis .
  qed
  have same: "map_option pending (map_of (srv_conns srv2) p) = map_option pending (stream p)" for p
  proof (cases "map_of (srv_conns srv2) p")
    case None
    with open2 [of p] show ?thesis by simp
  next
    case (Some x)
    then have "peer_stream conn (srv_addrs srv) (srv_conns srv2) p = Some x" by (simp add: peer_stream_def)
    with quiet Some show ?thesis unfolding undisturbed_def stream conn_def by (metis option.simps(9))
  qed
  let ?ps = "hash_order e (map fst (srv_conns srv2))"
  have d2: "distinct (map fst (srv_conns srv2))" using quiet keys by (simp add: undisturbed_def)
  have ps: "distinct ?ps" "set ?ps = {p. stream p \<noteq> None}"
    using order d2 open2 by (auto simp: hash_order_ok_def map_of_eq_None_iff)
  have up: "\<forall>p \<in> set ?ps. map_of (srv_conns srv2) p \<noteq> None" using ps(2) open2 by simp
  note peers = poll_peers_events [OF s3 ps(1) up]
  have "heard e (the (map_of (srv_conns srv2) p)) = heard e (the (stream p))" if "p \<in> set ?ps" for p
    using same [of p] up that heard_pending by (cases "map_of (srv_conns srv2) p"; cases "stream p") auto
  then have hp: "map (\<lambda>p. heard e (the (map_of (srv_conns srv2) p))) ?ps = map (\<lambda>p. heard e (the (stream p))) ?ps"
    by (simp cong: map_cong)
  have len: "srv_clients srv3 = clients" using peers(2) con(4) clock(3) by simp
  note cl = poll_clients_events [OF s4, simplified len, simplified]
  have all: "map (\<lambda>i. heard e (clients ! i)) [0 ..< length clients] = map (heard e) clients"
    by (rule nth_equalityI) simp_all
  have run: "run_events (s_core e) (s_os e)
      ((if tick_due inp then [Tick] else []) @ concat (map (\<lambda>p. heard e (the (stream p))) ?ps) @ concat (map (heard e) clients))
      (srv_node srv, srv_disk srv) = Some (srv_node srv', srv_disk srv')"
    using run_events_append [OF clock(1) run_events_append [OF peers(1) [unfolded hp con(1,2)] cl(1) [unfolded all]]]
    by (simp add: srv')
  have conns: "distinct (map fst (srv_conns srv'))"
    using peers(3) [OF d2] cl(2) by (simp add: srv' undisturbed_def)
  have poll: "polled e (stream p) (map_of (srv_conns srv') p)" for p
  proof (cases "stream p")
    case (Some x)
    with open2 [of p] same [of p] obtain y where y: "map_of (srv_conns srv2) p = Some y" "pending y = pending x" by auto
    with Some ps(2) peers(4) have "polled e (Some y) (map_of (srv_conns srv3) p)" by fastforce
    then have "polled e (Some x) (map_of (srv_conns srv3) p)" using polled_pending [OF y(2) refl] by blast
    with Some show ?thesis
      using undisturbed_open [OF cl(2), of p] by (cases "map_of (srv_conns srv3) p") (auto simp: polled_def srv')
  qed (simp add: polled_def)
  have closed: "closed = filter (\<lambda>i. \<not> still_open e (clients ! i)) [0 ..< length clients]" using cl(3) by simp
  have "mset (fold swap_remove (rev closed) (srv_clients srv4)) + mset (map ((!) (srv_clients srv4)) closed) = mset (srv_clients srv4)"
    using cl(4) by (intro swap_remove_all) (auto simp: closed sorted_wrt_filter)
  also have "mset (srv_clients srv4) = mset (map ((!) (srv_clients srv4)) [0 ..< length clients])"
    using cl(4) by (metis map_nth)
  also have "\<dots> = mset (map ((!) (srv_clients srv4)) (filter (\<lambda>i. still_open e (clients ! i)) [0 ..< length clients]))
      + mset (map ((!) (srv_clients srv4)) closed)"
    unfolding closed by (rule mset_map_split)
  finally have "mset (srv_clients srv') = mset (map ((!) (srv_clients srv4)) (filter (\<lambda>i. still_open e (clients ! i)) [0 ..< length clients]))"
    by (simp add: srv')
  from arg_cong [OF this, of "image_mset pending"]
  have "mset (map pending (srv_clients srv')) =
      mset (map (\<lambda>i. pending (srv_clients srv4 ! i)) (filter (\<lambda>i. still_open e (clients ! i)) [0 ..< length clients]))"
    by (simp add: multiset.map_comp comp_def)
  also have "map (\<lambda>i. pending (srv_clients srv4 ! i)) (filter (\<lambda>i. still_open e (clients ! i)) [0 ..< length clients]) =
      map (\<lambda>i. leftover e (clients ! i)) (filter (\<lambda>i. still_open e (clients ! i)) [0 ..< length clients])"
    using cl(5) by (intro map_cong) auto
  also have "\<dots> = map (leftover e) (filter (still_open e) (map ((!) clients) [0 ..< length clients]))"
    by (simp add: filter_map comp_def)
  also have "map ((!) clients) [0 ..< length clients] = clients" by (rule map_nth)
  finally show ?thesis using ps run conns poll by blast
qed

definition demo_server :: "u64 server" where
  \<comment> \<open>a follower with a request from a client waiting\<close>
  "demo_server = \<lparr>srv_node = demo_follower, srv_disk = \<lparr>hs_file = [], wal_file = []\<rparr>,
     srv_addrs = [(1, ''a''), (3, ''c'')], srv_conns = [(3, demo_stream)],
     srv_clients = [demo_stream\<lparr>rx := frame demo_bincode demo_request\<rparr>]\<rparr>"

definition demo_server_env :: "u64 server_env" where
  "demo_server_env = \<lparr>s_core = demo_env, s_os = demo_os, s_code = demo_bincode, hash_order = (\<lambda>ks. ks)\<rparr>"

theorem server_loop_refines_witness:
  "\<exists>srv'. server_loop demo_server_env \<lparr>accepted = None, tick_due = True, connect = (\<lambda>a. None)\<rparr> demo_server = Some srv' \<and>
     run_events demo_env demo_os [Tick, Deliver demo_request] (demo_follower, \<lparr>hs_file = [], wal_file = []\<rparr>)
       = Some (srv_node srv', srv_disk srv') \<and>
     election_elapsed (srv_node srv') = 16 \<and> map pending (srv_clients srv') = [([], False)]"
proof -
  let ?i = "\<lparr>accepted = None, tick_due = True, connect = (\<lambda>a. None)\<rparr>"
  have "case server_loop demo_server_env ?i demo_server of None \<Rightarrow> False
      | Some srv' \<Rightarrow> election_elapsed (srv_node srv') = 16 \<and> map pending (srv_clients srv') = [([], False)]" by code_simp
  then obtain srv' where srv': "server_loop demo_server_env ?i demo_server = Some srv'"
    "election_elapsed (srv_node srv') = 16 \<and> map pending (srv_clients srv') = [([], False)]" by (auto split: option.splits)
  have ok: "hash_order_ok demo_server_env" "distinct (map fst (srv_conns demo_server))"
    by (simp_all add: hash_order_ok_def demo_server_env_def demo_server_def)
  define st where "st = peer_stream (connect ?i) (srv_addrs demo_server) (srv_conns demo_server)"
  have stream: "st p = (if p = 3 then Some demo_stream else None)" for p
    by (simp add: st_def peer_stream_def demo_server_def split: Option.bind_split)
  from server_loop_refines [OF srv'(1) ok refl st_def] obtain ps where
    ps: "distinct ps" "set ps = {p. st p \<noteq> None}" and
    run: "run_events (s_core demo_server_env) (s_os demo_server_env) ((if tick_due ?i then [Tick] else []) @
      concat (map (\<lambda>p. heard demo_server_env (the (st p))) ps) @
      concat (map (heard demo_server_env) (srv_clients demo_server @ (case accepted ?i of None \<Rightarrow> [] | Some s \<Rightarrow> [s]))))
      (srv_node demo_server, srv_disk demo_server) = Some (srv_node srv', srv_disk srv')" by blast
  have "set ps = {3}" unfolding ps(2) by (auto simp: stream split: if_splits)
  moreover from this distinct_card [OF ps(1)] have "length ps = 1" by simp
  ultimately have "ps = [3]" by (cases ps) simp_all
  moreover have "heard demo_server_env demo_stream = []" by code_simp
  moreover have "heard demo_server_env (demo_stream\<lparr>rx := frame demo_bincode demo_request\<rparr>) = [Deliver demo_request]"
    by code_simp
  moreover have f: "srv_clients demo_server = [demo_stream\<lparr>rx := frame demo_bincode demo_request\<rparr>]"
    "srv_node demo_server = demo_follower" "srv_disk demo_server = \<lparr>hs_file = [], wal_file = []\<rparr>"
    "s_core demo_server_env = demo_env" "s_os demo_server_env = demo_os"
    by (simp_all add: demo_server_def demo_server_env_def)
  ultimately have "(if tick_due ?i then [Tick] else []) @ concat (map (\<lambda>p. heard demo_server_env (the (st p))) ps) @
      concat (map (heard demo_server_env) (srv_clients demo_server @ (case accepted ?i of None \<Rightarrow> [] | Some s \<Rightarrow> [s])))
      = [Tick, Deliver demo_request]" by (simp add: stream)
  from run [unfolded this, unfolded f]
  have "run_events demo_env demo_os [Tick, Deliver demo_request] (demo_follower, \<lparr>hs_file = [], wal_file = []\<rparr>)
      = Some (srv_node srv', srv_disk srv')" .
  with srv'(1) show ?thesis using srv'(2) by iprover
qed

end
