(* ===== verification/ServerCluster.thy ===== *)
theory ServerCluster
  imports ServerLoop DiskFaults SimCluster ElectionSpec
begin

text \<open>
  The server as a platform of a cluster: the hard state on its disk meets the contract \<open>durable\<close>, so that
  the election safety of clusters holds of servers. What its quorums are, and what it recovers.
\<close>

section \<open>The hard state on the server's disk\<close>

definition dd_hs :: "durable_disk \<Rightarrow> hard_state" where
  \<comment> \<open>the hard state in the first sector of the file\<close>
  "dd_hs d = (if hs_file d = [] then HardState term_zero None
     else let voted = u64_from_le (slice 8 16 (hs_file d))
          in HardState (u64_from_le (slice 0 8 (hs_file d))) (if voted = 0 then None else Some voted))"

definition dd_sound :: "durable_disk \<Rightarrow> bool" where
  "dd_sound d \<longleftrightarrow> hs_file d = [] \<or> 4096 \<le> length (hs_file d)"

lemma write_hs_persists:
  assumes "os_ok s" and "dd_write_hard_state s t v d = (Inr (), d')" and "v \<noteq> Some 0"
  shows "dd_sound d'" and "dd_hs d' = HardState t v"
proof -
  let ?v = "case v of None \<Rightarrow> 0 | Some n \<Rightarrow> n"
  obtain rest where sec: "hard_state_sector s t v = u64_to_le t @ u64_to_le ?v @ rest"
    "length (hard_state_sector s t v) = 4096"
    using hard_state_sector_eq [OF assms(1), of t v] by auto
  note f = write_hs_file(1) [OF assms(1,2)]
  show "dd_sound d'" using f sec(2) by (simp add: dd_sound_def)
  have "slice 0 8 (hs_file d') = u64_to_le t" "slice 8 16 (hs_file d') = u64_to_le ?v"
    unfolding f sec(1) by (simp_all add: slice_def)
  moreover have "hs_file d' \<noteq> []" using f sec(2) by auto
  ultimately show "dd_hs d' = HardState t v" using assms(3) by (auto simp: dd_hs_def Let_def split: option.splits)
qed

lemma truncate_hs: "os_ok s \<Longrightarrow> dd_truncate_and_append s i es d = (Inr (), d') \<Longrightarrow> hs_file d' = hs_file d"
  by (auto simp: dd_truncate_and_append_def Let_def append_extends(2)
      split: sum.splits option.splits prod.splits dest!: append_extends(2))

lemma unwrap_Some: "unwrap r = Some d \<longleftrightarrow> r = (Inr (), d)"
  by (cases r rule: unwrap.cases) auto

lemma server_exec_hs:
  assumes "os_ok s" and "server_exec s a d = Some d'" and "\<not> is_persist a"
  shows "hs_file d' = hs_file d"
  using assms by (cases a) (auto simp: unwrap_Some dest: append_extends(2) truncate_hs)

lemma read_hs_sound:
  assumes "os_ok s" and "dd_sound d" and "dd_read_hard_state s d = Inr hs"
  shows "(case hs of None \<Rightarrow> HardState term_zero None | Some (t, v) \<Rightarrow> HardState t v) = dd_hs d"
proof (cases "hs_file d = []")
  case True
  with assms(3) read_hs [OF assms(1), of d] show ?thesis by (simp add: dd_hs_def)
next
  case False
  with assms(2) have len: "length (take 4096 (hs_file d)) = 4096" by (simp add: dd_sound_def)
  have "slice a b (take 4096 (hs_file d)) = slice a b (hs_file d)" if "b \<le> 4096" for a b
    using that by (simp add: slice_def drop_take min_def)
  with False assms(3) read_hs [OF assms(1), of d] show ?thesis
    by (auto simp: copy_sector [OF assms(1) len] Let_def dd_hs_def split: if_splits)
qed

section \<open>Servers as a cluster\<close>

definition server_platform ::
  "'r server_env \<Rightarrow> (node_id \<Rightarrow> durable_disk \<Rightarrow> u64) \<Rightarrow> node_id list \<Rightarrow> ('r, durable_disk) platform" where
  \<comment> \<open>servers with these ids in their address lists, and the seeds of their random generators\<close>
  "server_platform e seed ids =
     \<lparr>pl_env = s_core e, pl_ids = set ids, pl_peers = (\<lambda>i. hash_order e ids),
      pl_disk = (\<lambda>i. \<lparr>hs_file = [], wal_file = []\<rparr>), pl_exec = server_exec (s_os e),
      pl_boot = (\<lambda>i d. case server_boot e (seed i d) ids i d of Starts n \<Rightarrow> Some n | _ \<Rightarrow> None)\<rparr>"

lemma server_bootE:
  assumes "server_boot e seed ids i d = Starts n"
  obtains hs es where "dd_read_hard_state (s_os e) d = Inr hs" "replay_wal (s_os e) d = Inr es"
    "node_id n = i" "peers n = hash_order e ids" "role n = Follower"
    "node_hs n = (case hs of None \<Rightarrow> HardState term_zero None | Some (t, v) \<Rightarrow> HardState t v)"
    "log n = log_restore \<lparr>last_included_index = sentinel_index, last_included_term = term_zero\<rparr> es"
    "commit_index n = sentinel_index" "last_applied n = sentinel_index"
proof -
  from assms obtain hs es where *: "dd_read_hard_state (s_os e) d = Inr hs" "replay_wal (s_os e) d = Inr es"
    by (cases "dd_read_hard_state (s_os e) d"; cases "replay_wal (s_os e) d")
      (auto simp: server_boot_def split: prod.splits)
  let ?c = "\<lparr>cfg_id = i, cfg_peers = hash_order e ids, cfg_election_timeout_ticks = 15,
    cfg_heartbeat_interval_ticks = 3, cfg_rng_seed = seed\<rparr>"
  obtain t v where tv: "(case hs of None \<Rightarrow> (term_zero, None) | Some tv \<Rightarrow> tv) = (t, v)" by fastforce
  from assms * tv have "node_restore (s_core e) ?c t v
      (log_restore \<lparr>last_included_index = sentinel_index, last_included_term = term_zero\<rparr> es) sentinel_index sentinel_index = Some n"
    by (simp add: server_boot_def Let_def split: option.splits)
  from node_restore_hs [OF this] tv * show ?thesis
    by (intro that) (auto split: option.splits)
qed

definition servers_ok :: "'r server_env \<Rightarrow> node_id list \<Rightarrow> bool" where
  \<comment> \<open>documented behaviour of the system calls and of \<open>HashMap\<close>; ids are distinct and not 0\<close>
  "servers_ok e ids \<longleftrightarrow> os_ok (s_os e) \<and> (\<forall>ks. length (hash_order e ks) = length ks) \<and> distinct ids \<and> 0 \<notin> set ids"

lemma server_durable:
  assumes ok: "servers_ok e ids"
  shows "durable (server_platform e seed ids) dd_hs dd_sound"
proof
  have os: "os_ok (s_os e)" using ok by (simp add: servers_ok_def)
  fix v t d d'
  assume "set_option v \<subseteq> pl_ids (server_platform e seed ids)"
    "pl_exec (server_platform e seed ids) (PersistHardState t v) d = Some d'"
  then have "v \<noteq> Some 0" "dd_write_hard_state (s_os e) t v d = (Inr (), d')"
    using ok by (auto simp: server_platform_def servers_ok_def unwrap_Some)
  from write_hs_persists [OF os this(2,1)] show "dd_sound d' \<and> dd_hs d' = HardState t v" by simp
next
  have os: "os_ok (s_os e)" using ok by (simp add: servers_ok_def)
  fix d a d'
  assume "dd_sound d" "\<not> is_persist a" "pl_exec (server_platform e seed ids) a d = Some d'"
  moreover from this have "hs_file d' = hs_file d"
    using server_exec_hs [OF os] by (simp add: server_platform_def)
  ultimately show "dd_sound d' \<and> dd_hs d' = dd_hs d" by (simp add: dd_sound_def dd_hs_def)
next
  have os: "os_ok (s_os e)" using ok by (simp add: servers_ok_def)
  fix i d n
  assume d: "dd_sound d" and "pl_boot (server_platform e seed ids) i d = Some n"
  then have "server_boot e (seed i d) ids i d = Starts n" by (simp add: server_platform_def split: start.splits)
  then show "node_id n = i \<and> peers n = pl_peers (server_platform e seed ids) i \<and> node_hs n = dd_hs d \<and> role n = Follower"
    by (rule server_bootE) (simp add: server_platform_def read_hs_sound [OF os d])
qed (use ok in \<open>auto simp: server_platform_def servers_ok_def dd_sound_def dd_hs_def distinct_card\<close>)

section \<open>A concrete run\<close>

type_synonym 'r play = "(node_id \<rightharpoonup> 'r raft_node) \<times> message list"

definition sends :: "action list \<Rightarrow> message list" where
  "sends acts = List.map_filter (\<lambda>a. case a of Send m \<Rightarrow> Some m | _ \<Rightarrow> None) acts"

lemma set_sends: "set (sends acts) = sent acts"
  by (induction acts) (auto simp: sends_def sent_def List.map_filter_def split: action.splits)

fun play :: "'r env \<Rightarrow> (node_id + nat) list \<Rightarrow> 'r play \<Rightarrow> 'r play option" where
  \<comment> \<open>a run of nodes without crashes: \<open>Inl i\<close> is a tick of \<open>i\<close>, \<open>Inr k\<close> the delivery of the k-th message sent\<close>
  "play e [] p = Some p"
| "play e (Inl i # mvs) (al, ms) = do {
     n \<leftarrow> al i;
     (n', acts) \<leftarrow> tick e n;
     play e mvs (al(i \<mapsto> n'), ms @ sends acts)
   }"
| "play e (Inr k # mvs) (al, ms) = do {
     m \<leftarrow> vec_index ms k;
     n \<leftarrow> al (msg_to m);
     (n', acts) \<leftarrow> step e m n;
     play e mvs (al(msg_to m \<mapsto> n'), ms @ sends acts)
   }"

lemma play_steps:
  assumes "play (pl_env pl) mvs (al, ms) = Some (al', ms')" and "debug (pl_env pl)"
    and total: "\<And>acts d. \<exists>d'. exec_all pl acts d = Some d'"
    and "alive c = al" "set ms \<subseteq> wire c" "\<forall>i \<in> dom al. disks c i \<noteq> None"
  shows "\<exists>c'. cluster_steps pl c c' \<and> alive c' = al'"
  using assms(1,4-6)
proof (induction mvs arbitrary: al ms c)
  case Nil
  then show ?case by auto
next
  case (Cons mv mvs)
  obtain i ev n n' acts where n: "al i = Some n" "run_event (pl_env pl) ev n = Some (n', acts)"
    and ev: "ev = Tick \<or> (\<exists>m \<in> set ms. ev = Deliver m \<and> msg_to m = i)"
    and rest: "play (pl_env pl) mvs (al(i \<mapsto> n'), ms @ sends acts) = Some (al', ms')"
  proof (cases mv)
    case (Inl i)
    with Cons.prems(1) that [of i _ Tick] show ?thesis by (auto simp: bind_eq_Some_conv)
  next
    case (Inr k)
    with Cons.prems(1) that [of _ _ "Deliver (ms ! k)"] show ?thesis
      by (auto simp: bind_eq_Some_conv vec_index_def split: if_splits)
  qed
  from n(1) Cons.prems(4) obtain d where d: "disks c i = Some d" by auto
  from total obtain d' where d': "exec_all pl acts d = Some d'" by blast
  let ?c = "c\<lparr>alive := (alive c)(i \<mapsto> n'), disks := (disks c)(i \<mapsto> d'), wire := wire c \<union> sent acts\<rparr>"
  have "cluster_step pl c ?c"
  proof (rule cluster_step.handle [OF _ d _ _ n(2) d'])
    show "offered (wire c) i ev" using ev Cons.prems(3) by auto
    show "admissible (pl_env pl) n ev" using assms(2) ev by (auto simp: admissible_def)
  qed (use n(1) Cons.prems(2) in simp)
  moreover have "\<exists>c'. cluster_steps pl ?c c' \<and> alive c' = al'"
    by (rule Cons.IH [OF rest]) (use Cons.prems in \<open>auto simp: set_sends\<close>)
  ultimately show ?case using converse_rtranclp_into_rtranclp [of "cluster_step pl" c ?c] by blast
qed

definition demo_servers :: "(u64, durable_disk) platform" where
  "demo_servers = server_platform demo_server_env (\<lambda>i d. 0) [1, 2]"

definition demo_votes :: "u64 play option" where
  \<comment> \<open>server 1 times out, and asks server 2 for a pre-vote and a vote\<close>
  "demo_votes = do {
     n1 \<leftarrow> pl_boot demo_servers 1 \<lparr>hs_file = [], wal_file = []\<rparr>;
     n2 \<leftarrow> pl_boot demo_servers 2 \<lparr>hs_file = [], wal_file = []\<rparr>;
     play demo_env (replicate 15 (Inl 1) @ [Inr 1, Inr 2, Inr 4, Inr 5]) ([1 \<mapsto> n1, 2 \<mapsto> n2], [])
   }"

lemma demo_servers_ok: "servers_ok demo_server_env [1, 2]"
  using demo_os_ok by (simp add: servers_ok_def demo_server_env_def)

lemma demo_server_exec: "\<exists>d'. server_exec demo_os a d = Some d'"
proof -
  have "\<exists>d'. dd_write_hard_state demo_os t v d = (Inr (), d')" for t v
    by (simp add: dd_write_hard_state_def demo_os_def)
  then show ?thesis using demo_append demo_truncate by (cases a) (simp_all add: unwrap_Some)
qed

lemma demo_exec_all: "\<exists>d'. exec_all demo_servers acts d = Some d'"
proof (induction acts arbitrary: d)
  case (Cons a acts)
  from demo_server_exec obtain d1 where "server_exec demo_os a d = Some d1" by blast
  with Cons show ?case by (simp add: demo_servers_def server_platform_def demo_server_env_def)
qed simp

lemma demo_leader_reached:
  obtains s n where "cluster_steps demo_servers (cluster_init demo_servers) s" "alive s 1 = Some n" "role n = Leader"
proof -
  have "case demo_votes of None \<Rightarrow> False | Some (al, ms) \<Rightarrow> map_option role (al 1) = Some Leader" by code_simp
  then obtain al ms where v: "demo_votes = Some (al, ms)" "map_option role (al 1) = Some Leader"
    by (auto split: option.splits)
  let ?d = "\<lparr>hs_file = [], wal_file = []\<rparr>"
  from v(1) obtain n1 n2 where boot: "pl_boot demo_servers 1 ?d = Some n1" "pl_boot demo_servers 2 ?d = Some n2"
    and p: "play demo_env (replicate 15 (Inl 1) @ [Inr 1, Inr 2, Inr 4, Inr 5]) ([1 \<mapsto> n1, 2 \<mapsto> n2], []) = Some (al, ms)"
    by (auto simp: demo_votes_def bind_eq_Some_conv)
  let ?c0 = "cluster_init demo_servers"
  let ?c1 = "?c0\<lparr>alive := (alive ?c0)(1 \<mapsto> n1)\<rparr>" let ?c2 = "?c1\<lparr>alive := (alive ?c1)(2 \<mapsto> n2)\<rparr>"
  have d: "disks ?c0 1 = Some ?d" "disks ?c1 2 = Some ?d" "disks ?c2 = disks ?c0"
    by (simp_all add: cluster_init_def demo_servers_def server_platform_def)
  have b: "cluster_step demo_servers ?c0 ?c1" "cluster_step demo_servers ?c1 ?c2"
    by (rule cluster_step.boot [OF d(1) boot(1)], rule cluster_step.boot [OF d(2) boot(2)])
  have "\<exists>c'. cluster_steps demo_servers ?c2 c' \<and> alive c' = al"
    by (rule play_steps [OF _ _ demo_exec_all])
      (use p demo_env_ok d in \<open>auto simp: demo_servers_def server_platform_def demo_server_env_def cluster_init_def split: if_splits\<close>)
  then obtain c' where c': "cluster_steps demo_servers ?c2 c'" "alive c' = al" by blast
  from converse_rtranclp_into_rtranclp [where r = "cluster_step demo_servers",
      OF b(1) converse_rtranclp_into_rtranclp [where r = "cluster_step demo_servers", OF b(2) c'(1)]] c'(2) v(2) that
  show ?thesis by auto
qed

section \<open>Election safety of servers\<close>

text \<open>C3: Servers never have two leaders of one term, at once or at different moments, whatever messages are
  lost, repeated, delayed or reordered, whatever clients send, and wherever servers crash, also between
  two disk writes of one call, and restart from their disks. Ids must not be 0.\<close>

theorem server_one_leader:
  assumes ok: "servers_ok e ids"
    and run: "cluster_steps (server_platform e seed ids) (cluster_init (server_platform e seed ids)) s"
    and later: "cluster_steps (server_platform e seed ids) s s'"
    and one: "alive s i = Some n" "role n = Leader" and two: "alive s' j = Some n'" "role n' = Leader"
    and "current_term n' = current_term n"
  shows "i = j"
  using durable.one_leader [OF server_durable [OF ok] run later one two] assms(8) .

theorem server_one_leader_witness:
  "\<exists>s n. cluster_steps demo_servers (cluster_init demo_servers) s \<and> alive s 1 = Some n \<and> role n = Leader \<and>
     (\<forall>j n'. alive s j = Some n' \<longrightarrow> role n' = Leader \<longrightarrow> current_term n' = current_term n \<longrightarrow> j = 1)"
proof -
  obtain s n where s: "cluster_steps demo_servers (cluster_init demo_servers) s" "alive s 1 = Some n" "role n = Leader"
    by (rule demo_leader_reached)
  from server_one_leader [OF demo_servers_ok s(1) [unfolded demo_servers_def] rtranclp.rtrancl_refl s(2,3)] s
  show ?thesis by blast
qed

text \<open>C23: The server's configuration counts the server itself among its peers, so its quorum is one vote too
  large whenever the number of servers is odd: with three servers (and with two) a leader always has the
  votes of all of them, and a single server never becomes leader.\<close>

theorem server_leader_needs_all:
  assumes ok: "servers_ok e ids"
    and run: "cluster_steps (server_platform e seed ids) (cluster_init (server_platform e seed ids)) s"
    and "alive s i = Some n" "role n = Leader"
  shows "length ids \<noteq> 1 \<and> (length ids + 1) div 2 + 1 \<le> card (votes_received n) \<and> votes_received n \<subseteq> set ids \<and>
    (length ids \<le> 3 \<longrightarrow> votes_received n = set ids)"
proof -
  note server = server_durable [OF ok, of seed]
  from durable.election_steps [OF server run durable.election_init [OF server]] obtain H where
    "durable.election_inv (server_platform e seed ids) dd_hs dd_sound H s" .
  note v = durable.leader_votes [OF server this assms(3,4)]
  have sub: "votes_received n \<subseteq> set ids" "peers n = hash_order e ids"
    using v(2,4) by (simp_all add: server_platform_def)
  have len: "length (peers n) = length ids" "card (set ids) = length ids"
    using ok sub(2) by (simp_all add: servers_ok_def distinct_card)
  then have m: "(length ids + 1) div 2 + 1 \<le> card (votes_received n)" using v(3) by (simp add: majority_def)
  have le: "card (votes_received n) \<le> length ids" using card_mono [OF _ sub(1)] len(2) by simp
  have "votes_received n = set ids" if "length ids \<le> 3"
  proof (rule card_subset_eq)
    have "length ids \<le> (length ids + 1) div 2 + 1" using that by linarith
    with m le len(2) show "card (votes_received n) = card (set ids)" by linarith
  qed (use sub(1) in simp_all)
  with m le sub(1) show ?thesis by auto
qed

theorem server_leader_needs_all_witness:
  "\<exists>s n. cluster_steps demo_servers (cluster_init demo_servers) s \<and> alive s 1 = Some n \<and> role n = Leader \<and>
     votes_received n = {1, 2}"
proof -
  obtain s n where s: "cluster_steps demo_servers (cluster_init demo_servers) s" "alive s 1 = Some n" "role n = Leader"
    by (rule demo_leader_reached)
  from server_leader_needs_all [OF demo_servers_ok s(1) [unfolded demo_servers_def] s(2,3)] s
  show ?thesis by auto
qed

section \<open>Recovery of a server\<close>

text \<open>A server recovers what its disk holds: the node it starts has the term and the vote of the hard state
  file (none for an empty file), the replayed entries as its log on top of an empty base, and nothing
  committed. It does not start when the checksum of the hard state is wrong.\<close>

theorem server_recovers:
  assumes os: "os_ok (s_os e)" and "dd_sound d" and "rng_ok (s_core e)"
    and readable: "dd_read_hard_state (s_os e) d \<noteq> Inl OtherError" "replay_wal (s_os e) d = Inr es"
  shows "if dd_read_hard_state (s_os e) d = Inl InvalidData then server_boot e seed ids i d = Fails InvalidData
    else \<exists>n. server_boot e seed ids i d = Starts n \<and> node_id n = i \<and> node_hs n = dd_hs d \<and> role n = Follower \<and>
      log n = \<lparr>entries = sentinel_entry sentinel_index term_zero # es\<rparr> \<and> commit_index n = sentinel_index"
proof (cases "dd_read_hard_state (s_os e) d = Inl InvalidData")
  case True
  then show ?thesis by (simp add: server_boot_def)
next
  case False
  with readable(1) read_hs [OF os readable(1)] obtain hs where hs: "dd_read_hard_state (s_os e) d = Inr hs"
    by (auto simp: Let_def split: if_splits)
  obtain t v where tv: "(case hs of None \<Rightarrow> (term_zero, None) | Some tv \<Rightarrow> tv) = (t, v)" by fastforce
  let ?c = "\<lparr>cfg_id = i, cfg_peers = hash_order e ids, cfg_election_timeout_ticks = 15,
    cfg_heartbeat_interval_ticks = 3, cfg_rng_seed = seed\<rparr>"
  from node_new_returns [OF assms(3), of ?c] obtain n0 where "node_new (s_core e) ?c = Some n0" by (auto simp: returns_iff)
  then have "\<exists>n. server_boot e seed ids i d = Starts n"
    using hs tv readable(2) by (simp add: server_boot_def node_restore_def Let_def)
  then obtain n where n: "server_boot e seed ids i d = Starts n" by blast
  then show ?thesis
  proof (rule server_bootE)
    fix hs' es'
    assume *: "dd_read_hard_state (s_os e) d = Inr hs'" "replay_wal (s_os e) d = Inr es'" "node_id n = i"
      "node_hs n = (case hs' of None \<Rightarrow> HardState term_zero None | Some (t, v) \<Rightarrow> HardState t v)" "role n = Follower"
      "log n = log_restore \<lparr>last_included_index = sentinel_index, last_included_term = term_zero\<rparr> es'"
      "commit_index n = sentinel_index"
    have "node_hs n = dd_hs d" using read_hs_sound [OF os assms(2) *(1)] *(4) by simp
    with * n readable(2) show ?thesis by (simp add: log_restore_def sentinel_entry_def)
  qed
qed

theorem server_recovers_witness:
  "\<exists>n. server_boot demo_server_env 0 [1, 2] 1 demo_wal = Starts n \<and> tl (entries (log n)) = demo_records"
proof -
  have e: "s_os demo_server_env = demo_os" "s_core demo_server_env = demo_env" by (simp_all add: demo_server_env_def)
  have hs: "dd_sound demo_wal" "dd_read_hard_state demo_os demo_wal = Inr None"
    by (simp_all add: dd_sound_def demo_wal_def dd_read_hard_state_def demo_os_def)
  then have "dd_read_hard_state demo_os demo_wal \<noteq> Inl OtherError" by simp
  from server_recovers [of demo_server_env, unfolded e, OF demo_os_ok hs(1) demo_env_ok(2) this demo_wal_replay,
      where seed = 0 and ids = "[1, 2]" and i = 1] hs(2)
  show ?thesis by auto
qed

end
