(* ===== verification/Client.thy ===== *)
theory Client
  imports Server CommitSpec
begin

text \<open>
  \<open>raft-client/src/main.rs\<close>: one request and one answer over a stream, with the client's own copy of the
  framing, and the exchange of client and server end to end. The connection and what arrives on it
  before the read times out are inputs.
\<close>

section \<open>The client\<close>

definition write_blocking :: "bytes \<Rightarrow> tcp_stream \<Rightarrow> unit io \<times> tcp_stream" where
  \<comment> \<open>\<open>write_all\<close> on a blocking stream, which waits until the kernel has taken everything\<close>
  "write_blocking bs s =
     (if bs = [] then (Inr (), s)
      else if tx_broken s then (Inl OtherError, s)
      else (Inr (), s\<lparr>tx := tx s @ bs\<rparr>))"

definition send_framed :: "bincode \<Rightarrow> message \<Rightarrow> tcp_stream \<Rightarrow> unit io \<times> tcp_stream" where
  "send_framed c m stream =
     (case serialize c m of
        None \<Rightarrow> (Inl InvalidData, stream)
      | Some payload \<Rightarrow>
          (case write_blocking (u32_to_be (of_nat (length payload))) stream of
             (Inl err, stream1) \<Rightarrow> (Inl err, stream1)
           | (Inr _, stream1) \<Rightarrow> write_blocking payload stream1))"

definition recv_framed :: "bincode \<Rightarrow> tcp_stream \<Rightarrow> message io \<times> tcp_stream" where
  "recv_framed c stream =
     (let (r, stream1) = read_exact 4 stream
      in case r of
           Inl err \<Rightarrow> (Inl err, stream1)
         | Inr len_bytes \<Rightarrow>
             let (r, stream2) = read_exact (unat (u32_from_be len_bytes)) stream1
             in (case r of
                   Inl err \<Rightarrow> Inl err
                 | Inr payload \<Rightarrow> (case deserialize c payload of None \<Rightarrow> Inl InvalidData | Some m \<Rightarrow> Inr m), stream2))"

definition client_request :: "bytes \<Rightarrow> message" where
  "client_request payload =
     \<lparr>msg_from = 999, msg_to = 0, msg_term = term_zero, msg_kind = ClientRequest payload\<rparr>"

datatype report =
    UsageExit
  | MainFails io_error
  | TransactionCommitted bytes
  | NotLeader "node_id option"
  | UnexpectedResponse message
  | ResponseError io_error

definition client_main ::
  "bincode \<Rightarrow> (string \<Rightarrow> tcp_stream io) \<Rightarrow> (tcp_stream \<Rightarrow> tcp_stream) \<Rightarrow> string list \<Rightarrow> report" where
  \<comment> \<open>\<open>conn\<close> is the result of \<open>TcpStream::connect\<close>, \<open>wait\<close> the stream when the read returns\<close>
  "client_main c conn wait args =
     (if length args < 3 then UsageExit
      else let server_addr = args ! 1; payload = map of_char (args ! 2)
           in case conn server_addr of
                Inl err \<Rightarrow> MainFails err
              | Inr stream \<Rightarrow>
                  (case send_framed c (client_request payload) stream of
                     (Inl err, _) \<Rightarrow> MainFails err
                   | (Inr _, stream1) \<Rightarrow>
                       (case fst (recv_framed c (wait stream1)) of
                          Inr m \<Rightarrow>
                            (case msg_kind m of
                               ClientResponse success leader_hint \<Rightarrow>
                                 if success then TransactionCommitted payload else NotLeader leader_hint
                             | _ \<Rightarrow> UnexpectedResponse m)
                        | Inl err \<Rightarrow> ResponseError err)))"

section \<open>Client and server\<close>

lemma recv_framed_agrees: "recv_framed = recv_framed_msg"
  by (intro ext) (auto simp: recv_framed_def recv_framed_msg_def Let_def split: prod.splits sum.splits option.splits)

lemma send_framed_sends:
  "serialize c m = Some bs \<Longrightarrow> \<not> tx_broken s \<Longrightarrow>
    \<exists>s'. send_framed c m s = (Inr (), s') \<and> tx s' = tx s @ frame c m"
  by (auto simp: send_framed_def write_blocking_def frame_def)

definition accepted_reply :: "'r raft_node \<Rightarrow> message" where
  \<comment> \<open>the answer of a leader to a client\<close>
  "accepted_reply n = \<lparr>msg_from = node_id n, msg_to = client_node, msg_term = current_term n,
     msg_kind = ClientResponse True (Some (node_id n))\<rparr>"

text \<open>C22: The client's message of success does not mean committed. When a client sends a command to a leader
  with peers, the server reads exactly this request from the stream. The leader appends it after its
  last entry, writes that entry to disk, sends each peer what it lacks, and answers success in the same
  call, before any peer can have seen the entry; nothing of it but the log has changed, in particular not
  the commit index. As soon as that answer arrives the client reports the transaction as committed.\<close>

theorem client_success_before_commit:
  assumes code: "bincode_ok c" "sendable c (client_request cmd)" "sendable c (accepted_reply n)"
    and wf: "node_wf n" "headroom n" and lead: "role n = Leader" "peers n \<noteq> []"
    and stream: "conn addr = Inr s" "tx s = []" "\<not> tx_broken s"
    and cmd: "cmd = map of_char arg"
    and n': "n' = n\<lparr>log := log n\<lparr>entries := entries (log n) @ [own_entry n cmd]\<rparr>\<rparr>"
  shows "recv_framed_msg c (r\<lparr>rx := frame c (client_request cmd)\<rparr>) = (Inr (client_request cmd), r\<lparr>rx := []\<rparr>) \<and>
    step e (client_request cmd) n = Some (n', AppendToLog [own_entry n cmd]
      # map (\<lambda>p. reply n p (update_for n' p)) (peers n) @ [Send (accepted_reply n)]) \<and>
    commit_index n' = commit_index n \<and>
    client_main c conn (\<lambda>s'. if tx s' = frame c (client_request cmd)
        then s'\<lparr>rx := frame c (accepted_reply n)\<rparr> else s') [prog, addr, arg] = TransactionCommitted cmd"
proof -
  let ?req = "client_request cmd"
  from code(2) obtain bs where bs: "serialize c ?req = Some bs" by (auto simp: sendable_def)
  from send_framed_sends [OF bs stream(3)] stream(2) obtain s' where
    s': "send_framed c ?req s = (Inr (), s')" "tx s' = frame c ?req" by auto
  have "recv_framed_msg c (r\<lparr>rx := frame c ?req\<rparr>) = (Inr ?req, r\<lparr>rx := []\<rparr>)"
    using recv_frame [OF code(1,2), of "r\<lparr>rx := frame c ?req\<rparr>" "[]"] by simp
  moreover have "recv_framed_msg c (s'\<lparr>rx := frame c (accepted_reply n)\<rparr>) = (Inr (accepted_reply n), s'\<lparr>rx := []\<rparr>)"
    using recv_frame [OF code(1,3), of "s'\<lparr>rx := frame c (accepted_reply n)\<rparr>" "[]"] by simp
  then have "client_main c conn (\<lambda>s'. if tx s' = frame c ?req then s'\<lparr>rx := frame c (accepted_reply n)\<rparr> else s') [prog, addr, arg] =
      TransactionCommitted cmd"
    using s' stream(1) cmd by (simp add: client_main_def recv_framed_agrees accepted_reply_def)
  moreover have "step e ?req n = Some (n', AppendToLog [own_entry n cmd]
      # map (\<lambda>p. reply n p (update_for n' p)) (peers n) @ [Send (accepted_reply n)])"
    using propose_result [OF wf lead, of e cmd] lead(1)
    by (simp add: step_def dispatch_def handle_client_request_def client_request_def accepted_reply_def
        client_node_def n' proposed_def)
  ultimately show ?thesis by (simp add: n')
qed

definition demo_chat :: bincode where
  \<comment> \<open>a code for requests and positive answers\<close>
  "demo_chat =
     \<lparr>serialize = (\<lambda>m. case msg_kind m of
        ClientRequest cmd \<Rightarrow> Some (u64_to_le (msg_from m) @ u64_to_le (msg_to m) @ u64_to_le (msg_term m) @ [1] @ cmd)
      | ClientResponse True (Some i) \<Rightarrow> Some (u64_to_le (msg_from m) @ u64_to_le (msg_to m) @ u64_to_le (msg_term m) @ [2] @ u64_to_le i)
      | _ \<Rightarrow> None),
      deserialize = (\<lambda>bs. Some \<lparr>msg_from = u64_from_le (take 8 bs), msg_to = u64_from_le (take 8 (drop 8 bs)),
        msg_term = u64_from_le (take 8 (drop 16 bs)),
        msg_kind = (if bs ! 24 = 1 then ClientRequest (drop 25 bs)
          else ClientResponse True (Some (u64_from_le (take 8 (drop 25 bs)))))\<rparr>)\<rparr>"

theorem client_success_before_commit_witness:
  "client_main demo_chat (\<lambda>a. Inr demo_stream)
     (\<lambda>s'. if tx s' = frame demo_chat (client_request [104, 105]) then s'\<lparr>rx := frame demo_chat (accepted_reply demo_leader)\<rparr> else s')
     [''raft-client'', ''127.0.0.1'', ''hi''] = TransactionCommitted [104, 105]"
proof -
  have hi: "[104, 105] = (map of_char ''hi'' :: bytes)" by code_simp
  have "bincode_ok demo_chat"
    by (auto simp: bincode_ok_def demo_chat_def nth_append split: message_kind.splits bool.splits option.splits)
  moreover have "sendable demo_chat (client_request [104, 105])" "sendable demo_chat (accepted_reply demo_leader)"
    by (simp_all add: sendable_def demo_chat_def client_request_def accepted_reply_def)
  moreover have "role demo_leader = Leader" "peers demo_leader \<noteq> []" by (simp_all add: demo_leader_def demo_follower_def)
  moreover have "tx demo_stream = []" "\<not> tx_broken demo_stream" by (simp_all add: demo_stream_def)
  ultimately show ?thesis
    using client_success_before_commit [OF _ _ _ demo_nodes_wf(2) demo_nodes_room(2) _ _ _ _ _ hi refl,
        of demo_chat "\<lambda>a. Inr demo_stream" "''127.0.0.1''" demo_stream] by simp
qed

end
