(* ===== verification/Spec2Isabelle.thy ===== *)
theory Spec2Isabelle
  imports NodeCases LogSpec DiskMirror SimSpec LostCommit DiskFaults ServerCluster Client
begin

text \<open>
  A verification development for the Raft implementation of this repository: the consensus core
  (\<open>raft-core\<close>), the deterministic simulator (\<open>raft-sim\<close>), the server (\<open>raft-server\<close>) and its client
  (\<open>raft-client\<close>).

  \<^bold>\<open>The program.\<close> \<open>RaftNode\<close> is a state machine without I/O. Its entry points \<open>tick\<close>, \<open>step\<close>, \<open>propose\<close> and
  \<open>compact_logs\<close> change the node and return a list of actions: messages to send, writes to the disk,
  entries to apply. A host performs them: the simulator on a simulated disk and network, with safety
  checks after every step, or the server on files and TCP streams.

  \<^bold>\<open>Theories and sources.\<close>
  \<^item> \<open>Prelude\<close>, \<open>Message\<close>: panics as \<open>None\<close>, checked 64-bit arithmetic with the build profile as a flag;
    \<open>types.rs\<close> and \<open>message.rs\<close>.
  \<^item> \<open>LogStore\<close>, \<open>RaftLog\<close>, \<open>LogSpec\<close>: \<open>log.rs\<close>. \<open>log_store\<close> is the contract of a vector of consecutive
    entries; the log and the simulated disk both provide it. \<open>LogSpec\<close> reads the operations as
    functions of the partial map \<open>lookup\<close>.
  \<^item> \<open>NodeState\<close>, \<open>Election\<close>, \<open>Replication\<close>, \<open>Node\<close>: \<open>node.rs\<close>, in the order of its handlers. \<open>NodeInv\<close>: the
    invariant \<open>node_wf\<close>, and that no entry point panics. \<open>NodeCases\<close>: one elimination rule for each
    operation. \<open>ElectionSpec\<close>, \<open>ReplicationSpec\<close>, \<open>CommitSpec\<close>, \<open>EventSpec\<close>: what each handler does on every
    branch, against reference definitions (\<open>grants_vote\<close>, \<open>wins\<close>, \<open>merge_new\<close>, \<open>committable\<close>, \<open>update_for\<close>), and what every
    event keeps.
  \<^item> \<open>HardState\<close>, \<open>Cluster\<close>: the order in which term and vote reach the disk, and election safety of a
    cluster of nodes on any platform that keeps the hard state (locale \<open>durable\<close>), with messages lost,
    repeated and reordered and crashes between any two actions. \<open>LogEffect\<close>, \<open>LogMatching\<close>: log
    matching, on a platform that also keeps the entries (locale \<open>journal\<close>).
  \<^item> \<open>SimDisk\<close>, \<open>SimNetwork\<close>, \<open>SimInvariants\<close>, \<open>Simulator\<close>: the four files of \<open>raft-sim\<close>. \<open>SimJournal\<close>,
    \<open>SimCluster\<close>: the simulator provides \<open>durable\<close> and \<open>journal\<close>, and each of its calls is a sequence of
    cluster steps. \<open>SimSafety\<close>: the invariant of a simulation. \<open>DiskMirror\<close>: the disk equals the node,
    and recovery is exact. \<open>SimSpec\<close>: the network's schedule, and what the checks establish.
    \<open>LostCommit\<close>: a run that loses committed commands.
  \<^item> \<open>Bytes\<close>, \<open>DurableDisk\<close>, \<open>Codec\<close>, \<open>Server\<close>: \<open>storage.rs\<close>, \<open>codec.rs\<close> and \<open>main.rs\<close> of \<open>raft-server\<close>.
    \<open>DiskSpec\<close>, \<open>DiskFaults\<close>: the hard state sector, the write-ahead log, and where it falls short.
    \<open>ServerLoop\<close>: which events of the node one iteration of the main loop is. \<open>ServerCluster\<close>: servers are
    a \<open>durable\<close> platform. \<open>Client\<close>: the client, and its exchange with a leader.
  \<^item> \<open>DemoNode\<close>, \<open>Demo\<close>: concrete nodes, environments and runs for the witnesses.

  \<^bold>\<open>Parameters.\<close> Random numbers (the \<open>rand\<close> crate), the iteration order of a \<open>HashMap\<close>, the tie-breaking of a
  \<open>BinaryHeap\<close>, the system calls, the contents of uninitialised memory, CRC-32 and \<open>bincode\<close> are arguments
  in the records \<open>env\<close>, \<open>sim_env\<close>, \<open>os\<close>, \<open>bincode\<close> and \<open>server_env\<close>. What is relied upon of them is named in
  \<open>rng_ok\<close>, \<open>range_ok\<close>, \<open>heap_ok\<close>, \<open>key_order_ok\<close>, \<open>os_ok\<close>, \<open>bincode_ok\<close>, \<open>hash_order_ok\<close> and \<open>servers_ok\<close>, and each has a concrete instance.

  \<^bold>\<open>Bounds.\<close> Integers have their width and wrap around or panic as the build profile says. The loop of
  \<open>drain_due\<close> has the number of messages as fuel, which is enough since every turn removes one
  (\<open>SimSpec\<close>); every other loop is recursion with a termination proof. Theorems about
  \<open>headroom\<close> exclude nodes whose counters have reached the 64-bit limit. The theorems about whole
  simulations are about the dev profile: in the release profile a term can wrap around.

  \<^bold>\<open>What fails.\<close> State machine safety does not hold (\<open>LostCommit\<close>): a success answer is credited with
  the leader's whole log (\<open>CommitSpec\<close>). The write-ahead log of the server reads its own padding as
  entries and may lose a write (\<open>DiskFaults\<close>). A frame that arrives in two parts is lost (\<open>Codec\<close>), the
  client reports success before anything is replicated (\<open>Client\<close>), and a server's quorum counts the
  server twice (\<open>ServerCluster\<close>).

  Compaction below the base and the installation of a snapshot put disk and memory out of step
  (\<open>DiskMirror\<close>), and a message whose entries are not consecutive can panic a node: the theorems about
  panics are about well-formed messages, which are those that nodes send.

  \<^bold>\<open>Not modelled.\<close> Formatting for the console, the unit tests, the simulation tests and the benchmark. The
  sockets of the server are byte streams with a send buffer; the wall clock is an input of the loop.
\<close>

section \<open>Safety of elections\<close>

text \<open>C1: In a simulation in the dev profile, whatever sequence of steps, crashes, restarts, proposals,
  partitions and network settings the caller chooses, the check of election safety never reports a
  violation: no step ever sees two leaders of the same term, at once or at different moments.\<close>

theorem sim_election_check_passes:
  assumes "debug (core e)" and "heap_ok e"
    and "simulator_new e seed num = Some s" and "run_calls e calls s = Some (s', rs)"
  shows "Inl (ElectionSafety i j t) \<notin> set rs"
proof -
  from run_calls_inv [OF assms(4,2,1) simulator_new_inv [OF assms(3)]]
  have "\<forall>r \<in> set rs. \<not> is_election r" by simp
  then show ?thesis by fastforce
qed

theorem sim_election_check_passes_witness:
  "Inl (ElectionSafety 1 2 1) \<notin> set (replicate 26 (Inr () :: violation + unit)) \<and>
   map_option role (sim_nodes demo_end 1) = Some Leader"
proof
  show "Inl (ElectionSafety 1 2 1) \<notin> set (replicate 26 (Inr () :: violation + unit))"
    by (rule sim_election_check_passes [OF demo_sim_ok(2,1) demo_starts demo_runs])
  show "map_option role (sim_nodes demo_end 1) = Some Leader" by code_simp
qed

section \<open>Safety of logs\<close>

text \<open>C4: In a simulation in the dev profile the check of log matching never reports a violation: no step ever
  sees two logs that hold different commands at the same index and term.\<close>

theorem sim_log_matching_check_passes:
  assumes "debug (core e)" and "heap_ok e"
    and "simulator_new e seed num = Some s" and "run_calls e calls s = Some (s', rs)"
  shows "Inl (LogMatching i j k t) \<notin> set rs"
proof -
  from run_calls_inv [OF assms(4,2,1) simulator_new_inv [OF assms(3)]]
  have "\<forall>r \<in> set rs. \<not> is_mismatch r" by simp
  then show ?thesis by fastforce
qed

theorem sim_log_matching_check_passes_witness:
  "Inl (LogMatching 1 2 1 1) \<notin> set (replicate 26 (Inr () :: violation + unit))"
  by (rule sim_log_matching_check_passes [OF demo_sim_ok(2,1) demo_starts demo_runs])

text \<open>C5: After any calls in the dev profile, all nodes of a simulation that are up agree: two logs that have an
  entry of the same index and term above their bases have the same command there; and two nodes
  that lead the same term are one.\<close>

theorem sim_nodes_agree:
  assumes "debug (core e)" and "heap_ok e"
    and "simulator_new e seed num = Some s" and "run_calls e calls s = Some (s', rs)"
    and n: "sim_nodes s' i = Some n1" "sim_nodes s' j = Some n2"
  shows "entries_match (log n1) (log n2) \<and>
    (role n1 = Leader \<longrightarrow> role n2 = Leader \<longrightarrow> current_term n1 = current_term n2 \<longrightarrow> i = j)"
proof -
  from run_calls_inv [OF assms(4,2,1) simulator_new_inv [OF assms(3)]] obtain c H where
    c: "reached e seed num c" "sim.election_inv e seed num H c" "alive c = sim_nodes s'"
    unfolding sim_inv_def sim_rel_def reached_def by blast
  then have up: "alive c i = Some n1" "alive c j = Some n2" using n by simp_all
  have "i = j" if "role n1 = Leader" "role n2 = Leader" "current_term n1 = current_term n2"
    using sim.leader_elected(1) [OF c(2) up(1) that(1)] sim.leader_elected(1) [OF c(2) up(2) that(2)] that(3)
      sim.elected_unique [OF c(2)] by metis
  with reached_logs_match [OF c(1) assms(1) up] show ?thesis by blast
qed

theorem sim_nodes_agree_witness:
  "\<exists>n1 n2. sim_nodes demo_end 1 = Some n1 \<and> sim_nodes demo_end 2 = Some n2 \<and> entries_match (log n1) (log n2)"
proof -
  have "sim_nodes demo_end 1 \<noteq> None \<and> sim_nodes demo_end 2 \<noteq> None"
  proof -
    have "map_option role (sim_nodes demo_end 1) \<noteq> None \<and> map_option role (sim_nodes demo_end 2) \<noteq> None" by code_simp
    then show ?thesis by auto
  qed
  then obtain n1 n2 where "sim_nodes demo_end 1 = Some n1" "sim_nodes demo_end 2 = Some n2" by auto
  with sim_nodes_agree [OF demo_sim_ok(2,1) demo_starts demo_runs this] show ?thesis by blast
qed

end
